(* ===== verification/Floats.thy ===== *)
theory Floats
  imports Complex_Main "HOL-Library.Log_Nat"
begin

text \<open>
  The floating-point numbers of the program. A finite float is the rational number it stands for;
  every operation computes the exact rational result and rounds it to the nearest number of the
  format, a tie to the even significand (IEEE 754, the rule of Python, NumPy and the game).
  \<open>r64\<close> rounds to binary64 and \<open>r32\<close> to binary32, subnormal numbers included. The upper end of the
  exponent range is left out: nothing the program computes comes near \<open>2 ^ 127\<close>. The sign of zero is
  not kept (no code here reads it), and infinities and NaN are modelled where the code uses them.
\<close>

section \<open>Rounding a rational to an integer, ties to even\<close>

definition rne :: "rat \<Rightarrow> int" where
  "rne x = (let f = \<lfloor>x\<rfloor>; r = x - of_int f
            in if r < 1 / 2 \<or> r = 1 / 2 \<and> even f then f else f + 1)"

lemma rne_of_int [simp]: "rne (of_int n) = n"
  by (simp add: rne_def)

lemma rne_floor: "\<lfloor>x\<rfloor> \<le> rne x" "rne x \<le> \<lfloor>x\<rfloor> + 1"
  by (auto simp: rne_def Let_def)

lemma rne_mono: "x \<le> y \<Longrightarrow> rne x \<le> rne y"
proof -
  assume le: "x \<le> y"
  then have fl: "\<lfloor>x\<rfloor> \<le> \<lfloor>y\<rfloor>" by (rule floor_mono)
  show ?thesis
  proof (cases "\<lfloor>x\<rfloor> = \<lfloor>y\<rfloor>")
    case True
    with le show ?thesis by (auto simp: rne_def Let_def)
  next
    case False
    with fl rne_floor(2) [of x] rne_floor(1) [of y] show ?thesis by linarith
  qed
qed

lemma rne_error: "\<bar>of_int (rne x) - x\<bar> \<le> 1 / 2"
proof -
  have "of_int \<lfloor>x\<rfloor> \<le> x" "x < of_int \<lfloor>x\<rfloor> + 1" by linarith+
  then show ?thesis by (auto simp: rne_def Let_def abs_le_iff)
qed

lemma rne_uminus [simp]: "rne (- x) = - rne x"
proof (cases "x = of_int \<lfloor>x\<rfloor>")
  case True
  then have "rne (- x) = rne (of_int (- \<lfloor>x\<rfloor>))" by simp
  also have "\<dots> = - rne (of_int \<lfloor>x\<rfloor>)" by (simp only: rne_of_int)
  also have "\<dots> = - rne x" using True by simp
  finally show ?thesis .
next
  case False
  have "of_int \<lfloor>x\<rfloor> \<le> x" "x < of_int \<lfloor>x\<rfloor> + 1" by linarith+
  with False have "of_int \<lfloor>x\<rfloor> < x" by linarith
  with \<open>x < of_int \<lfloor>x\<rfloor> + 1\<close> have fl: "\<lfloor>- x\<rfloor> = - \<lfloor>x\<rfloor> - 1"
    by (intro floor_unique) simp_all
  show ?thesis by (auto simp: rne_def Let_def fl)
qed

lemma rne_nonneg: "0 \<le> x \<Longrightarrow> 0 \<le> rne x"
  using rne_mono [of 0 x] rne_of_int [of 0] by simp

lemma of_int_le_rne: "of_int n \<le> x \<Longrightarrow> n \<le> rne x"
  using rne_mono [of "of_int n" x] by simp

lemma rne_le_of_int: "x \<le> of_int n \<Longrightarrow> rne x \<le> n"
  using rne_mono [of x "of_int n"] by simp

section \<open>The binary exponent of a positive rational\<close>

definition ilog2 :: "rat \<Rightarrow> int" where
  "ilog2 x = (case quotient_of x of (n, d) \<Rightarrow>
     let k = bitlen n - bitlen d in if 2 powi k \<le> x then k else k - 1)"

lemma powi_2_pos [simp]: "(0::rat) < 2 powi k"
  by (rule zero_less_power_int) simp

lemma powi_2_le_iff [simp]: "(2::rat) powi i \<le> 2 powi j \<longleftrightarrow> i \<le> j"
proof (cases "i \<le> j")
  case True
  then show ?thesis by (simp add: power_int_increasing)
next
  case False
  then have "(2::rat) powi j < 2 powi i" by (intro power_int_strict_increasing) auto
  with False show ?thesis by simp
qed

lemma powi_2_less_iff [simp]: "(2::rat) powi i < 2 powi j \<longleftrightarrow> i < j"
  by (simp add: not_le [symmetric])

lemma powi_2_diff: "(2::rat) powi (i - j) = 2 powi i / 2 powi j"
  by (simp add: power_int_diff)

lemma powi_2_int: "0 \<le> k \<Longrightarrow> (2::rat) powi k = of_int (2 ^ nat k)"
  by (simp add: power_int_def)


lemma ilog2_bounds:
  assumes "0 < x"
  shows "2 powi ilog2 x \<le> x \<and> x < 2 powi (ilog2 x + 1)"
proof -
  obtain n d where q: "quotient_of x = (n, d)" by (cases "quotient_of x")
  then have d: "0 < d" and x: "x = of_int n / of_int d"
    by (auto dest: quotient_of_denom_pos quotient_of_div)
  with assms have n: "0 < n" by (simp add: zero_less_divide_iff)
  let ?k = "bitlen n - bitlen d"
  have len: "(2::rat) powi (bitlen m - 1) \<le> of_int m" "of_int m < (2::rat) powi bitlen m"
    if "0 < m" for m :: int
  proof -
    have "1 \<le> bitlen m" using that bitlen_eq_zero_iff [of m] bitlen_nonneg [of m] by linarith
    moreover have "of_int (2 ^ nat (bitlen m - 1)) \<le> (of_int m :: rat)"
      "(of_int m :: rat) < of_int (2 ^ nat (bitlen m))"
      using bitlen_bounds [OF that] by (simp_all only: of_int_le_iff of_int_less_iff)
    ultimately show "(2::rat) powi (bitlen m - 1) \<le> of_int m" "of_int m < (2::rat) powi bitlen m"
      by (simp_all add: powi_2_int)
  qed
  have "of_int n / of_int d < (2::rat) powi bitlen n / 2 powi (bitlen d - 1)"
    using len(2) [OF n] len(1) [OF d] n d by (intro frac_less) auto
  also have "\<dots> = 2 powi (bitlen n - (bitlen d - 1))" by (simp add: powi_2_diff)
  also have "bitlen n - (bitlen d - 1) = ?k + 1" by simp
  finally have up: "x < 2 powi (?k + 1)" by (simp add: x)
  have "2 powi (?k - 1) = (2::rat) powi ((bitlen n - 1) - bitlen d)"
    by (simp add: algebra_simps)
  also have "\<dots> = (2::rat) powi (bitlen n - 1) / 2 powi bitlen d"
    by (rule powi_2_diff)
  also have "\<dots> \<le> of_int n / of_int d"
    using len(1) [OF n] less_imp_le [OF len(2) [OF d]] n d by (intro frac_le) auto
  finally have low: "2 powi (?k - 1) \<le> x" by (simp add: x)
  from up low show ?thesis by (auto simp: ilog2_def q Let_def)
qed

lemma ilog2_unique: "2 powi k \<le> x \<Longrightarrow> x < 2 powi (k + 1) \<Longrightarrow> ilog2 x = k"
proof -
  assume k: "2 powi k \<le> x" "x < 2 powi (k + 1)"
  have "0 < x" using k(1) powi_2_pos [of k] by linarith
  note b = ilog2_bounds [OF this]
  have "(2::rat) powi k < 2 powi (ilog2 x + 1)" "(2::rat) powi ilog2 x < 2 powi (k + 1)"
    using b k by linarith+
  then show ?thesis by simp
qed

lemma ilog2_mono: "0 < x \<Longrightarrow> x \<le> y \<Longrightarrow> ilog2 x \<le> ilog2 y"
proof -
  assume "0 < x" "x \<le> y"
  then have "(2::rat) powi ilog2 x < 2 powi (ilog2 y + 1)"
    using ilog2_bounds [of x] ilog2_bounds [of y] by linarith
  then show ?thesis by simp
qed

section \<open>Rounding to a binary format\<close>

text \<open>\<open>p\<close> significant bits, no number finer than \<open>2 powi emin\<close>. The result is a multiple of the
  quantum, the weight of the last bit at the argument's magnitude.\<close>

definition quantum_exp :: "int \<Rightarrow> int \<Rightarrow> rat \<Rightarrow> int" where
  "quantum_exp p emin x = max (ilog2 \<bar>x\<bar> - (p - 1)) emin"

definition fround :: "int \<Rightarrow> int \<Rightarrow> rat \<Rightarrow> rat" where
  "fround p emin x =
     (if x = 0 then 0
      else let q = 2 powi quantum_exp p emin x in of_int (rne (x / q)) * q)"

lemma fround_0 [simp]: "fround p emin 0 = 0"
  by (simp add: fround_def)

lemma fround_uminus [simp]: "fround p emin (- x) = - fround p emin x"
  by (simp add: fround_def quantum_exp_def Let_def)

lemma fround_nonneg: "0 \<le> x \<Longrightarrow> 0 \<le> fround p emin x"
  by (auto simp: fround_def Let_def rne_nonneg zero_le_mult_iff)

text \<open>A multiple of a quantum at most the argument's is never passed by the rounding.\<close>

lemma fround_ge_grid:
  assumes "x \<noteq> 0" "quantum_exp p emin x \<le> e" "of_int m * 2 powi e \<le> x"
  shows "of_int m * 2 powi e \<le> fround p emin x"
proof -
  let ?k = "quantum_exp p emin x" and ?q = "(2::rat) powi quantum_exp p emin x"
  have e: "(2::rat) powi e = of_int (2 ^ nat (e - ?k)) * ?q"
    using assms(2) powi_2_int [of "e - ?k"] by (simp add: powi_2_diff field_simps)
  have "of_int (m * 2 ^ nat (e - ?k)) = of_int m * 2 powi e / ?q"
    by (simp add: e)
  also have "\<dots> \<le> x / ?q" using assms(3) by (intro divide_right_mono) auto
  finally have "m * 2 ^ nat (e - ?k) \<le> rne (x / ?q)" by (rule of_int_le_rne)
  then have "(of_int (m * 2 ^ nat (e - ?k)) :: rat) * ?q \<le> of_int (rne (x / ?q)) * ?q"
    by (intro mult_right_mono) (simp_all only: of_int_le_iff powi_2_pos less_imp_le)
  then show ?thesis using assms(1) by (simp add: fround_def Let_def e mult.assoc)
qed

lemma fround_le_grid:
  assumes "x \<noteq> 0" "quantum_exp p emin x \<le> e" "x \<le> of_int m * 2 powi e"
  shows "fround p emin x \<le> of_int m * 2 powi e"
  using fround_ge_grid [of "- x" p emin e "- m"] assms by (simp add: quantum_exp_def)

lemma fround_mono_pos:
  assumes "1 \<le> p" "0 < x" "x \<le> y"
  shows "fround p emin x \<le> fround p emin y"
proof (cases "quantum_exp p emin x = quantum_exp p emin y")
  case True
  with assms show ?thesis
    by (auto simp: fround_def Let_def rne_mono divide_right_mono intro!: mult_right_mono)
next
  case False
  have y: "0 < y" using assms by simp
  let ?b = "ilog2 y"
  have log: "ilog2 x \<le> ?b" using assms(2,3) by (rule ilog2_mono)
  with False assms y have "quantum_exp p emin x < quantum_exp p emin y"
    by (auto simp: quantum_exp_def max_def split: if_splits)
  then have qy: "quantum_exp p emin y = ?b - (p - 1)" and lt: "ilog2 x < ?b"
    and qx: "quantum_exp p emin x < ?b - (p - 1)"
    using assms y by (auto simp: quantum_exp_def max_def split: if_splits)
  have x_le: "x \<le> of_int 1 * 2 powi ?b"
  proof -
    have "x \<le> 2 powi (ilog2 x + 1)" using ilog2_bounds [OF assms(2)] by simp
    also have "\<dots> \<le> 2 powi ?b" using lt by (simp only: powi_2_le_iff)
    finally show ?thesis by simp
  qed
  have le_y: "of_int 1 * 2 powi ?b \<le> y" using ilog2_bounds [OF y] by simp
  have "fround p emin x \<le> of_int 1 * 2 powi ?b"
    using assms qx x_le by (intro fround_le_grid) auto
  also have "\<dots> \<le> fround p emin y"
    using y qy le_y assms(1) by (intro fround_ge_grid) auto
  finally show ?thesis .
qed


lemma fround_nonpos: "x \<le> 0 \<Longrightarrow> fround p emin x \<le> 0"
  using fround_nonneg [of "- x" p emin] by simp

lemma fround_mono:
  assumes "1 \<le> p" "x \<le> y"
  shows "fround p emin x \<le> fround p emin y"
proof -
  consider "0 < x" | "y < 0" | "x \<le> 0" "0 \<le> y" by linarith
  then show ?thesis
  proof cases
    case 1
    with assms show ?thesis by (intro fround_mono_pos)
  next
    case 2
    with assms fround_mono_pos [of p "- y" "- x" emin] show ?thesis by simp
  next
    case 3
    then show ?thesis using fround_nonpos [of x p emin] fround_nonneg [of y p emin] by linarith
  qed
qed

subsection \<open>Numbers of the format\<close>

text \<open>A number of the format is a multiple of a power of two with at most \<open>p\<close> significant bits.\<close>

definition representable :: "int \<Rightarrow> int \<Rightarrow> rat \<Rightarrow> bool" where
  "representable p emin x \<longleftrightarrow> (\<exists>m e. x = of_int m * 2 powi e \<and> \<bar>m\<bar> \<le> 2 ^ nat p \<and> emin \<le> e)"

lemma quantum_exp_le:
  assumes "1 \<le> p" "x = of_int m * 2 powi e" "\<bar>m\<bar> < 2 ^ nat p" "emin \<le> e" "x \<noteq> 0"
  shows "quantum_exp p emin x \<le> e"
proof -
  have "\<bar>x\<bar> = of_int \<bar>m\<bar> * 2 powi e" by (simp add: assms(2) abs_mult)
  also have "\<dots> < of_int (2 ^ nat p) * 2 powi e"
    using assms(3) by (intro mult_strict_right_mono) (simp_all only: of_int_less_iff powi_2_pos)
  also have "\<dots> = 2 powi (p + e)"
    using assms(1) powi_2_int [of p] by (simp add: power_int_add)
  finally have "\<bar>x\<bar> < 2 powi (p + e)" .
  moreover have "2 powi ilog2 \<bar>x\<bar> \<le> \<bar>x\<bar>" using assms(5) ilog2_bounds [of "\<bar>x\<bar>"] by simp
  ultimately have "(2::rat) powi ilog2 \<bar>x\<bar> < 2 powi (p + e)" by linarith
  with assms(4) show ?thesis by (simp add: quantum_exp_def)
qed

lemma fround_exact:
  assumes "1 \<le> p" "x = of_int m * 2 powi e" "\<bar>m\<bar> < 2 ^ nat p" "emin \<le> e"
  shows "fround p emin x = x"
proof (cases "x = 0")
  case False
  note q = quantum_exp_le [OF assms False]
  have "x \<le> of_int m * 2 powi e" "of_int m * 2 powi e \<le> x" using assms(2) by simp_all
  from fround_le_grid [OF False q this(1)] fround_ge_grid [OF False q this(2)] assms(2)
  show ?thesis by simp
qed simp

lemma fround_repr:
  assumes "1 \<le> p" "representable p emin x"
  shows "fround p emin x = x"
proof -
  from assms(2) obtain m e where x: "x = of_int m * 2 powi e" "\<bar>m\<bar> \<le> 2 ^ nat p" "emin \<le> e"
    by (auto simp: representable_def)
  show ?thesis
  proof (cases "\<bar>m\<bar> = 2 ^ nat p")
    case True
    then have "m = sgn m * 2 ^ nat p" using sgn_mult_abs [of m] by simp
    then have "(of_int m :: rat) = of_int (sgn m) * of_int (2 ^ nat p)"
      by (metis of_int_mult)
    then have "x = of_int (sgn m) * 2 powi (p + e)"
      using x(1) assms(1) powi_2_int [of p] by (simp add: power_int_add)
    moreover have "\<bar>sgn m\<bar> < 2 ^ nat p" using assms(1) by (simp add: sgn_if one_less_power)
    moreover have "emin \<le> p + e" using assms(1) x(3) by simp
    ultimately show ?thesis by (rule fround_exact [OF assms(1)])
  next
    case False
    with x assms(1) show ?thesis by (intro fround_exact) auto
  qed
qed

lemma fround_of_int:
  "1 \<le> p \<Longrightarrow> emin \<le> 0 \<Longrightarrow> \<bar>n\<bar> \<le> 2 ^ nat p \<Longrightarrow> fround p emin (of_int n) = of_int n"
  by (rule fround_repr, assumption, unfold representable_def,
      rule exI [of _ n], rule exI [of _ 0], simp)

text \<open>Rounding gives a number of the format, and moves its argument by half a quantum at most.\<close>

lemma fround_representable:
  assumes "1 \<le> p"
  shows "representable p emin (fround p emin x)"
proof (cases "x = 0")
  case True
  then show ?thesis by (auto simp: representable_def intro!: exI [of _ 0] exI [of _ emin])
next
  case False
  let ?k = "quantum_exp p emin x"
  let ?m = "rne (x / 2 powi ?k)"
  have "\<bar>x\<bar> < 2 powi (ilog2 \<bar>x\<bar> + 1)" using False ilog2_bounds [of "\<bar>x\<bar>"] by simp
  also have "\<dots> \<le> 2 powi (p + ?k)" by (simp add: quantum_exp_def)
  also have "\<dots> = of_int (2 ^ nat p) * 2 powi ?k"
    using assms powi_2_int [of p] by (simp add: power_int_add)
  finally have "\<bar>x / 2 powi ?k\<bar> \<le> of_int (2 ^ nat p)"
    by (simp add: abs_divide divide_le_eq)
  then have "x / 2 powi ?k \<le> of_int (2 ^ nat p)" "of_int (- (2 ^ nat p)) \<le> x / 2 powi ?k"
    by (simp_all only: abs_le_iff of_int_minus) linarith+
  then have "?m \<le> 2 ^ nat p" "- (2 ^ nat p) \<le> ?m"
    by (auto intro: rne_le_of_int of_int_le_rne simp del: of_int_minus)
  moreover have "emin \<le> ?k" by (simp add: quantum_exp_def)
  ultimately show ?thesis using False
    unfolding representable_def
    by (intro exI [of _ ?m] exI [of _ ?k]) (auto simp: fround_def Let_def abs_le_iff)
qed

lemma fround_idem [simp]: "1 \<le> p \<Longrightarrow> fround p emin (fround p emin x) = fround p emin x"
  by (intro fround_repr fround_representable)

lemma fround_error: "x \<noteq> 0 \<Longrightarrow> \<bar>fround p emin x - x\<bar> \<le> 2 powi quantum_exp p emin x / 2"
proof -
  assume x: "x \<noteq> 0"
  let ?q = "(2::rat) powi quantum_exp p emin x"
  have "fround p emin x - x = (of_int (rne (x / ?q)) - x / ?q) * ?q"
    using x by (simp add: fround_def Let_def left_diff_distrib)
  then have "\<bar>fround p emin x - x\<bar> = \<bar>of_int (rne (x / ?q)) - x / ?q\<bar> * ?q"
    by (simp add: abs_mult)
  also have "\<dots> \<le> 1 / 2 * ?q" by (intro mult_right_mono rne_error) simp
  finally show ?thesis by simp
qed

lemma le_fround_repr: "1 \<le> p \<Longrightarrow> representable p emin a \<Longrightarrow> a \<le> x \<Longrightarrow> a \<le> fround p emin x"
  using fround_mono [of p a x emin] fround_repr [of p emin a] by simp

lemma fround_le_repr: "1 \<le> p \<Longrightarrow> representable p emin a \<Longrightarrow> x \<le> a \<Longrightarrow> fround p emin x \<le> a"
  using fround_mono [of p x a emin] fround_repr [of p emin a] by simp


section \<open>Evaluation\<close>

text \<open>Rounding on the numerator and denominator, so that evaluating it stays in the integers.\<close>

definition rne_div :: "int \<Rightarrow> int \<Rightarrow> int" where
  "rne_div n d = (let f = n div d; r = 2 * (n mod d) in if r < d \<or> r = d \<and> even f then f else f + 1)"

lemma rne_div: "0 < d \<Longrightarrow> rne (of_int n / of_int d) = rne_div n d"
proof -
  assume d: "0 < d"
  have fl: "\<lfloor>of_int n / of_int d :: rat\<rfloor> = n div d" by (rule floor_divide_of_int_eq)
  have "of_int n = (of_int (n div d) * of_int d + of_int (n mod d) :: rat)"
    by (metis div_mult_mod_eq of_int_add of_int_mult)
  then have r: "of_int n / of_int d - of_int (n div d) = (of_int (n mod d) / of_int d :: rat)"
    using d by (simp add: field_simps)
  have lt: "(of_int (n mod d) / of_int d < (1 / 2 :: rat)) = (2 * (n mod d) < d)"
  proof -
    have "(of_int (n mod d) / of_int d < (1 / 2 :: rat)) = (of_int (2 * (n mod d)) < (of_int d :: rat))"
      using d by (simp add: field_simps)
    then show ?thesis by (simp only: of_int_less_iff)
  qed
  have eq: "(of_int (n mod d) / of_int d = (1 / 2 :: rat)) = (2 * (n mod d) = d)"
  proof -
    have "(of_int (n mod d) / of_int d = (1 / 2 :: rat)) = (of_int (2 * (n mod d)) = (of_int d :: rat))"
      using d by (auto simp: field_simps)
    then show ?thesis by (simp only: of_int_eq_iff)
  qed
  show ?thesis unfolding rne_def rne_div_def Let_def fl r lt eq ..
qed

lemma two_powi: "(2::rat) powi k = (if 0 \<le> k then of_int (2 ^ nat k) else 1 / of_int (2 ^ nat (- k)))"
  by (simp add: power_int_def divide_simps)

definition scaled :: "int \<Rightarrow> int \<Rightarrow> int \<Rightarrow> int \<times> int" where
  "scaled n d k = (if 0 \<le> k then (n, d * 2 ^ nat k) else (n * 2 ^ nat (- k), d))"

lemma scaled: "scaled n d k = (a, b) \<Longrightarrow> of_int n / of_int d / 2 powi k = (of_int a / of_int b :: rat)"
  by (auto simp: scaled_def two_powi field_simps split: if_splits)

lemma scaled_pos: "scaled n d k = (a, b) \<Longrightarrow> 0 < d \<Longrightarrow> 0 < b"
  by (auto simp: scaled_def split: if_splits)

lemma ilog2_code [code]:
  "ilog2 x = (case quotient_of x of (n, d) \<Rightarrow> let k = bitlen n - bitlen d in case scaled n d k of (a, b) \<Rightarrow> if b \<le> a then k else k - 1)"
proof -
  obtain n d where q: "quotient_of x = (n, d)" by (cases "quotient_of x")
  then have d: "0 < d" and x: "x = of_int n / of_int d"
    by (auto dest: quotient_of_denom_pos quotient_of_div)
  let ?k = "bitlen n - bitlen d"
  obtain a b where s: "scaled n d ?k = (a, b)" by fastforce
  have b: "0 < b" by (rule scaled_pos [OF s d])
  have "(2 powi ?k \<le> x) = (1 \<le> x / 2 powi ?k)" by (simp add: le_divide_eq)
  also have "\<dots> = (b \<le> a)" unfolding x scaled [OF s] using b by (simp add: le_divide_eq)
  finally show ?thesis by (simp add: ilog2_def q s)
qed

lemma fround_code [code]:
  "fround p emin x = (if x = 0 then 0 else case quotient_of x of (n, d) \<Rightarrow>
     let k = quantum_exp p emin x in case scaled n d k of (a, b) \<Rightarrow>
       if 0 \<le> k then of_int (rne_div a b * 2 ^ nat k) else of_int (rne_div a b) / of_int (2 ^ nat (- k)))"
proof -
  obtain n d where q: "quotient_of x = (n, d)" by (cases "quotient_of x")
  then have d: "0 < d" and x: "x = of_int n / of_int d"
    by (auto dest: quotient_of_denom_pos quotient_of_div)
  obtain a b where s: "scaled n d (quantum_exp p emin x) = (a, b)" by fastforce
  have "rne (x / 2 powi quantum_exp p emin x) = rne_div a b"
    unfolding x scaled [OF s [unfolded x]] by (rule rne_div) (rule scaled_pos [OF s d])
  then show ?thesis by (simp add: fround_def q s Let_def two_powi)
qed

section \<open>binary64 and binary32\<close>

type_synonym f64 = rat
type_synonym f32 = rat

definition r64 :: "rat \<Rightarrow> f64" where "r64 x = fround 53 (- 1074) x"
definition r32 :: "rat \<Rightarrow> f32" where "r32 x = fround 24 (- 149) x"

definition is_f64 :: "rat \<Rightarrow> bool" where "is_f64 x \<longleftrightarrow> r64 x = x"
definition is_f32 :: "rat \<Rightarrow> bool" where "is_f32 x \<longleftrightarrow> r32 x = x"

text \<open>The arithmetic of both formats: the exact result, rounded once.\<close>

definition add64 :: "f64 \<Rightarrow> f64 \<Rightarrow> f64" where "add64 x y = r64 (x + y)"
definition sub64 :: "f64 \<Rightarrow> f64 \<Rightarrow> f64" where "sub64 x y = r64 (x - y)"
definition mul64 :: "f64 \<Rightarrow> f64 \<Rightarrow> f64" where "mul64 x y = r64 (x * y)"
definition div64 :: "f64 \<Rightarrow> f64 \<Rightarrow> f64" where "div64 x y = r64 (x / y)"
definition add32 :: "f32 \<Rightarrow> f32 \<Rightarrow> f32" where "add32 x y = r32 (x + y)"
definition sub32 :: "f32 \<Rightarrow> f32 \<Rightarrow> f32" where "sub32 x y = r32 (x - y)"
definition mul32 :: "f32 \<Rightarrow> f32 \<Rightarrow> f32" where "mul32 x y = r32 (x * y)"

lemmas f64_ops = add64_def sub64_def mul64_def div64_def
lemmas f32_ops = add32_def sub32_def mul32_def

lemma r64_0 [simp]: "r64 0 = 0" and r32_0 [simp]: "r32 0 = 0"
  by (simp_all add: r64_def r32_def)

lemma r64_mono: "x \<le> y \<Longrightarrow> r64 x \<le> r64 y" and r32_mono: "x \<le> y \<Longrightarrow> r32 x \<le> r32 y"
  by (simp_all add: r64_def r32_def fround_mono)

lemma r64_nonneg: "0 \<le> x \<Longrightarrow> 0 \<le> r64 x" and r32_nonneg: "0 \<le> x \<Longrightarrow> 0 \<le> r32 x"
  by (simp_all add: r64_def r32_def fround_nonneg)

lemma r64_uminus [simp]: "r64 (- x) = - r64 x" and r32_uminus [simp]: "r32 (- x) = - r32 x"
  by (simp_all add: r64_def r32_def)

lemma r64_idem [simp]: "r64 (r64 x) = r64 x" and r32_idem [simp]: "r32 (r32 x) = r32 x"
  by (simp_all add: r64_def r32_def)

lemma is_f64_r64 [simp, intro]: "is_f64 (r64 x)" and is_f32_r32 [simp, intro]: "is_f32 (r32 x)"
  by (simp_all add: is_f64_def is_f32_def)

lemma r64_of_int: "\<bar>n\<bar> \<le> 2 ^ 53 \<Longrightarrow> r64 (of_int n) = of_int n"
  by (simp add: r64_def fround_of_int)

lemma is_f64_of_int: "\<bar>n\<bar> \<le> 2 ^ 53 \<Longrightarrow> is_f64 (of_int n)"
  by (simp add: is_f64_def r64_of_int)

lemma is_f64_repr: "is_f64 x \<longleftrightarrow> representable 53 (- 1074) x"
  using fround_representable [of 53 "- 1074" x] fround_repr [of 53 "- 1074" x]
  by (auto simp: is_f64_def r64_def)

lemma is_f32_repr: "is_f32 x \<longleftrightarrow> representable 24 (- 149) x"
  using fround_representable [of 24 "- 149" x] fround_repr [of 24 "- 149" x]
  by (auto simp: is_f32_def r32_def)

text \<open>Every binary32 number is a binary64 number.\<close>

lemma is_f64_of_f32: "is_f32 x \<Longrightarrow> is_f64 x"
proof -
  assume "is_f32 x"
  then obtain m e where "x = of_int m * 2 powi e" "\<bar>m\<bar> \<le> 2 ^ 24" "- 149 \<le> e"
    by (auto simp: is_f32_repr representable_def)
  then show ?thesis
    unfolding is_f64_repr representable_def by (intro exI [of _ m] exI [of _ e]) auto
qed

lemma le_r64: "is_f64 a \<Longrightarrow> a \<le> x \<Longrightarrow> a \<le> r64 x"
  using r64_mono [of a x] by (simp add: is_f64_def)

lemma r64_le: "is_f64 a \<Longrightarrow> x \<le> a \<Longrightarrow> r64 x \<le> a"
  using r64_mono [of x a] by (simp add: is_f64_def)

lemma le_r32: "is_f32 a \<Longrightarrow> a \<le> x \<Longrightarrow> a \<le> r32 x"
  using r32_mono [of a x] by (simp add: is_f32_def)

lemma r32_le: "is_f32 a \<Longrightarrow> x \<le> a \<Longrightarrow> r32 x \<le> a"
  using r32_mono [of x a] by (simp add: is_f32_def)

lemma mul64_mono: "0 \<le> x \<Longrightarrow> x \<le> x' \<Longrightarrow> 0 \<le> y \<Longrightarrow> y \<le> y' \<Longrightarrow> mul64 x y \<le> mul64 x' y'"
  by (auto simp: mul64_def intro!: r64_mono mult_mono)

lemma mul64_nonneg: "0 \<le> x \<Longrightarrow> 0 \<le> y \<Longrightarrow> 0 \<le> mul64 x y"
  by (simp add: mul64_def r64_nonneg)

lemma add64_mono: "x \<le> x' \<Longrightarrow> y \<le> y' \<Longrightarrow> add64 x y \<le> add64 x' y'"
  by (auto simp: add64_def intro!: r64_mono)

text \<open>Scaling a float up by a factor of at least one never lowers it, whatever the rounding.\<close>

lemma mul64_ge: "is_f64 x \<Longrightarrow> 0 \<le> x \<Longrightarrow> 1 \<le> y \<Longrightarrow> x \<le> mul64 x y"
  by (auto simp: mul64_def intro!: le_r64 mult_right_le_one_le dest: mult_left_mono [of 1 y x])

lemma is_f64_ops [simp, intro]:
  "is_f64 (add64 x y)" "is_f64 (sub64 x y)" "is_f64 (mul64 x y)" "is_f64 (div64 x y)"
  by (simp_all add: f64_ops)

lemma is_f64_dyadic: "\<bar>n\<bar> \<le> 2 ^ 53 \<Longrightarrow> k \<le> 1074 \<Longrightarrow> is_f64 (of_int n / 2 ^ k)"
  unfolding is_f64_repr representable_def
  by (intro exI [of _ n] exI [of _ "- int k"]) (simp add: power_int_minus field_simps)

lemma r64_dyadic: "\<bar>n\<bar> \<le> 2 ^ 53 \<Longrightarrow> k \<le> 1074 \<Longrightarrow> r64 (of_int n / 2 ^ k) = of_int n / 2 ^ k"
  using is_f64_dyadic by (simp add: is_f64_def)

text \<open>The absolute error of a rounded result of magnitude \<open>2 ^ k\<close> at most.\<close>

lemma r64_error_abs:
  assumes "\<bar>x\<bar> \<le> 2 powi k" "- 1022 \<le> k"
  shows "\<bar>r64 x - x\<bar> \<le> 2 powi (k - 53)"
proof (cases "x = 0")
  case False
  have "2 powi ilog2 \<bar>x\<bar> \<le> \<bar>x\<bar>" using ilog2_bounds [of "\<bar>x\<bar>"] False by simp
  then have "(2::rat) powi ilog2 \<bar>x\<bar> \<le> 2 powi k" using assms(1) by (rule order_trans)
  then have "ilog2 \<bar>x\<bar> \<le> k" by (simp only: powi_2_le_iff)
  then have q: "quantum_exp 53 (- 1074) x \<le> k - 52" using assms(2) by (simp add: quantum_exp_def)
  have "\<bar>r64 x - x\<bar> \<le> 2 powi quantum_exp 53 (- 1074) x / 2"
    using fround_error [OF False, of 53 "- 1074"] by (simp add: r64_def)
  also have "\<dots> \<le> 2 powi (k - 52) / 2"
    using q by (intro divide_right_mono) (simp_all only: powi_2_le_iff)
  also have "\<dots> = 2 powi (k - 53)" by (simp add: powi_2_diff)
  finally show ?thesis .
qed simp

text \<open>True division of two integers, floored: for a numerator below \<open>2 ^ 53\<close> the rounding of the
  quotient never reaches the next integer, so the result is the integer quotient.\<close>

lemma r64_error: "2 powi (- 1022) \<le> \<bar>x\<bar> \<Longrightarrow> \<bar>r64 x - x\<bar> \<le> \<bar>x\<bar> * 2 powi (- 53)"
proof -
  assume x: "2 powi (- 1022) \<le> \<bar>x\<bar>"
  then have x0: "x \<noteq> 0" using powi_2_pos [of "- 1022"] by auto
  note b = ilog2_bounds [of "\<bar>x\<bar>"]
  have "(2::rat) powi (- 1022) < 2 powi (ilog2 \<bar>x\<bar> + 1)" using x x0 b by linarith
  then have "- 1022 < ilog2 \<bar>x\<bar> + 1" by (simp only: powi_2_less_iff)
  then have "- 1074 \<le> ilog2 \<bar>x\<bar> - 52" by simp
  then have q: "quantum_exp 53 (- 1074) x = ilog2 \<bar>x\<bar> - 52" by (simp add: quantum_exp_def)
  have "\<bar>r64 x - x\<bar> \<le> 2 powi (ilog2 \<bar>x\<bar> - 52) / 2"
    using fround_error [OF x0, of 53 "- 1074"] by (simp add: r64_def q)
  also have "\<dots> = 2 powi ilog2 \<bar>x\<bar> * 2 powi (- 53)"
    by (simp add: powi_2_diff power_int_minus)
  also have "\<dots> \<le> \<bar>x\<bar> * 2 powi (- 53)"
    using b x0 by (intro mult_right_mono) auto
  finally show ?thesis .
qed

lemma floor_r64_div:
  assumes "0 \<le> n" "n < 2 ^ 53" "0 < d" "d \<le> 2 ^ 53"
  shows "\<lfloor>r64 (of_int n / of_int d)\<rfloor> = n div d"
proof (cases "n = 0")
  case False
  let ?x = "of_int n / of_int d :: rat" and ?q = "n div d"
  have x: "of_int ?q \<le> ?x" "?x \<le> of_int ?q + 1 - 1 / of_int d"
  proof -
    have nd: "n = ?q * d + n mod d" "0 \<le> n mod d" "n mod d \<le> d - 1"
      using assms by (simp_all add: pos_mod_sign zle_diff1_eq)
    from nd(2) have "?q * d \<le> n" using nd(1) by linarith
    then have "(of_int (?q * d) :: rat) \<le> of_int n" by (simp only: of_int_le_iff)
    then show "of_int ?q \<le> ?x" using assms by (simp add: le_divide_eq)
    from nd(1,3) have "n \<le> ?q * d + d - 1" by linarith
    then have "(of_int n :: rat) \<le> of_int (?q * d + d - 1)" by (simp only: of_int_le_iff)
    then show "?x \<le> of_int ?q + 1 - 1 / of_int d" using assms by (simp add: field_simps)
  qed
  have "?q \<le> n" using assms zdiv_mono2 [of n 1 d] by simp
  then have "of_int ?q \<le> r64 ?x"
    using assms x(1) by (intro le_r64 is_f64_of_int) (auto simp: pos_imp_zdiv_nonneg_iff)
  moreover have "r64 ?x < of_int ?q + 1"
  proof -
    have "(2::rat) powi (- 1022) \<le> 2 powi (- 53)" by simp
    also have "\<dots> = 1 / 2 ^ 53" by (simp add: power_int_minus)
    also have "\<dots> \<le> of_int n / of_int d"
    proof (intro frac_le)
      have "(of_int d :: rat) \<le> of_int (2 ^ 53)" using assms(4) by (simp only: of_int_le_iff)
      then show "(of_int d :: rat) \<le> 2 ^ 53" by simp
    qed (use assms False in auto)
    finally have "\<bar>r64 ?x - ?x\<bar> \<le> ?x * 2 powi (- 53)"
      using r64_error [of ?x] assms by simp
    also have "\<dots> = of_int n / 2 ^ 53 * (1 / of_int d)" by (simp add: power_int_minus)
    also have "\<dots> < 1 * (1 / of_int d)"
      using assms by (intro mult_strict_right_mono) (simp_all add: divide_less_eq)
    finally show ?thesis using x(2) by linarith
  qed
  ultimately show ?thesis by linarith
qed simp

section \<open>Square roots\<close>

text \<open>\<open>isqrt_go k n r\<close> settles the \<open>k\<close> low bits of the integer square root of \<open>n\<close>, most
  significant first; \<open>sqrt64\<close> is the correctly rounded root of a binary64 number (IEEE requires
  it), read off the integer root of the argument scaled to at least 106 bits.\<close>

fun isqrt_go :: "nat \<Rightarrow> int \<Rightarrow> int \<Rightarrow> int" where
  "isqrt_go 0 n r = r"
| "isqrt_go (Suc k) n r = (let c = r + 2 ^ k in isqrt_go k n (if c * c \<le> n then c else r))"

definition isqrt :: "int \<Rightarrow> int" where
  "isqrt n = isqrt_go (nat (bitlen n)) n 0"

lemma isqrt_go_bounds:
  "0 \<le> r \<Longrightarrow> r * r \<le> n \<Longrightarrow> n < (r + 2 ^ k) * (r + 2 ^ k) \<Longrightarrow>
     0 \<le> isqrt_go k n r \<and> isqrt_go k n r * isqrt_go k n r \<le> n
     \<and> n < (isqrt_go k n r + 1) * (isqrt_go k n r + 1)"
proof (induction k arbitrary: r)
  case (Suc k)
  show ?case
  proof (cases "(r + 2 ^ k) * (r + 2 ^ k) \<le> n")
    case True
    with Suc.prems Suc.IH [of "r + 2 ^ k"] show ?thesis by (simp add: Let_def algebra_simps)
  next
    case False
    with Suc.prems Suc.IH [of r] show ?thesis by (simp add: Let_def not_le)
  qed
qed simp

lemma isqrt_go_ge: "r \<le> isqrt_go k n r"
proof (induction k arbitrary: r)
  case (Suc k)
  have "r \<le> r + 2 ^ k" by simp
  also have "\<dots> \<le> isqrt_go k n (r + 2 ^ k)" by (rule Suc.IH)
  finally show ?case using Suc.IH [of r] by (simp add: Let_def)
qed simp

lemma isqrt_nonneg: "0 \<le> n \<Longrightarrow> 0 \<le> isqrt n"
  by (simp add: isqrt_def isqrt_go_ge)

lemma isqrt_bounds: "0 \<le> n \<Longrightarrow> isqrt n * isqrt n \<le> n \<and> n < (isqrt n + 1) * (isqrt n + 1)"
proof -
  assume n: "0 \<le> n"
  have "n < 2 ^ nat (bitlen n)"
    using n bitlen_bounds [of n] by (cases "n = 0") auto
  also have "\<dots> \<le> 2 ^ nat (bitlen n) * 2 ^ nat (bitlen n)" by simp
  finally show ?thesis
    using isqrt_go_bounds [of 0 n "nat (bitlen n)"] n by (simp add: isqrt_def)
qed

definition sqrt64 :: "f64 \<Rightarrow> f64" where
  "sqrt64 x = (if x \<le> 0 then 0
     else let e = ilog2 x div 2 - 52; y = x / 2 powi (2 * e); s = isqrt \<lfloor>y\<rfloor>; h = of_int s + 1 / 2
          in r64 (of_int (if y < h * h \<or> y = h * h \<and> even s then s else s + 1) * 2 powi e))"

lemma sqrt64_nonneg: "0 \<le> sqrt64 x"
proof (cases "x \<le> 0")
  case False
  let ?y = "x / 2 powi (2 * (ilog2 x div 2 - 52))"
  have "0 \<le> \<lfloor>?y\<rfloor>" using False by simp
  then have "0 \<le> isqrt \<lfloor>?y\<rfloor>" by (rule isqrt_nonneg)
  then show ?thesis using False
    by (auto simp: sqrt64_def Let_def intro!: r64_nonneg)
qed (simp add: sqrt64_def)

section \<open>The next binary32 number below\<close>

text \<open>\<open>np.nextafter(x, -inf)\<close>: the quantum just below a positive power of two is the finer one.\<close>

definition below_exp :: "f32 \<Rightarrow> int" where
  "below_exp x = (if x = 2 powi ilog2 x then ilog2 x - 1 else ilog2 x)"

definition next_down32 :: "f32 \<Rightarrow> f32" where
  "next_down32 x =
     (if x = 0 then - (2 powi (- 149))
      else if x > 0 then x - 2 powi max (below_exp x - 23) (- 149)
      else x - 2 powi quantum_exp 24 (- 149) x)"

lemma f32_multiple:
  assumes "is_f32 v" "v \<noteq> 0" "2 powi j \<le> \<bar>v\<bar>"
  obtains n where "v = of_int n * 2 powi max (j - 23) (- 149)"
proof -
  let ?k = "quantum_exp 24 (- 149) v"
  have v: "v = of_int (rne (v / 2 powi ?k)) * 2 powi ?k"
    using assms(1,2) by (simp add: is_f32_def r32_def fround_def Let_def)
  have "0 < \<bar>v\<bar>" using assms(2) by simp
  then have "(2::rat) powi j < 2 powi (ilog2 \<bar>v\<bar> + 1)" using assms(3) ilog2_bounds [of "\<bar>v\<bar>"] by linarith
  then have le: "max (j - 23) (- 149) \<le> ?k" by (auto simp: quantum_exp_def)
  let ?d = "?k - max (j - 23) (- 149)"
  have "(2::rat) powi ?k = 2 powi ?d * 2 powi max (j - 23) (- 149)"
    by (simp add: power_int_add [symmetric])
  also have "(2::rat) powi ?d = of_int (2 ^ nat ?d)" using le by (intro powi_2_int) simp
  finally have "v = of_int (rne (v / 2 powi ?k) * 2 ^ nat ?d) * 2 powi max (j - 23) (- 149)"
    using v by (simp add: mult.assoc)
  then show thesis by (rule that)
qed

lemma f32_multiple_min:
  assumes "is_f32 v"
  obtains n where "v = of_int n * 2 powi (- 149)"
proof (cases "v = 0")
  case True
  then show thesis using that [of 0] by simp
next
  case False
  have "2 powi ilog2 \<bar>v\<bar> \<le> \<bar>v\<bar>" using False ilog2_bounds [of "\<bar>v\<bar>"] by simp
  obtain n where n: "v = of_int n * 2 powi max (ilog2 \<bar>v\<bar> - 23) (- 149)"
    by (rule f32_multiple [OF assms False \<open>2 powi ilog2 \<bar>v\<bar> \<le> \<bar>v\<bar>\<close>])
  let ?d = "max (ilog2 \<bar>v\<bar> - 23) (- 149) + 149"
  have "(2::rat) powi max (ilog2 \<bar>v\<bar> - 23) (- 149) = 2 powi (?d + (- 149))" by simp
  also have "\<dots> = 2 powi ?d * 2 powi (- 149)" by (intro power_int_add) simp
  also have "(2::rat) powi ?d = of_int (2 ^ nat ?d)" by (rule powi_2_int) simp
  finally have "2 powi max (ilog2 \<bar>v\<bar> - 23) (- 149) = of_int (2 ^ nat ?d) * (2::rat) powi (- 149)" .
  with n have "v = of_int (n * 2 ^ nat ?d) * 2 powi (- 149)" by (simp only: of_int_mult mult.assoc)
  then show thesis by (rule that)
qed

lemma below_exp_bounds: "0 < x \<Longrightarrow> 2 powi below_exp x < x \<and> x \<le> 2 powi (below_exp x + 1)"
proof -
  assume "0 < x"
  have "(2::rat) powi (ilog2 x - 1) < 2 powi ilog2 x" by simp
  then have "2 powi (ilog2 x - 1) < x" using ilog2_bounds [OF \<open>0 < x\<close>] by linarith
  then show ?thesis using ilog2_bounds [OF \<open>0 < x\<close>] by (auto simp: below_exp_def less_le)
qed

lemma multiple_step: "of_int n * q < of_int m * q \<Longrightarrow> 0 < q \<Longrightarrow> of_int n * q \<le> of_int m * q - (q::rat)"
proof -
  assume "of_int n * q < of_int m * q" "0 < q"
  then have "n + 1 \<le> m" by (simp add: mult_less_cancel_right_pos)
  then have "of_int (n + 1) \<le> rat_of_int m" by (simp only: of_int_le_iff)
  then have "of_int (n + 1) * q \<le> of_int m * q" using \<open>0 < q\<close> by (intro mult_right_mono) simp_all
  then show ?thesis by (simp add: algebra_simps)
qed

text \<open>It is the greatest number of the format below its argument.\<close>

lemma next_down32_greatest:
  assumes "is_f32 x" "0 < x"
  shows "is_f32 (next_down32 x)" "next_down32 x < x"
    and "\<And>v. is_f32 v \<Longrightarrow> v < x \<Longrightarrow> v \<le> next_down32 x"
proof -
  define j where "j = below_exp x"
  define q where "q = (2::rat) powi max (j - 23) (- 149)"
  have j: "2 powi j < x" "x \<le> 2 powi (j + 1)" using below_exp_bounds [OF assms(2)] by (simp_all add: j_def)
  have q: "0 < q" by (simp add: q_def)
  have down: "next_down32 x = x - q" using assms(2) by (simp add: next_down32_def j_def q_def)
  show "next_down32 x < x" using q by (simp add: down)
  have "2 powi j \<le> \<bar>x\<bar>" "x \<noteq> 0" using j assms(2) by auto
  then obtain m where m: "x = of_int m * q"
    using f32_multiple [OF assms(1), of j] unfolding q_def by blast
  have "of_int m * q \<le> 2 powi (j + 1)" using j(2) m by simp
  also have "\<dots> \<le> 2 powi (24 + max (j - 23) (- 149))" by simp
  also have "\<dots> = of_int (2 ^ 24) * q" unfolding q_def by (subst power_int_add) simp_all
  finally have "m \<le> 2 ^ 24" using q by (simp only: mult_le_cancel_right_pos of_int_le_iff)
  moreover have "0 < m" using m assms(2) q by (simp add: zero_less_mult_iff)
  ultimately have "\<bar>m - 1\<bar> \<le> 2 ^ nat 24" by simp
  moreover have "x - q = of_int (m - 1) * q" by (simp add: m left_diff_distrib)
  then have "next_down32 x = of_int (m - 1) * 2 powi max (j - 23) (- 149)" unfolding down q_def .
  ultimately show "is_f32 (next_down32 x)"
    unfolding is_f32_repr representable_def by (intro exI conjI) auto
  fix v assume v: "is_f32 v" "v < x"
  show "v \<le> next_down32 x"
  proof (cases "2 powi j \<le> v \<or> j - 23 \<le> - 149")
    case True
    have "\<exists>n. v = of_int n * q"
    proof (cases "j - 23 \<le> - 149")
      case True
      then show ?thesis using f32_multiple_min [OF v(1)] by (auto simp: q_def max_def)
    next
      case False
      then have "2 powi j \<le> v" using True by simp
      moreover from this have "0 < v" using powi_2_pos [of j] by linarith
      ultimately show ?thesis using f32_multiple [OF v(1), of j] unfolding q_def by auto
    qed
    then obtain n where n: "v = of_int n * q" ..
    have "v \<le> x - q" unfolding n using multiple_step [of n q m] v(2) q by (simp only: m n)
    then show ?thesis by (simp only: down)
  next
    case False
    then have e: "max (j - 23) (- 149) = j - 23" by simp
    have "(2::rat) powi (23 + (j - 23)) = 2 powi 23 * 2 powi (j - 23)" by (rule power_int_add) simp
    then have "2 powi j = of_int (2 ^ 23) * q" by (simp add: q_def e)
    then have "2 powi j \<le> x - q" using multiple_step [of "2 ^ 23" q m] j(1) q m by simp
    then show ?thesis using False unfolding down by linarith
  qed
qed

end
