(* ===== verification/Prelude.thy ===== *)
theory Prelude
  imports Floats "HOL-Library.AList" "HOL-Library.Word"
begin

text \<open>
  What every component shares: the Python errors a function can raise and the result type that
  carries them, dictionaries as association lists in insertion order, numeric helpers of NumPy
  (clip, argmax, searchsorted), and the collections of facts the components' proofs use.
\<close>

unbundle bit_operations_syntax

named_theorems res_simps \<open>unfolding of the result type's combinators\<close>

section \<open>Errors as values\<close>

text \<open>The exceptions the modelled code raises. A message is not part of the model.\<close>

datatype py_error =
    ValueError
  | KeyError
  | IndexError
  | ZeroDivisionError
  | RuntimeError
  | OverflowError
  | TypeError
  | MemoryError
  | UnplayableTrace
  | AssertionError

type_synonym 'a res = "py_error + 'a"

definition bind_res :: "'a res \<Rightarrow> ('a \<Rightarrow> 'b res) \<Rightarrow> 'b res" where
  "bind_res r f = (case r of Inl e \<Rightarrow> Inl e | Inr x \<Rightarrow> f x)"

lemma bind_res_simps [simp, res_simps]:
  "bind_res (Inl e) f = Inl e" "bind_res (Inr x) f = f x"
  by (simp_all add: bind_res_def)

lemma bind_res_cong [fundef_cong]:
  "r = s \<Longrightarrow> (\<And>x. s = Inr x \<Longrightarrow> f x = g x) \<Longrightarrow> bind_res r f = bind_res s g"
  by (auto simp: bind_res_def split: sum.splits)

lemma bind_res_eq_Inr: "bind_res r f = Inr y \<longleftrightarrow> (\<exists>x. r = Inr x \<and> f x = Inr y)"
  by (cases r) auto

lemma bind_res_eq_Inl: "bind_res r f = Inl e \<longleftrightarrow> r = Inl e \<or> (\<exists>x. r = Inr x \<and> f x = Inl e)"
  by (cases r) auto

text \<open>A list comprehension whose body can raise, and a loop that threads a state through one.\<close>

fun map_res :: "('a \<Rightarrow> 'b res) \<Rightarrow> 'a list \<Rightarrow> 'b list res" where
  "map_res f [] = Inr []"
| "map_res f (x # xs) = bind_res (f x) (\<lambda>y. bind_res (map_res f xs) (\<lambda>ys. Inr (y # ys)))"

fun fold_res :: "('a \<Rightarrow> 's \<Rightarrow> 's res) \<Rightarrow> 'a list \<Rightarrow> 's \<Rightarrow> 's res" where
  "fold_res f [] s = Inr s"
| "fold_res f (x # xs) s = bind_res (f x s) (fold_res f xs)"

lemma map_res_Inr: "(\<And>x. x \<in> set xs \<Longrightarrow> f x = Inr (g x)) \<Longrightarrow> map_res f xs = Inr (map g xs)"
  by (induction xs) auto

lemma map_res_length: "map_res f xs = Inr ys \<Longrightarrow> length ys = length xs"
  by (induction xs arbitrary: ys) (auto simp: bind_res_eq_Inr)

lemma map_res_nth: "map_res f xs = Inr ys \<Longrightarrow> i < length xs \<Longrightarrow> f (xs ! i) = Inr (ys ! i)"
  by (induction xs arbitrary: ys i) (auto simp: bind_res_eq_Inr nth_Cons split: nat.splits)

lemma fold_res_append: "fold_res f (xs @ ys) s = bind_res (fold_res f xs s) (fold_res f ys)"
  by (induction xs arbitrary: s) (auto simp: bind_res_def split: sum.splits)

lemma fold_res_invariant:
  assumes "fold_res f xs s = Inr t" "P s"
    and "\<And>x u v. x \<in> set xs \<Longrightarrow> P u \<Longrightarrow> f x u = Inr v \<Longrightarrow> P v"
  shows "P t"
  using assms by (induction xs arbitrary: s) (auto simp: bind_res_eq_Inr)

section \<open>Dictionaries\<close>

text \<open>A Python dict keeps its keys in insertion order: an association list with distinct keys,
  where \<open>map_of\<close> looks a key up and \<open>AList.update\<close> writes it (in place when it is present, at the
  end when it is new).\<close>

type_synonym ('k, 'v) dict = "('k \<times> 'v) list"

definition wf_dict :: "('k, 'v) dict \<Rightarrow> bool" where
  "wf_dict d \<longleftrightarrow> distinct (map fst d)"

definition get_or :: "('k, 'v) dict \<Rightarrow> 'k \<Rightarrow> 'v \<Rightarrow> 'v" where
  "get_or d k v = (case map_of d k of None \<Rightarrow> v | Some w \<Rightarrow> w)"

definition lookup :: "('k, 'v) dict \<Rightarrow> 'k \<Rightarrow> 'v res" where
  "lookup d k = (case map_of d k of None \<Rightarrow> Inl KeyError | Some v \<Rightarrow> Inr v)"

text \<open>\<open>d[k] += v\<close>\<close>

definition bump :: "'k \<Rightarrow> int \<Rightarrow> ('k, int) dict \<Rightarrow> ('k, int) dict res" where
  "bump k v d = (case map_of d k of None \<Rightarrow> Inl KeyError | Some w \<Rightarrow> Inr (AList.update k (w + v) d))"

lemma wf_dict_Nil [simp]: "wf_dict []"
  by (simp add: wf_dict_def)

lemma wf_dict_update [simp]: "wf_dict d \<Longrightarrow> wf_dict (AList.update k v d)"
  by (simp add: wf_dict_def distinct_update)

lemma map_of_update [simp]: "map_of (AList.update k v d) = (map_of d)(k \<mapsto> v)"
  by (rule update_conv')

lemma get_or_update: "get_or (AList.update k v d) k' w = (if k' = k then v else get_or d k' w)"
  by (simp add: get_or_def)

lemma bump_get_or:
  "bump k v d = Inr d' \<Longrightarrow> get_or d' k' w = get_or d k' w + (if k' = k then v else 0)"
  by (auto simp: bump_def get_or_def split: option.splits)

lemma bump_dom: "bump k v d = Inr d' \<Longrightarrow> dom (map_of d') = dom (map_of d)"
  by (auto simp: bump_def insert_absorb dom_def split: option.splits if_splits)

lemma bump_wf: "bump k v d = Inr d' \<Longrightarrow> wf_dict d \<Longrightarrow> wf_dict d'"
  by (auto simp: bump_def split: option.splits)

lemma bump_total: "k \<in> dom (map_of d) \<Longrightarrow> \<exists>d'. bump k v d = Inr d'"
  by (auto simp: bump_def)

lemma bump_error: "bump k v d = Inl e \<longleftrightarrow> k \<notin> dom (map_of d) \<and> e = KeyError"
  by (auto simp: bump_def dom_def split: option.splits)

text \<open>A run of \<open>d[k] += v\<close> statements.\<close>

definition bumps :: "('k \<times> int) list \<Rightarrow> ('k, int) dict \<Rightarrow> ('k, int) dict res" where
  "bumps kvs = fold_res (\<lambda>(k, v). bump k v) kvs"

lemma bumps_simps [simp]:
  "bumps [] d = Inr d" "bumps ((k, v) # kvs) d = bind_res (bump k v d) (bumps kvs)"
  by (simp_all add: bumps_def)

lemma bumps_append: "bumps (xs @ ys) d = bind_res (bumps xs d) (bumps ys)"
  by (simp add: bumps_def fold_res_append)

lemma fold_res_bumps: "fold_res (\<lambda>x. bumps (g x)) xs d = bumps (concat (map g xs)) d"
proof (induction xs arbitrary: d)
  case (Cons x xs)
  then show ?case by (cases "bumps (g x) d") (simp_all add: bumps_append)
qed simp

definition added :: "('k \<times> int) list \<Rightarrow> 'k \<Rightarrow> int" where
  "added kvs k = (\<Sum>(k', v)\<leftarrow>kvs. if k' = k then v else 0)"

lemma added_simps [simp]:
  "added [] k = 0" "added ((k', v) # kvs) k = (if k' = k then v else 0) + added kvs k"
  "added (xs @ ys) k = added xs k + added ys k"
  by (simp_all add: added_def)

lemma bumps_get_or: "bumps kvs d = Inr d' \<Longrightarrow> get_or d' k w = get_or d k w + added kvs k"
  by (induction kvs arbitrary: d) (auto simp: bind_res_eq_Inr bump_get_or)

lemma bumps_dom: "bumps kvs d = Inr d' \<Longrightarrow> dom (map_of d') = dom (map_of d)"
proof (induction kvs arbitrary: d)
  case (Cons kv kvs)
  then show ?case by (cases kv) (fastforce simp: bind_res_eq_Inr dest: bump_dom)
qed simp

lemma bumps_wf: "bumps kvs d = Inr d' \<Longrightarrow> wf_dict d \<Longrightarrow> wf_dict d'"
proof (induction kvs arbitrary: d)
  case (Cons kv kvs)
  obtain k v where kv: "kv = (k, v)" by fastforce
  then obtain x where x: "bump k v d = Inr x" "bumps kvs x = Inr d'"
    using Cons.prems by (auto simp: bind_res_eq_Inr)
  show ?case by (rule Cons.IH [OF x(2) bump_wf [OF x(1) Cons.prems(2)]])
qed simp

lemma bumps_total: "fst ` set kvs \<subseteq> dom (map_of d) \<Longrightarrow> \<exists>d'. bumps kvs d = Inr d'"
proof (induction kvs arbitrary: d)
  case (Cons kv kvs)
  obtain k v where kv: "kv = (k, v)" by fastforce
  then obtain d' where "bump k v d = Inr d'" using Cons.prems bump_total [of k d v] by auto
  then show ?case using Cons.IH [of d'] Cons.prems bump_dom [of k v d d'] by (simp add: kv)
qed simp

lemma bumps_error:
  "bumps kvs d = Inl e \<longleftrightarrow> \<not> fst ` set kvs \<subseteq> dom (map_of d) \<and> e = KeyError"
proof (induction kvs arbitrary: d)
  case (Cons kv kvs)
  obtain k v where kv: "kv = (k, v)" by fastforce
  show ?case
  proof (cases "bump k v d")
    case (Inl e')
    then show ?thesis using bump_error [of k v d e'] by (auto simp: kv)
  next
    case (Inr d')
    then have "k \<in> dom (map_of d)" by (auto simp: bump_def split: option.splits)
    then show ?thesis using Inr Cons.IH [of d'] bump_dom [OF Inr] by (simp add: kv)
  qed
qed simp

section \<open>Numeric helpers\<close>

text \<open>\<open>max(lo, min(x, hi))\<close>, the clamp the code writes for stat rows.\<close>

definition clamp :: "int \<Rightarrow> int \<Rightarrow> int \<Rightarrow> int" where
  "clamp lo hi x = max lo (min x hi)"

lemma clamp_bounds: "lo \<le> hi \<Longrightarrow> lo \<le> clamp lo hi x \<and> clamp lo hi x \<le> hi"
  by (simp add: clamp_def)

lemma clamp_id: "lo \<le> x \<Longrightarrow> x \<le> hi \<Longrightarrow> clamp lo hi x = x"
  by (simp add: clamp_def)

lemma clamp_mono: "x \<le> y \<Longrightarrow> clamp lo hi x \<le> clamp lo hi y"
  by (simp add: clamp_def max_def min_def)

lemma nat_clamp_less: "nat (clamp 0 hi x) < nat hi + 1"
  by (simp add: clamp_def)

text \<open>\<open>np.argmax\<close>: the first index of the greatest element.\<close>

fun argmax_go :: "('a::linorder) list \<Rightarrow> nat \<Rightarrow> nat \<Rightarrow> 'a \<Rightarrow> nat" where
  "argmax_go [] i b v = b"
| "argmax_go (x # xs) i b v = (if v < x then argmax_go xs (Suc i) i x else argmax_go xs (Suc i) b v)"

definition argmax :: "('a::linorder) list \<Rightarrow> nat" where
  "argmax xs = (case xs of [] \<Rightarrow> 0 | x # ys \<Rightarrow> argmax_go ys 1 0 x)"

lemma argmax_go_spec:
  assumes "length pre = i" "b < i" "pre ! b = v" "\<forall>x \<in> set pre. x \<le> v" "\<forall>j < b. pre ! j < v"
  shows "let k = argmax_go xs i b v in k < length (pre @ xs)
    \<and> (\<forall>x \<in> set (pre @ xs). x \<le> (pre @ xs) ! k) \<and> (\<forall>j < k. (pre @ xs) ! j < (pre @ xs) ! k)"
  using assms
proof (induction xs arbitrary: pre i b v)
  case Nil
  then show ?case by simp
next
  case (Cons x xs)
  show ?case
  proof (cases "v < x")
    case True
    have "\<forall>y \<in> set (pre @ [x]). y \<le> x" "\<forall>j < i. (pre @ [x]) ! j < x"
      using Cons.prems True by (auto simp: nth_append intro: order_le_less_trans)
    moreover have "(pre @ [x]) ! i = x" using Cons.prems(1) by (metis nth_append_length)
    ultimately show ?thesis using Cons.IH [of "pre @ [x]" "Suc i" i x] Cons.prems True by simp
  next
    case False
    have "\<forall>y \<in> set (pre @ [x]). y \<le> v" using Cons.prems False by auto
    then show ?thesis using Cons.IH [of "pre @ [x]" "Suc i" b v] Cons.prems False
      by (simp add: nth_append)
  qed
qed

lemma argmax_spec:
  assumes "xs \<noteq> []"
  shows "argmax xs < length xs" and "\<And>x. x \<in> set xs \<Longrightarrow> x \<le> xs ! argmax xs"
    and "\<And>j. j < argmax xs \<Longrightarrow> xs ! j < xs ! argmax xs"
proof -
  obtain y ys where xs: "xs = y # ys" using assms by (cases xs) auto
  have "let k = argmax_go ys 1 0 y in k < length ([y] @ ys)
    \<and> (\<forall>x \<in> set ([y] @ ys). x \<le> ([y] @ ys) ! k) \<and> (\<forall>j < k. ([y] @ ys) ! j < ([y] @ ys) ! k)"
    by (rule argmax_go_spec) auto
  then show "argmax xs < length xs" "\<And>x. x \<in> set xs \<Longrightarrow> x \<le> xs ! argmax xs"
    "\<And>j. j < argmax xs \<Longrightarrow> xs ! j < xs ! argmax xs"
    by (auto simp: xs argmax_def Let_def)
qed

text \<open>\<open>np.searchsorted(xs, v, side="left")\<close> on a sorted array: how many elements are below \<open>v\<close>. The
  binary search finds that index; on a sorted array it is the length of the prefix below \<open>v\<close>.\<close>

definition searchsorted_left :: "('a::linorder) list \<Rightarrow> 'a \<Rightarrow> nat" where
  "searchsorted_left xs v = length (takeWhile (\<lambda>x. x < v) xs)"

definition searchsorted_right :: "('a::linorder) list \<Rightarrow> 'a \<Rightarrow> nat" where
  "searchsorted_right xs v = length (takeWhile (\<lambda>x. x \<le> v) xs)"

lemma searchsorted_left_le: "searchsorted_left xs v \<le> length xs"
  by (simp add: searchsorted_left_def length_takeWhile_le)

lemma searchsorted_left_nth:
  assumes "sorted xs" "i < length xs"
  shows "i < searchsorted_left xs v \<longleftrightarrow> xs ! i < v"
proof -
  let ?k = "length (takeWhile (\<lambda>x. x < v) xs)"
  have below: "xs ! i < v" if "i < ?k"
    using nth_mem [of i "takeWhile (\<lambda>x. x < v) xs"] takeWhile_nth [OF that] set_takeWhileD that
    by fastforce
  have above: "\<not> xs ! i < v" if "\<not> i < ?k"
  proof -
    have k: "?k < length xs" using that assms(2) by linarith
    have "\<not> xs ! ?k < v" using nth_length_takeWhile [OF k] .
    moreover have "xs ! ?k \<le> xs ! i" using assms that by (auto intro: sorted_nth_mono)
    ultimately show ?thesis by simp
  qed
  from below above show ?thesis by (auto simp: searchsorted_left_def)
qed

text \<open>The bit a mask test reads: \<open>(w >> k) & 1\<close>.\<close>

lemma bit_test [simp]: "(drop_bit k w AND 1 \<noteq> 0) = bit w k" for w :: "'a::len word"
  by (simp add: and_one_eq bit_iff_odd_drop_bit odd_iff_mod_2_eq_one)

lemma bit_test_int [simp]: "(drop_bit k w AND 1 \<noteq> 0) = bit w k" for w :: int
  by (simp add: and_one_eq bit_iff_odd_drop_bit odd_iff_mod_2_eq_one)


section \<open>Strings\<close>

text \<open>\<open>str.strip\<close>: the ASCII white space of Python (tab to carriage return, the separators 28 to 31,
  space). Strings are lists of 8-bit characters.\<close>

definition py_space :: "char \<Rightarrow> bool" where
  "py_space c = (let n = of_char c :: nat in 9 \<le> n \<and> n \<le> 13 \<or> 28 \<le> n \<and> n \<le> 32)"

definition py_strip :: "string \<Rightarrow> string" where
  "py_strip s = rev (dropWhile py_space (rev (dropWhile py_space s)))"

lemma py_strip_Nil [simp]: "py_strip [] = []"
  by (simp add: py_strip_def)

end
