(* ===== verification/SectionEdges.thy ===== *)
theory SectionEdges
  imports Prelude
begin

text \<open>
  frontier/producer_kernels.py, the packing of a fever section: the notes it puts in fever and the notes
  it plays as Greats, as two 64-bit words each for the first hundred notes and as counts for the notes
  past them. Places may be negative (-1 stands for none); the words are unsigned 64-bit.
\<close>

section \<open>Masks and counts\<close>

definition mask_segment :: "int \<Rightarrow> int \<Rightarrow> int \<Rightarrow> 64 word" where
  "mask_segment start stop offset =
     (let lo = max start offset; hi = min stop (offset + 64)
      in if hi \<le> lo then 0
         else let width = hi - lo
         in if width \<ge> 64 then 0xFFFFFFFFFFFFFFFF
            else push_bit (nat (lo - offset)) (push_bit (nat width) 1 - 1))"

definition range_mask :: "int \<Rightarrow> int \<Rightarrow> int \<Rightarrow> 64 word \<times> 64 word" where
  "range_mask start stop n =
     (let start_i = max 0 (min (min start n) 100); stop_i = max 0 (min (min stop n) 100)
      in (mask_segment start_i stop_i 0, mask_segment start_i stop_i 64))"

definition body_count :: "int \<Rightarrow> int \<Rightarrow> int \<Rightarrow> 64 word" where
  "body_count start stop n =
     (let body_start = max start 100; body_stop = min stop n
      in if body_stop \<le> body_start then 0 else of_int (body_stop - body_start))"

definition body_overlap_count :: "int \<Rightarrow> int \<Rightarrow> int \<Rightarrow> int \<Rightarrow> int \<Rightarrow> 64 word" where
  "body_overlap_count first_start first_stop second_start second_stop n =
     (let body_start = max (max first_start second_start) 100; body_stop = min (min first_stop second_stop) n
      in if body_stop \<le> body_start then 0 else of_int (body_stop - body_start))"

definition single_head_mask :: "int \<Rightarrow> int \<Rightarrow> 64 word \<times> 64 word" where
  "single_head_mask idx n =
     (if idx < 0 \<or> idx \<ge> min n 100 then (0, 0)
      else if idx < 64 then (push_bit (nat idx) 1, 0) else (0, push_bit (nat (idx - 64)) 1))"

text \<open>An edge's columns: fever low and high word, Great low and high word, then the body's fever notes,
  Greats and both.\<close>

definition pack_edge :: "int \<Rightarrow> int \<Rightarrow> int \<Rightarrow> int \<Rightarrow> int \<Rightarrow> int \<Rightarrow> 64 word list" where
  "pack_edge n fever_start fever_stop great_start great_stop activation_great =
     (case (range_mask fever_start fever_stop n, range_mask great_start great_stop n) of
        ((fever_lo, fever_hi), (great_lo, great_hi)) \<Rightarrow>
      case (if activation_great \<ge> 0 then single_head_mask activation_great n else (0, 0)) of
        (activation_lo, activation_hi) \<Rightarrow>
      let counted = activation_great \<ge> max 100 fever_start \<and> activation_great < min fever_stop n
            \<and> (activation_great < great_start \<or> activation_great \<ge> great_stop)
      in [fever_lo, fever_hi, great_lo OR activation_lo, great_hi OR activation_hi,
          body_count fever_start fever_stop n,
          body_count great_start great_stop n + (if counted then 1 else 0),
          body_overlap_count fever_start fever_stop great_start great_stop n + (if counted then 1 else 0)])"

definition pack_edge_eg :: "int \<Rightarrow> int \<Rightarrow> int \<Rightarrow> int \<Rightarrow> int \<Rightarrow> int \<Rightarrow> int \<Rightarrow> int \<Rightarrow> 64 word list" where
  "pack_edge_eg n fever_start fever_stop great_start great_stop activation_great early_start early_stop =
     (let e = pack_edge n fever_start fever_stop great_start great_stop activation_great
      in if early_stop > early_start
         then case range_mask early_start early_stop n of (eg_lo, eg_hi) \<Rightarrow>
           [e ! 0, e ! 1, e ! 2 OR eg_lo, e ! 3 OR eg_hi, e ! 4,
            e ! 5 + body_count early_start early_stop n,
            e ! 6 + body_overlap_count fever_start fever_stop early_start early_stop n]
         else e)"

section \<open>What an edge says of its notes\<close>

text \<open>A section's fever and its Greats: the forced run, the activation (-1: a Perfect), the early tail.\<close>

definition in_section_fever :: "int \<Rightarrow> int \<Rightarrow> int \<Rightarrow> bool" where
  "in_section_fever fever_start fever_stop i \<longleftrightarrow> fever_start \<le> i \<and> i < fever_stop"

definition section_great :: "int \<Rightarrow> int \<Rightarrow> int \<Rightarrow> int \<Rightarrow> int \<Rightarrow> int \<Rightarrow> bool" where
  "section_great great_start great_stop activation_great early_start early_stop i \<longleftrightarrow>
     great_start \<le> i \<and> i < great_stop \<or> i = activation_great \<or> early_start \<le> i \<and> i < early_stop"

lemma mask_segment_bit:
  assumes "0 \<le> offset" "0 \<le> start"
  shows "bit (mask_segment start stop offset) k \<longleftrightarrow> k < 64 \<and> start \<le> offset + int k \<and> offset + int k < stop"
proof -
  define lo where "lo = max start offset"
  define hi where "hi = min stop (offset + 64)"
  have *: "k < 64 \<and> start \<le> offset + int k \<and> offset + int k < stop \<longleftrightarrow> lo \<le> offset + int k \<and> offset + int k < hi"
    unfolding lo_def hi_def by auto
  consider "hi \<le> lo" | "lo < hi" "hi - lo \<ge> 64" | "lo < hi" "hi - lo < 64" by linarith
  then show ?thesis
  proof cases
    case 1
    then show ?thesis unfolding * mask_segment_def Let_def lo_def [symmetric] hi_def [symmetric] by auto
  next
    case 2
    then have "lo = offset" "hi = offset + 64" unfolding lo_def hi_def by auto
    moreover have "bit (0xFFFFFFFFFFFFFFFF :: 64 word) k \<longleftrightarrow> k < 64"
    proof -
      have "(0xFFFFFFFFFFFFFFFF :: 64 word) = - 1" by simp
      then show ?thesis by (simp only: bit_minus_1_iff) simp
    qed
    ultimately show ?thesis
      unfolding * mask_segment_def Let_def lo_def [symmetric] hi_def [symmetric] by auto
  next
    case 3
    have "bit (push_bit (nat (lo - offset)) (mask (nat (hi - lo)) :: 64 word)) k
        \<longleftrightarrow> k < 64 \<and> nat (lo - offset) \<le> k \<and> k - nat (lo - offset) < nat (hi - lo)"
      by (auto simp: bit_push_bit_iff bit_mask_iff)
    also have "\<dots> \<longleftrightarrow> lo \<le> offset + int k \<and> offset + int k < hi"
    proof -
      have "offset \<le> lo" "hi \<le> offset + 64" by (simp_all add: lo_def hi_def)
      then show ?thesis using 3 by linarith
    qed
    finally show ?thesis
      unfolding * mask_segment_def Let_def lo_def [symmetric] hi_def [symmetric]
      using 3 by (simp add: mask_eq_exp_minus_1)
  qed
qed

lemma range_mask_bits:
  "bit (fst (range_mask start stop n)) k \<longleftrightarrow> k < 64 \<and> start \<le> int k \<and> int k < min stop n"
  "bit (snd (range_mask start stop n)) k \<longleftrightarrow> 64 + int k < 100 \<and> start \<le> 64 + int k \<and> 64 + int k < min stop n"
  by (auto simp: range_mask_def Let_def mask_segment_bit)

lemma single_head_mask_bits:
  "bit (fst (single_head_mask idx n)) k \<longleftrightarrow> k < 64 \<and> int k = idx \<and> idx < n"
  "bit (snd (single_head_mask idx n)) k \<longleftrightarrow> 64 + int k < 100 \<and> 64 + int k = idx \<and> idx < n"
  by (auto simp: single_head_mask_def bit_simps)

text \<open>Counts of the body's notes with a property of one interval, or of two.\<close>

definition body_notes :: "int \<Rightarrow> (int \<Rightarrow> bool) \<Rightarrow> int set" where
  "body_notes n p = {i. 100 \<le> i \<and> i < n \<and> p i}"

lemma finite_body_notes [simp]: "finite (body_notes n p)"
  by (rule finite_subset [of _ "{100..<n}"]) (auto simp: body_notes_def)

lemma body_count_card:
  assumes "n < 2 ^ 63"
  shows "uint (body_count start stop n) = int (card (body_notes n (in_section_fever start stop)))"
proof -
  have "body_notes n (in_section_fever start stop) = {max start 100..<min stop n}"
    by (auto simp: body_notes_def in_section_fever_def)
  moreover have "uint (of_int k :: 64 word) = k" if "0 \<le> k" "k < 2 ^ 63" for k
    using that by (simp add: word_of_int_inverse)
  ultimately show ?thesis using assms by (auto simp: body_count_def Let_def simp del: of_int_diff)
qed

lemma body_overlap_count_eq:
  "body_overlap_count s1 e1 s2 e2 n = body_count (max s1 s2) (min e1 e2) n"
  by (simp add: body_overlap_count_def body_count_def)

lemma card_body_interval:
  "int (card (body_notes n (in_section_fever start stop))) = (if min stop n \<le> max start 100 then 0 else min stop n - max start 100)"
proof -
  have "body_notes n (in_section_fever start stop) = {max start 100..<min stop n}"
    by (auto simp: body_notes_def in_section_fever_def)
  moreover have "int (card {a..<b}) = (if b \<le> a then 0 else b - a)" for a b :: int by simp
  ultimately show ?thesis by (simp only:)
qed

lemma card_body_union:
  assumes "\<And>i. p i \<longleftrightarrow> q i \<or> r i" "\<And>i. \<not> (q i \<and> r i)"
  shows "card (body_notes n p) = card (body_notes n q) + card (body_notes n r)"
proof -
  have "body_notes n p = body_notes n q \<union> body_notes n r" "body_notes n q \<inter> body_notes n r = {}"
    using assms by (auto simp: body_notes_def)
  then show ?thesis by (simp add: card_Un_disjoint)
qed

lemma card_body_le: "int (card (body_notes n p)) \<le> max 0 n"
proof -
  have "card (body_notes n p) \<le> card {0..<n}" by (rule card_mono) (auto simp: body_notes_def)
  then show ?thesis by simp
qed

text \<open>A section's places: its fever starts on the activation; a Great activation is that note; the forced run
  starts no later than the activation, and the early tail, when there is one, starts past it and past
  the run and ends with the fever.\<close>

definition section_places :: "int \<Rightarrow> int \<Rightarrow> int \<Rightarrow> int \<Rightarrow> int \<Rightarrow> int \<Rightarrow> int \<Rightarrow> int \<Rightarrow> bool" where
  "section_places n fever_start fever_stop great_start great_stop activation_great early_start early_stop \<longleftrightarrow>
     0 \<le> great_start \<and> great_start \<le> fever_start \<and> great_start \<le> great_stop \<and> great_stop \<le> n
     \<and> fever_start < fever_stop \<and> fever_stop \<le> n \<and> n < 2 ^ 62
     \<and> (activation_great = - 1 \<or> activation_great = fever_start)
     \<and> (early_start < early_stop \<longrightarrow> fever_start < early_start \<and> great_stop \<le> early_start \<and> early_stop \<le> fever_stop)"

text \<open>The activation counts in the body when it is a Great there, outside the run.\<close>

lemma card_activation:
  assumes "section_places n fs fe gs ge act es ee"
  shows "card (body_notes n (\<lambda>i. i = act \<and> \<not> (gs \<le> i \<and> i < ge)))
    = (if act \<ge> max 100 fs \<and> act < min fe n \<and> (act < gs \<or> act \<ge> ge) then 1 else 0)"
proof (cases "act \<ge> max 100 fs \<and> act < min fe n \<and> (act < gs \<or> act \<ge> ge)")
  case True
  then have "body_notes n (\<lambda>i. i = act \<and> \<not> (gs \<le> i \<and> i < ge)) = {act}" by (auto simp: body_notes_def)
  then show ?thesis using True by simp
next
  case False
  then have "body_notes n (\<lambda>i. i = act \<and> \<not> (gs \<le> i \<and> i < ge)) = {}"
    using assms by (auto simp: body_notes_def section_places_def)
  then show ?thesis by (simp only: card.empty if_not_P [OF False])
qed

lemma uint_sum3:
  fixes a b c :: "64 word"
  assumes "uint a + uint b + uint c < 2 ^ 64"
  shows "uint (a + b + c) = uint a + uint b + uint c"
proof -
  have "uint a + uint b < 2 ^ 64" using assms uint_ge_0 [of c] by linarith
  then have "uint (a + b) = uint a + uint b" by (intro uint_add_lem [THEN iffD1]) simp
  moreover from this have "uint (a + b + c) = uint (a + b) + uint c"
    using assms by (intro uint_add_lem [THEN iffD1]) simp
  ultimately show ?thesis by simp
qed

lemma section_counts:
  assumes places: "section_places n fs fe gs ge act es ee"
  defines "run \<equiv> in_section_fever gs ge" and "tail \<equiv> in_section_fever es ee"
    and "lone \<equiv> \<lambda>i. i = act \<and> \<not> (gs \<le> i \<and> i < ge)"
  shows "card (body_notes n (section_great gs ge act es ee)) = card (body_notes n run) + card (body_notes n lone) + card (body_notes n tail)"
    and "card (body_notes n (\<lambda>i. in_section_fever fs fe i \<and> section_great gs ge act es ee i))
      = card (body_notes n (in_section_fever (max fs gs) (min fe ge))) + card (body_notes n lone) + card (body_notes n tail)"
proof -
  have tail: "tail i \<Longrightarrow> fs < i \<and> ge \<le> i \<and> i < fe" for i
    using places by (auto simp: section_places_def tail_def in_section_fever_def)
  have lone: "lone i \<Longrightarrow> i = - 1 \<or> i = fs" "\<not> (run i \<and> lone i)" for i
    using places by (auto simp: section_places_def lone_def run_def in_section_fever_def)
  have apart: "\<not> ((run i \<or> lone i) \<and> tail i)" for i
    using tail [of i] lone(1) [of i] places by (auto simp: run_def in_section_fever_def section_places_def)
  have great: "section_great gs ge act es ee i \<longleftrightarrow> (run i \<or> lone i) \<or> tail i" for i
    by (auto simp: section_great_def run_def lone_def tail_def in_section_fever_def)
  show "card (body_notes n (section_great gs ge act es ee)) = card (body_notes n run) + card (body_notes n lone) + card (body_notes n tail)"
    using card_body_union [of "section_great gs ge act es ee" "\<lambda>i. run i \<or> lone i" tail n, OF great apart]
      card_body_union [of "\<lambda>i. run i \<or> lone i" run lone n, OF refl lone(2)] by simp
  let ?fever = "in_section_fever fs fe" and ?both = "in_section_fever (max fs gs) (min fe ge)"
  have "(?fever i \<and> section_great gs ge act es ee i) = ((?both i \<or> lone i) \<or> tail i)" if "100 \<le> i" for i
    unfolding great using that tail [of i] lone(1) [of i] places
    by (auto simp: in_section_fever_def run_def section_places_def)
  then have "body_notes n (\<lambda>i. ?fever i \<and> section_great gs ge act es ee i) = body_notes n (\<lambda>i. (?both i \<or> lone i) \<or> tail i)"
    unfolding body_notes_def by blast
  moreover have "card (body_notes n (\<lambda>i. (?both i \<or> lone i) \<or> tail i)) = card (body_notes n (\<lambda>i. ?both i \<or> lone i)) + card (body_notes n tail)"
    by (rule card_body_union) (use apart in \<open>auto simp: in_section_fever_def run_def\<close>)
  moreover have "card (body_notes n (\<lambda>i. ?both i \<or> lone i)) = card (body_notes n ?both) + card (body_notes n lone)"
    by (rule card_body_union) (use lone(2) in \<open>auto simp: in_section_fever_def run_def\<close>)
  ultimately show "card (body_notes n (\<lambda>i. ?fever i \<and> section_great gs ge act es ee i))
      = card (body_notes n ?both) + card (body_notes n lone) + card (body_notes n tail)" by simp
qed

lemma mask_segment_empty: "stop \<le> start \<Longrightarrow> mask_segment start stop offset = 0"
proof -
  assume "stop \<le> start"
  then have "min stop (offset + 64) \<le> max start offset" by (rule order_trans [OF min.cobounded1 order_trans [OF _ max.cobounded1]])
  then show ?thesis by (simp only: mask_segment_def Let_def if_True)
qed

lemma range_mask_empty: "stop \<le> start \<Longrightarrow> range_mask start stop n = (0, 0)"
proof -
  assume "stop \<le> start"
  then have "max 0 (min (min stop n) 100) \<le> max 0 (min (min start n) 100)" by (intro max.mono min.mono order_refl)
  then show ?thesis by (simp only: range_mask_def Let_def mask_segment_empty)
qed

lemma body_count_empty: "stop \<le> start \<Longrightarrow> body_count start stop n = 0"
proof -
  assume "stop \<le> start"
  then have "min stop n \<le> max start 100" by (rule order_trans [OF min.cobounded1 order_trans [OF _ max.cobounded1]])
  then show ?thesis by (simp only: body_count_def Let_def if_True)
qed

lemma pack_edge_eg_columns:
  fixes n fs fe gs ge act es ee
  defines "lone \<equiv> (if act \<ge> max 100 fs \<and> act < min fe n \<and> (act < gs \<or> act \<ge> ge) then 1 else 0 :: 64 word)"
  shows "pack_edge_eg n fs fe gs ge act es ee =
    [fst (range_mask fs fe n), snd (range_mask fs fe n),
     fst (range_mask gs ge n) OR fst (single_head_mask act n) OR fst (range_mask es ee n),
     snd (range_mask gs ge n) OR snd (single_head_mask act n) OR snd (range_mask es ee n),
     body_count fs fe n,
     body_count gs ge n + lone + body_count es ee n,
     body_overlap_count fs fe gs ge n + lone + body_overlap_count fs fe es ee n]"
proof -
  have none: "range_mask es ee n = (0, 0)" "body_count es ee n = 0" "body_overlap_count fs fe es ee n = 0" if "\<not> es < ee"
    using that range_mask_empty [of ee es n] body_count_empty [of ee es n] body_count_empty [of "min fe ee" "max fs es" n]
    by (simp_all add: body_overlap_count_eq min.coboundedI2 max.coboundedI2)
  obtain fl fh gl gh al ah el eh where masks: "range_mask fs fe n = (fl, fh)" "range_mask gs ge n = (gl, gh)"
      "single_head_mask act n = (al, ah)" "range_mask es ee n = (el, eh)" by fastforce
  have "(if act \<ge> 0 then single_head_mask act n else (0, 0)) = (al, ah)"
  proof (cases "0 \<le> act")
    case False
    then have "single_head_mask act n = (0, 0)" by (simp add: single_head_mask_def)
    then show ?thesis using False masks(3) by simp
  qed (simp add: masks(3))
  then have edge: "pack_edge n fs fe gs ge act
    = [fl, fh, gl OR al, gh OR ah, body_count fs fe n, body_count gs ge n + lone, body_overlap_count fs fe gs ge n + lone]"
    by (simp only: pack_edge_def masks prod.case Let_def lone_def)
  show ?thesis
  proof (cases "es < ee")
    case True
    then show ?thesis by (simp add: pack_edge_eg_def edge masks or.assoc)
  next
    case False
    then show ?thesis using none [OF False] masks(4) by (simp add: pack_edge_eg_def edge masks)
  qed
qed

text \<open>C15: the packed edge of a fever section says exactly which of the first hundred notes are in its fever
  and which are Greats, and counts the body notes in fever, the body Greats and the body notes that
  are both: the forced run, a Great activation outside it and the early tail are each counted once,
  and no count wraps.\<close>

theorem pack_edge_eg_exact:
  assumes "section_places n fs fe gs ge act es ee"
  defines "e \<equiv> pack_edge_eg n fs fe gs ge act es ee"
    and "fever \<equiv> in_section_fever fs fe" and "great \<equiv> section_great gs ge act es ee"
  shows "(\<forall>k < 128. (bit (e ! (k div 64)) (k mod 64) \<longleftrightarrow> int k < min n 100 \<and> fever (int k))
        \<and> (bit (e ! (2 + k div 64)) (k mod 64) \<longleftrightarrow> int k < min n 100 \<and> great (int k)))
    \<and> uint (e ! 4) = int (card (body_notes n fever)) \<and> uint (e ! 5) = int (card (body_notes n great))
    \<and> uint (e ! 6) = int (card (body_notes n (\<lambda>i. fever i \<and> great i)))"
proof -
  define lone where "lone = (if act \<ge> max 100 fs \<and> act < min fe n \<and> (act < gs \<or> act \<ge> ge) then 1 else 0 :: 64 word)"
  note places = assms(1) [unfolded section_places_def]
  have e: "e = [fst (range_mask fs fe n), snd (range_mask fs fe n),
     fst (range_mask gs ge n) OR fst (single_head_mask act n) OR fst (range_mask es ee n),
     snd (range_mask gs ge n) OR snd (single_head_mask act n) OR snd (range_mask es ee n),
     body_count fs fe n, body_count gs ge n + lone + body_count es ee n,
     body_overlap_count fs fe gs ge n + lone + body_overlap_count fs fe es ee n]"
    unfolding e_def lone_def by (rule pack_edge_eg_columns)
  have bits: "(bit (e ! (k div 64)) (k mod 64) \<longleftrightarrow> int k < min n 100 \<and> fever (int k))
        \<and> (bit (e ! (2 + k div 64)) (k mod 64) \<longleftrightarrow> int k < min n 100 \<and> great (int k))" if "k < 128" for k
  proof (cases "k < 64")
    case True
    then show ?thesis
      using places
      by (auto simp: e bit_or_iff range_mask_bits single_head_mask_bits fever_def great_def in_section_fever_def section_great_def)
  next
    case False
    then obtain j where k: "k = 64 + j" "j < 64" using \<open>k < 128\<close> by (metis add.commute add_diff_inverse_nat less_diff_conv2 not_less numeral_Bit0)
    have "int k = 64 + int j" by (simp add: k)
    then show ?thesis
      using places k
      by (auto simp: e bit_or_iff range_mask_bits single_head_mask_bits fever_def great_def in_section_fever_def section_great_def)
  qed
  have n: "n < 2 ^ 63" using places by simp
  note card = body_count_card [OF n] and le = card_body_le [of n]
  have lone: "uint lone = int (card (body_notes n (\<lambda>i. i = act \<and> \<not> (gs \<le> i \<and> i < ge))))"
    unfolding card_activation [OF assms(1)] lone_def by simp
  have tail: "body_overlap_count fs fe es ee n = body_count es ee n"
    using places by (auto simp: body_overlap_count_def body_count_def Let_def)
  have small: "uint (body_count s t n) + uint lone + uint (body_count s' t' n) < 2 ^ 64" for s t s' t'
  proof -
    have "uint (body_count s t n) \<le> 2 ^ 62" "uint (body_count s' t' n) \<le> 2 ^ 62" "uint lone \<le> 1"
      unfolding card using le [of "in_section_fever s t"] le [of "in_section_fever s' t'"] places by (simp_all add: lone_def)
    then show ?thesis by simp
  qed
  have "uint (e ! 5) = int (card (body_notes n great))"
    using section_counts(1) [OF assms(1)] uint_sum3 [OF small] lone by (simp add: e great_def card)
  moreover have "uint (e ! 6) = int (card (body_notes n (\<lambda>i. fever i \<and> great i)))"
    using section_counts(2) [OF assms(1)] uint_sum3 [OF small] lone
    by (simp add: e fever_def great_def card tail body_overlap_count_eq [of fs fe gs ge])
  moreover have "uint (e ! 4) = int (card (body_notes n fever))" by (simp add: e fever_def card)
  ultimately show ?thesis using bits by blast
qed

lemma pack_edge_eg_exact_witness:
  "section_places 300 95 130 90 98 (- 1) 125 130
    \<and> pack_edge_eg 300 95 130 90 98 (- 1) 125 130 = [0, 0xF80000000, 0, 0x3FC000000, 30, 5, 5]
    \<and> int (card (body_notes 300 (section_great 90 98 (- 1) 125 130))) = 5"
proof -
  have places: "section_places 300 95 130 90 98 (- 1) 125 130" by (simp add: section_places_def)
  moreover have "pack_edge_eg 300 95 130 90 98 (- 1) 125 130 = [0, 0xF80000000, 0, 0x3FC000000, 30, 5, 5]" by code_simp
  ultimately show ?thesis using pack_edge_eg_exact [OF places] by simp
qed

end
