(* ===== verification/Sorting.thy ===== *)
theory Sorting
  imports Prelude
begin

text \<open>
  Stable sorting as NumPy does it: \<open>argsort\<close> with its inverse facts, and the slices of an array sorted by
  a small integer key, which is how the kernels pack lists per note or per lane.
\<close>

text \<open>\<open>np.argsort(xs, kind="mergesort")\<close> is stable.\<close>

definition argsort :: "'a::linorder list \<Rightarrow> nat list" where
  "argsort xs = sort_key (\<lambda>i. xs ! i) [0..<length xs]"

lemma map_insort_key: "map g (insort_key (f \<circ> g) x ys) = insort_key f (g x) (map g ys)"
  by (induction ys) auto

lemma map_sort_key: "map g (sort_key (f \<circ> g) xs) = sort_key f (map g xs)"
  by (induction xs) (simp_all add: map_insort_key [unfolded comp_def] comp_def)

lemma insort_key_same: "(\<And>z. z \<in> insert x (set ys) \<Longrightarrow> f z = g z) \<Longrightarrow> insort_key f x ys = insort_key g x ys"
  by (induction ys) auto

lemma sort_key_same: "(\<And>x. x \<in> set xs \<Longrightarrow> f x = g x) \<Longrightarrow> sort_key f xs = sort_key g xs"
proof (induction xs)
  case (Cons x xs)
  have "insort_key f x (sort_key g xs) = insort_key g x (sort_key g xs)"
    by (rule insort_key_same) (use Cons.prems in auto)
  then show ?case using Cons by simp
qed simp

lemma argsort_map: "map (\<lambda>k. xs ! k) (argsort (map f xs)) = sort_key f xs"
proof -
  have "sort_key (\<lambda>k. map f xs ! k) [0..<length xs] = sort_key (f \<circ> (!) xs) [0..<length xs]"
    by (rule sort_key_same) auto
  then show ?thesis by (simp add: argsort_def map_sort_key map_nth)
qed

lemma sort_key_sorted: "sorted (map f xs) \<Longrightarrow> sort_key f xs = xs"
  by (induction xs) (auto simp: insort_is_Cons)

lemma set_argsort: "set (argsort xs) = {..<length xs}" and distinct_argsort: "distinct (argsort xs)"
  and length_argsort [simp]: "length (argsort xs) = length xs"
  by (simp_all add: argsort_def lessThan_atLeast0)

text \<open>The slice of one key.\<close>

lemma sorted_three_parts:
  fixes k :: "'b::linorder"
  shows "sorted (map f xs) \<Longrightarrow>
    xs = filter (\<lambda>x. f x < k) xs @ filter (\<lambda>x. f x = k) xs @ filter (\<lambda>x. k < f x) xs"
proof (induction xs)
  case (Cons x xs)
  have later: "f x \<le> f y" if "y \<in> set xs" for y using Cons.prems that by simp
  have IH: "xs = filter (\<lambda>x. f x < k) xs @ filter (\<lambda>x. f x = k) xs @ filter (\<lambda>x. k < f x) xs"
    using Cons by simp
  show ?case
  proof (cases "f x" k rule: linorder_cases)
    case less
    then show ?thesis using IH [symmetric] by auto
  next
    case equal
    then have "filter (\<lambda>x. f x < k) xs = []" using later by (fastforce simp: filter_empty_conv)
    then show ?thesis using IH [symmetric] equal by simp
  next
    case greater
    then have "filter (\<lambda>x. f x < k) xs = []" "filter (\<lambda>x. f x = k) xs = []"
      using later by (fastforce simp: filter_empty_conv)+
    then show ?thesis using IH [symmetric] greater by auto
  qed
qed simp

lemma filter_sort_key_same: "filter (\<lambda>x. f x = k) (sort_key f xs) = filter (\<lambda>x. f x = k) xs"
proof -
  have "map f (filter (\<lambda>x. f x = k) xs) = replicate (length (filter (\<lambda>x. f x = k) xs)) k"
    by (rule replicate_eqI) auto
  then have "sort_key f (filter (\<lambda>x. f x = k) xs) = filter (\<lambda>x. f x = k) xs"
    by (intro sort_key_sorted) (simp only: sorted_replicate)
  then show ?thesis by (simp add: filter_sort)
qed

lemma map_nth_slice: "b \<le> length xs \<Longrightarrow> map (\<lambda>c. xs ! c) [a..<b] = take (b - a) (drop a xs)"
  by (rule nth_equalityI) auto

lemma sort_key_slice:
  fixes f :: "'a \<Rightarrow> nat"
  defines "below \<equiv> \<lambda>k xs. length (filter (\<lambda>x. f x < k) xs)"
  shows "map (\<lambda>c. sort_key f xs ! c) [below k xs..<below (Suc k) xs] = filter (\<lambda>x. f x = k) xs"
proof -
  let ?s = "sort_key f xs"
  have count: "length (filter P ?s) = length (filter P xs)" for P
    by (simp add: filter_sort)
  have "length (filter (\<lambda>x. f x < Suc k) zs) = length (filter (\<lambda>x. f x < k) zs) + length (filter (\<lambda>x. f x = k) zs)"
    for zs :: "'a list" by (induction zs) (auto simp: less_Suc_eq)
  then have suc: "below (Suc k) xs = below k xs + length (filter (\<lambda>x. f x = k) xs)" by (simp add: below_def)
  have parts: "?s = filter (\<lambda>x. f x < k) ?s @ filter (\<lambda>x. f x = k) ?s @ filter (\<lambda>x. k < f x) ?s"
    by (rule sorted_three_parts) simp
  have "length (filter (\<lambda>x. f x < k) ?s) = below k xs" by (simp add: below_def count)
  then have "drop (below k xs) ?s = filter (\<lambda>x. f x = k) ?s @ filter (\<lambda>x. k < f x) ?s"
    by (subst parts) simp
  then have "take (below (Suc k) xs - below k xs) (drop (below k xs) ?s) = filter (\<lambda>x. f x = k) xs"
    by (simp add: suc filter_sort_key_same)
  moreover have "below (Suc k) xs \<le> length ?s"
    using length_filter_le [of "\<lambda>x. f x < Suc k" xs] by (simp add: below_def)
  ultimately show ?thesis by (simp add: map_nth_slice)
qed

end
