(* ===== verification/SectionKernels.thy ===== *)
theory SectionKernels
  imports SectionEdges Sorting
begin

text \<open>
  trace/section_kernels.py with the kernels of frontier/producer_kernels.py it calls: the candidate fever
  sections after a note, action by action, each with the hit that activates it and the edge it adds to
  a surface. Times are binary32 values; a hit is binary64. An exit ceiling of -inf is None. Activations,
  run starts and fills are not negative; a place that may be -1 is an integer.
\<close>

section \<open>What a song's sections read\<close>

record hit_times =
  ht_perfect_floor :: "f32 list"
  ht_perfect :: "f32 list"
  ht_great_floor :: "f32 list"
  ht_great :: "f32 list"
  ht_late_floor :: "f32 list"

record section_context =
  sc_ts :: "f32 list"
  sc_times :: hit_times
  sc_exit_ceiling :: "f32 option list"
  sc_lanes :: "int list"
  sc_fill_denom :: f64
  sc_fever_time :: f64
  sc_forced_timing :: bool

section \<open>Binary search\<close>

function lower_bound_go :: "(nat \<Rightarrow> bool) \<Rightarrow> nat \<Rightarrow> nat \<Rightarrow> nat" where
  "lower_bound_go below lo hi =
     (if lo < hi then
        let mid = (lo + hi) div 2
        in if below mid then lower_bound_go below (mid + 1) hi else lower_bound_go below lo mid
      else lo)"
  by auto
termination by (relation "measure (\<lambda>(_, lo, hi). hi - lo)") auto

declare lower_bound_go.simps [simp del]

definition lower_bound_from :: "f32 list \<Rightarrow> f64 \<Rightarrow> nat" where
  "lower_bound_from ts v = lower_bound_go (\<lambda>i. ts ! i < r32 v) 0 (length ts)"

text \<open>The same search over exit ceilings, where -inf is below every time.\<close>

definition exit_bound_from :: "f32 option list \<Rightarrow> f64 \<Rightarrow> nat" where
  "exit_bound_from ceilings v =
     lower_bound_go (\<lambda>i. case ceilings ! i of None \<Rightarrow> True | Some c \<Rightarrow> c < r32 v) 0 (length ceilings)"

definition fever_end :: "f64 \<Rightarrow> nat \<Rightarrow> f32 list \<Rightarrow> f64 \<Rightarrow> nat \<Rightarrow> nat" where
  "fever_end hit a floor_ts fever_time n = min (max (lower_bound_from floor_ts (add64 hit fever_time)) (a + 1)) n"

section \<open>The latest hit of an activation\<close>

definition REGION_HIT_CHART :: int where "REGION_HIT_CHART = 0"
definition REGION_HIT_PERFECT :: int where "REGION_HIT_PERFECT = 1"
definition REGION_HIT_GREAT :: int where "REGION_HIT_GREAT = 2"
definition REGION_HIT_PERFECT_CAPPED :: int where "REGION_HIT_PERFECT_CAPPED = 3"
definition REGION_HIT_GREAT_CAPPED :: int where "REGION_HIT_GREAT_CAPPED = 4"

text \<open>The later notes of the chart cap an activation's hit: each must still be hit in its own window.\<close>

fun capped_hit :: "f32 list \<Rightarrow> hit_times \<Rightarrow> (nat \<Rightarrow> bool) \<Rightarrow> f64 \<Rightarrow> nat list \<Rightarrow> f64 \<times> int \<Rightarrow> (f64 \<times> int) option" where
  "capped_hit ts ht in_run lo [] (cap, token) = Some (cap, token)"
| "capped_hit ts ht in_run lo (j # js) (cap, token) =
     (if ts ! j \<ge> cap then Some (cap, token)
      else
        let capped = sub64 ((if in_run j then ht_great ht else ht_perfect ht) ! j) (r64 (1 / 10 ^ 6));
            kind = (if in_run j then REGION_HIT_GREAT_CAPPED else REGION_HIT_PERFECT_CAPPED);
            best = (if capped < cap then (capped, kind * int (length ts) + int j) else (cap, token))
        in if fst best < lo then None else capped_hit ts ht in_run lo js best)"

definition latest_activation_hit ::
    "nat \<Rightarrow> f64 \<times> f64 \<Rightarrow> f32 list \<Rightarrow> hit_times \<Rightarrow> nat \<times> nat \<Rightarrow> nat \<Rightarrow> int \<Rightarrow> (f64 \<times> int) option" where
  "latest_activation_hit a window ts ht run section_stop token =
     (let n = min section_stop (length ts); great_lo = min (fst run) n; great_hi = min n (great_lo + snd run)
      in if a \<ge> n \<or> fst window > snd window then None
         else capped_hit ts ht (\<lambda>j. great_lo \<le> j \<and> j < great_hi) (fst window) [a + 1..<n] (snd window, token))"

definition perfect_activation_hit :: "nat \<Rightarrow> f32 list \<Rightarrow> hit_times \<Rightarrow> nat \<Rightarrow> nat \<Rightarrow> nat \<Rightarrow> (f64 \<times> int) option" where
  "perfect_activation_hit a ts ht great_start great_count section_stop =
     (let n = min section_stop (length ts)
      in if a \<ge> n then None
         else let chart = ts ! a; perfect = ht_perfect ht ! a
         in latest_activation_hit a (if chart < perfect then chart else perfect, if perfect > chart then perfect else chart)
              ts ht (great_start, great_count) n
              ((if perfect > chart then REGION_HIT_PERFECT else REGION_HIT_CHART) * int (length ts) + int a))"

definition late_great_activation_hit :: "nat \<Rightarrow> f32 list \<Rightarrow> hit_times \<Rightarrow> nat \<Rightarrow> nat \<Rightarrow> nat \<Rightarrow> (f64 \<times> int) option" where
  "late_great_activation_hit a ts ht great_start great_count section_stop =
     (let n = min section_stop (length ts)
      in if a \<ge> n then None
         else latest_activation_hit a (ht_late_floor ht ! a, ht_great ht ! a) ts ht (great_start, great_count) n
                (REGION_HIT_GREAT * int (length ts) + int a))"

section \<open>Where a run fills the bar\<close>

definition fill_crossing_run :: "int \<Rightarrow> int \<Rightarrow> int \<Rightarrow> f64 \<Rightarrow> int \<Rightarrow> (int \<times> bool) option" where
  "fill_crossing_run start great_run_start k denom n =
     (let run_lo = (if great_run_start > start then great_run_start else start);
          run_hi = (if great_run_start + k < n then great_run_start + k else n);
          inside = (\<lambda>idx great. if idx < n then Some (idx, great) else None);
          first = start + \<lceil>denom\<rceil> - 1
      in if run_hi \<le> run_lo then inside first False
         else
           let count = run_hi - run_lo; before = run_lo - start
           in if first < run_lo then inside first False
              else
                let idx = run_lo - 1 + \<lceil>mul64 2 (sub64 denom (of_int before))\<rceil>
                in if idx < run_lo + count then inside (max idx run_lo) True
                   else inside (run_lo + count - 1
                          + \<lceil>sub64 (sub64 denom (of_int before)) (mul64 (1 / 2) (of_int count))\<rceil>) False)"

definition region2_offset_for_count :: "int \<Rightarrow> int \<Rightarrow> f64 \<Rightarrow> int \<Rightarrow> int res" where
  "region2_offset_for_count start count denom n =
     (if count \<le> 0 \<or> start \<ge> n then Inr (- 1)
      else if denom \<le> 0 then Inl ValueError
      else if denom > of_int n then Inr (- 1)
      else let lo = \<lceil>sub64 denom (mul64 (1 / 2) (of_int count))\<rceil>;
               hi = \<lceil>sub64 denom (mul64 (1 / 2) (of_int (count - 1)))\<rceil> - 1
      in Inr (if lo < 1 \<or> lo \<noteq> hi \<or> start + lo + count - 1 \<ge> n then - 1 else lo))"

definition has_shifted_head_region :: "nat \<Rightarrow> f64 \<Rightarrow> bool" where
  "has_shifted_head_region section_start denom \<longleftrightarrow> section_start < 99 \<and> \<lceil>denom\<rceil> > 1"

section \<open>Whether an activation can be reached\<close>

definition MAX_WORD_CELLS :: nat where "MAX_WORD_CELLS = 16777216"

text \<open>What one lane's notes give: how many, how many must and how many may go before the activation's hit,
  the activation's place, the head's share, the lane's clock, the Greats of each prefix.\<close>

record lane_scan_state =
  ls_count :: nat
  ls_minimum :: nat
  ls_maximum :: "nat option"
  ls_activation :: "nat option"
  ls_head :: nat
  ls_target_head :: nat
  ls_clock :: "f32 option"
  ls_greats :: "nat list"

definition scan_note ::
    "hit_times \<Rightarrow> nat \<Rightarrow> f32 \<Rightarrow> nat \<times> nat \<Rightarrow> bool \<Rightarrow> nat \<Rightarrow> lane_scan_state \<Rightarrow> lane_scan_state res" where
  "scan_note ht a h_a run activation_great note s =
     (let great = (fst run \<le> note \<and> note < snd run \<or> note = a \<and> activation_great);
          low = (if great then ht_great_floor ht else ht_perfect_floor ht) ! note;
          high = (if great then ht_great ht else ht_perfect ht) ! note;
          clock = (case ls_clock s of None \<Rightarrow> low | Some c \<Rightarrow> max c low)
      in if clock > high then Inl ValueError
         else Inr \<lparr>ls_count = ls_count s + 1,
                   ls_minimum = (if high < h_a then ls_count s + 1 else ls_minimum s),
                   ls_maximum = (if low > h_a \<and> ls_maximum s = None then Some (ls_count s) else ls_maximum s),
                   ls_activation = (if note = a then Some (ls_count s) else ls_activation s),
                   ls_head = ls_head s + (if note < 100 then 1 else 0),
                   ls_target_head = ls_target_head s + (if note < 100 \<and> note < a then 1 else 0),
                   ls_clock = Some clock,
                   ls_greats = ls_greats s @ [last (ls_greats s) + (if great then 1 else 0)]\<rparr>)"

text \<open>The lane's first and last number of notes before the activation, or none.\<close>

definition lane_options :: "bool \<Rightarrow> lane_scan_state \<Rightarrow> (nat \<times> nat) option res" where
  "lane_options own_lane s =
     (let maximum = (case ls_maximum s of None \<Rightarrow> ls_count s | Some m \<Rightarrow> m)
      in if ls_minimum s > maximum then Inr None
         else bind_res
           (if own_lane then
              (case ls_activation s of
                 None \<Rightarrow> Inl ValueError
               | Some p \<Rightarrow> Inr (if ls_minimum s \<le> p \<and> p \<le> maximum then Some (p, p) else None))
            else Inr (Some (ls_minimum s, maximum)))
           (\<lambda>opts. Inr (case opts of
              None \<Rightarrow> None
            | Some (first, final) \<Rightarrow>
                let first' = max first (ls_target_head s);
                    final' = (if ls_target_head s < ls_head s then min final (ls_target_head s) else final)
                in if first' > final' then None else Some (first', final'))))"

text \<open>A row of the table holds, per number of notes, the reachable numbers of Greats as bits of one number
  of \<open>word_count\<close> 64-bit words.\<close>

definition merge_lane :: "nat \<Rightarrow> nat \<Rightarrow> nat \<Rightarrow> nat list \<Rightarrow> nat \<times> nat \<Rightarrow> int list \<Rightarrow> int list" where
  "merge_lane target_count target_great word_count greats options reachable =
     map (\<lambda>count. fold (\<lambda>opt row.
           let g = greats ! opt
           in if opt > target_count \<or> g > target_great \<or> opt > count then row
              else row OR take_bit (64 * word_count) (push_bit g (reachable ! (count - opt))))
         [fst options..<Suc (snd options)] 0)
       [0..<Suc target_count]"

fun merge_lanes ::
    "(int \<Rightarrow> lane_scan_state res) \<Rightarrow> int \<Rightarrow> nat \<Rightarrow> nat \<Rightarrow> nat \<Rightarrow> int list \<Rightarrow> int list \<Rightarrow> int list option res" where
  "merge_lanes scan own target_count target_great word_count [] reachable = Inr (Some reachable)"
| "merge_lanes scan own target_count target_great word_count (lane # rest) reachable =
     bind_res (scan lane) (\<lambda>s. bind_res (lane_options (lane = own) s) (\<lambda>opts.
       case opts of
         None \<Rightarrow> Inr None
       | Some options \<Rightarrow> merge_lanes scan own target_count target_great word_count rest
           (merge_lane target_count target_great word_count (ls_greats s) options reachable)))"

definition lane_prefix_reachable ::
    "nat \<Rightarrow> f64 \<Rightarrow> hit_times \<Rightarrow> int list \<Rightarrow> nat \<times> nat \<Rightarrow> nat \<times> nat \<Rightarrow> bool \<Rightarrow> int \<times> int \<Rightarrow> bool res" where
  "lane_prefix_reachable a hit ht note_lanes section_range run activation_great target =
     (case (section_range, target) of ((start, stop), (target_event, target_gr)) \<Rightarrow>
      if target_event < 0 \<or> target_event > int (stop - start) - 1 \<or> target_gr < 0 \<or> target_gr > target_event then Inr False
      else if length note_lanes < stop then Inl ValueError
      else
        let target_count = nat target_event; target_great = nat target_gr; word_count = (target_great + 64) div 64
        in if (target_count + 1) * word_count > MAX_WORD_CELLS then Inl MemoryError
           else
             let h_a = r32 hit;
                 start_state = \<lparr>ls_count = 0, ls_minimum = 0, ls_maximum = None, ls_activation = None, ls_head = 0,
                   ls_target_head = 0, ls_clock = None, ls_greats = [0]\<rparr>;
                 scan = (\<lambda>lane. fold_res (scan_note ht a h_a run activation_great)
                   (filter (\<lambda>i. note_lanes ! i = lane) [start..<stop]) start_state);
                 unique = rev (remdups (rev (map (\<lambda>i. note_lanes ! i) [start..<stop])))
             in map_sum id (\<lambda>r. case r of None \<Rightarrow> False | Some reachable \<Rightarrow> bit (reachable ! target_count) target_great)
                  (merge_lanes scan (note_lanes ! a) target_count target_great word_count unique
                     (1 # replicate target_count 0)))"

text \<open>The chart's own prefix is tried first; only when a window forbids it are the lanes' prefixes.\<close>

definition chart_prefix_legal :: "f32 list \<Rightarrow> hit_times \<Rightarrow> nat \<Rightarrow> f32 \<Rightarrow> nat \<Rightarrow> nat \<Rightarrow> nat \<Rightarrow> nat \<Rightarrow> bool" where
  "chart_prefix_legal ts ht a h_a start stop g0 g1 \<longleftrightarrow>
     \<not> (min a g0 > start \<and> ht_perfect_floor ht ! (min a g0 - 1) > h_a)
     \<and> \<not> (min a g1 > max start g0 \<and> ht_great_floor ht ! (min a g1 - 1) > h_a)
     \<and> \<not> (a > max start g1 \<and> ht_perfect_floor ht ! (a - 1) > h_a)
     \<and> list_all (\<lambda>j. \<not> (if g0 \<le> j \<and> j < g1 then ht_great ht else ht_perfect ht) ! j < h_a)
         (takeWhile (\<lambda>j. \<not> ts ! j \<ge> h_a) [a + 1..<stop])"

definition activation_reachable ::
    "nat \<Rightarrow> f64 \<Rightarrow> f32 list \<Rightarrow> hit_times \<Rightarrow> int list \<Rightarrow> f64 \<Rightarrow> nat \<times> nat \<times> nat \<times> nat \<Rightarrow> bool \<Rightarrow> bool res" where
  "activation_reachable a hit ts ht note_lanes denom bounds activation_great =
     (case bounds of (start, stop, great_start, great_count) \<Rightarrow>
      if stop < start \<or> \<not> (start \<le> a \<and> a < stop) then Inr False
      else if denom \<le> 0 then Inl ValueError
      else let total = length (ht_perfect ht)
      in if stop > total then Inr False
      else if length ts < total \<or> length (ht_perfect_floor ht) < total \<or> length (ht_great_floor ht) < total
              \<or> length (ht_great ht) < total \<or> length note_lanes < total then Inl ValueError
      else if denom > of_nat (stop - start) then Inr False
      else let g0 = max great_start start; g1 = max (min (great_start + great_count) stop) g0;
               h_a = r32 hit;
               great = (activation_great \<or> g0 \<le> a \<and> a < g1);
               low = (if great then ht_great_floor ht else ht_perfect_floor ht) ! a;
               high = (if great then ht_great ht else ht_perfect ht) ! a
      in if h_a < low \<or> h_a > high then Inr False
      else let preactivation = a - start;
               great_before = min a g1 - max start g0;
               half = 2 * preactivation - great_before;
               fill_before = mul64 (1 / 2) (of_nat half)
      in if \<not> (fill_before < denom \<and> denom \<le> add64 fill_before (mul64 (1 / 2) (if great then 1 else 2))) then Inr False
      else if chart_prefix_legal ts ht a h_a start stop g0 g1 then Inr True
      else lane_prefix_reachable a h_a ht note_lanes (start, stop) (g0, g1) great (int preactivation, int great_before))"

section \<open>A Great run that fills the bar\<close>

fun first_reachable :: "(nat \<Rightarrow> (bool \<times> int) res) \<Rightarrow> nat list \<Rightarrow> (nat \<times> int) option res" where
  "first_reachable try [] = Inr None"
| "first_reachable try (e # es) =
     bind_res (try e) (\<lambda>(reached, token). if reached then Inr (Some (e, token)) else first_reachable try es)"

definition minimal_reachable_great_end ::
    "nat \<Rightarrow> nat \<Rightarrow> nat \<Rightarrow> f64 \<Rightarrow> f32 list \<Rightarrow> hit_times \<Rightarrow> int list \<Rightarrow> nat \<Rightarrow> (nat \<times> int) option res" where
  "minimal_reachable_great_end a section_start run_start denom ts ht note_lanes n =
     (let hit_hi = ht_great ht ! a;
          max_end = a + 1 + length (takeWhile (\<lambda>j. ht_perfect ht ! j < hit_hi) [a + 1..<n])
      in first_reachable (\<lambda>great_end.
           case late_great_activation_hit a ts ht run_start (great_end - run_start) n of
             None \<Rightarrow> Inr (False, - 1)
           | Some (hit, token) \<Rightarrow>
               map_sum id (\<lambda>reached. (reached, token))
                 (activation_reachable a hit ts ht note_lanes denom (section_start, n, run_start, great_end - run_start) True))
           [a + 1..<max_end + 1])"

text \<open>A family of sections: one activation with its run and hit, and how late its fever can end.\<close>

record section_family =
  sf_forced :: nat
  sf_activation :: nat
  sf_late :: bool
  sf_run_start :: nat
  sf_run_end :: nat
  sf_end :: nat
  sf_early_end :: nat
  sf_hit_lo :: f64
  sf_hit_hi :: f64

text \<open>The forced Greats of a region family are its run's length, set by the caller.\<close>

definition region_section :: "section_context \<Rightarrow> nat \<Rightarrow> nat \<Rightarrow> nat \<Rightarrow> section_family option res" where
  "region_section ctx section_start run_start k =
     (let ts = sc_ts ctx; ht = sc_times ctx; n = length ts; denom = sc_fill_denom ctx; rft = sc_fever_time ctx;
          ends = (\<lambda>hit a. (fever_end hit a (ht_perfect_floor ht) rft n, fever_end hit a (ht_great_floor ht) rft n))
      in case fill_crossing_run (int section_start) (int run_start) (int k) denom (int n) of
           None \<Rightarrow> Inr None
         | Some (crossing, True) \<Rightarrow>
             let a = nat crossing
             in bind_res (minimal_reachable_great_end a section_start run_start denom ts ht (sc_lanes ctx) n)
                  (\<lambda>r. case r of
                     None \<Rightarrow> Inr None
                   | Some (run_end, _) \<Rightarrow>
                       let count = run_end - run_start;
                           hit = (case late_great_activation_hit a ts ht run_start count n of None \<Rightarrow> 0 | Some (h, _) \<Rightarrow> h);
                           (stop, tail_stop) = ends hit a;
                           beaten = (case perfect_activation_hit a ts ht run_start count n of
                               None \<Rightarrow> False
                             | Some (p_hit, _) \<Rightarrow> stop \<le> fst (ends p_hit a) \<and> tail_stop \<le> snd (ends p_hit a))
                       in Inr (if beaten then None
                               else Some \<lparr>sf_forced = run_end - run_start, sf_activation = a, sf_late = True, sf_run_start = run_start,
                                 sf_run_end = run_end, sf_end = stop, sf_early_end = tail_stop,
                                 sf_hit_lo = ht_late_floor ht ! a, sf_hit_hi = hit\<rparr>))
         | Some (crossing, False) \<Rightarrow>
             let a = nat crossing; run_end = min n (run_start + k)
             in if run_end \<le> run_start then Inr None
                else
                  let count = run_end - run_start
                  in case perfect_activation_hit a ts ht run_start count n of
                       None \<Rightarrow> Inr None
                     | Some (hit, _) \<Rightarrow>
                         map_sum id (\<lambda>reached. if \<not> reached then None
                             else Some \<lparr>sf_forced = run_end - run_start, sf_activation = a, sf_late = False, sf_run_start = run_start,
                               sf_run_end = run_end, sf_end = fst (ends hit a), sf_early_end = snd (ends hit a),
                               sf_hit_lo = min (ts ! a) (ht_perfect ht ! a), sf_hit_hi = hit\<rparr>)
                           (activation_reachable a hit ts ht (sc_lanes ctx) denom (section_start, n, run_start, count) False))"

section \<open>The families of an action\<close>

text \<open>The last action's fill, start time and end.\<close>

type_synonym last_action = "int \<times> f64 \<times> int"

definition perfect_family ::
    "section_context \<Rightarrow> nat \<Rightarrow> nat \<Rightarrow> nat \<Rightarrow> nat \<Rightarrow> nat \<Rightarrow> int \<Rightarrow> last_action \<Rightarrow> (section_family list \<times> f64 \<times> int \<times> nat) res" where
  "perfect_family ctx section_start k fill count a slots previous =
     (let ts = sc_ts ctx; ht = sc_times ctx; n = length ts; rft = sc_fever_time ctx;
          found = perfect_activation_hit a ts ht section_start count n;
          start_time = (case found of None \<Rightarrow> ts ! a | Some (hit, _) \<Rightarrow> hit);
          e = (case found of None \<Rightarrow> - 1 | Some (hit, _) \<Rightarrow> int (fever_end hit a (ht_perfect_floor ht) rft n));
          eg_e = fever_end start_time a (ht_great_floor ht) rft n;
          crosses = (k = 0 \<or> int k \<le> slots \<and> sub64 (of_int slots) (mul64 (1 / 2) (of_nat k)) < sc_fill_denom ctx)
      in if found \<noteq> None \<and> crosses
            \<and> (case previous of (prev_fill, prev_start, prev_e) \<Rightarrow> int fill \<noteq> prev_fill \<or> (start_time \<noteq> prev_start \<and> e \<noteq> prev_e))
         then map_sum id (\<lambda>reached.
                (if reached then
                   [\<lparr>sf_forced = k, sf_activation = a, sf_late = False, sf_run_start = section_start,
                     sf_run_end = min n (section_start + count), sf_end = nat e, sf_early_end = eg_e,
                     sf_hit_lo = min (ts ! a) (ht_perfect ht ! a), sf_hit_hi = start_time\<rparr>]
                 else [], start_time, e, eg_e))
              (activation_reachable a start_time ts ht (sc_lanes ctx) (sc_fill_denom ctx) (section_start, n, section_start, count) False)
         else Inr ([], start_time, e, eg_e))"

definition late_family ::
    "section_context \<Rightarrow> nat \<Rightarrow> nat \<Rightarrow> nat \<Rightarrow> nat \<Rightarrow> int \<Rightarrow> int \<Rightarrow> int \<Rightarrow> nat \<Rightarrow> section_family list res" where
  "late_family ctx section_start k fill a slots prev_fill e eg_e =
     (let ts = sc_ts ctx; ht = sc_times ctx; n = length ts; rft = sc_fever_time ctx; denom = sc_fill_denom ctx;
          before = min (max 0 (int k - 1)) (max 0 slots);
          bar_before = add64 (mul64 (1 / 2) (of_int before)) (of_int (slots - before))
      in if sc_forced_timing ctx \<and> prev_fill = int fill \<and> k > 0 \<and> slots \<ge> before \<and> bar_before < denom
            \<and> add64 bar_before (1 / 2) \<ge> denom
         then (case late_great_activation_hit a ts ht section_start (nat before) n of
                 None \<Rightarrow> Inr []
               | Some (hit, _) \<Rightarrow>
                   let late_e = fever_end hit a (ht_perfect_floor ht) rft n;
                       late_eg = fever_end hit a (ht_great_floor ht) rft n
                   in if int late_e > e \<or> late_eg > eg_e
                      then map_sum id (\<lambda>reached.
                             if reached then
                               [\<lparr>sf_forced = k, sf_activation = a, sf_late = True, sf_run_start = section_start,
                                 sf_run_end = min n (section_start + nat before), sf_end = late_e, sf_early_end = late_eg,
                                 sf_hit_lo = ht_late_floor ht ! a, sf_hit_hi = hit\<rparr>]
                             else [])
                           (activation_reachable a hit ts ht (sc_lanes ctx) denom (section_start, n, section_start, nat before) True)
                      else Inr [])
         else Inr [])"

definition region_families :: "section_context \<Rightarrow> nat \<Rightarrow> nat \<Rightarrow> bool \<Rightarrow> section_family list res" where
  "region_families ctx section_start k shifted =
     (if sc_forced_timing ctx \<and> k > 0
      then bind_res (region2_offset_for_count (int section_start) (int k) (sc_fill_denom ctx) (int (length (sc_ts ctx)))) (\<lambda>region2.
             map_sum id (\<lambda>found. concat (map (\<lambda>f. case f of None \<Rightarrow> [] | Some family \<Rightarrow> [family]) found))
               (map_res (\<lambda>offset. region_section ctx section_start (section_start + nat offset) k)
                 (filter (\<lambda>offset. offset > 0) [if shifted then 1 else - 1, if shifted \<and> region2 = 1 then - 1 else region2])))
      else Inr [])"

fun families_from ::
    "section_context \<Rightarrow> bool \<Rightarrow> nat \<Rightarrow> bool \<Rightarrow> (nat \<times> nat \<times> nat) list \<Rightarrow> last_action \<Rightarrow> section_family list res" where
  "families_from ctx first state shifted [] previous = Inr []"
| "families_from ctx first state shifted ((k, fill, count) # actions) previous =
     (let section_start = (if first then 0 else state + 1);
          a = (if first then fill else state + fill);
          slots = int fill - (if first then 0 else 1)
      in if a \<ge> length (sc_ts ctx) then Inr []
         else bind_res (perfect_family ctx section_start k fill count a slots previous) (\<lambda>(perfects, start_time, e, eg_e).
              bind_res (late_family ctx section_start k fill a slots (fst previous) e eg_e) (\<lambda>lates.
              bind_res (region_families ctx section_start k shifted) (\<lambda>regions.
              map_sum id (\<lambda>rest. perfects @ lates @ regions @ rest)
                (families_from ctx first state shifted actions (int fill, start_time, e))))))"

definition section_families :: "section_context \<Rightarrow> nat list \<Rightarrow> nat list \<Rightarrow> nat list \<Rightarrow> bool \<Rightarrow> nat \<Rightarrow> section_family list res" where
  "section_families ctx actions fills forced first state =
     (let section_start = (if first then 0 else state + 1);
          shifted = (has_shifted_head_region section_start (sc_fill_denom ctx) \<and> section_start + 1 < length (sc_ts ctx))
      in families_from ctx first state shifted (zip actions (zip fills forced)) (- 1, - 1, - 1))"

section \<open>The rows\<close>

record section_row =
  sr_forced :: nat
  sr_next :: nat
  sr_activation :: nat
  sr_late :: bool
  sr_run_start :: nat
  sr_run_count :: nat
  sr_tail_start :: int
  sr_tail_end :: int
  sr_target_end :: nat
  sr_early_exit :: bool

text \<open>A section's row, its edge and its witness hits.\<close>

type_synonym section_option = "section_row \<times> 64 word list \<times> f64 \<times> f64"

definition mask_hash :: "64 word \<Rightarrow> 64 word \<Rightarrow> 64 word \<Rightarrow> 64 word \<Rightarrow> 64 word" where
  "mask_hash w0 w1 w2 w3 =
     (let h = w0 * 0x9E3779B97F4A7C15;
          h = (h XOR drop_bit 29 h XOR w1) * 0xBF58476D1CE4E5B9;
          h = (h XOR drop_bit 31 h XOR w2) * 0x94D049BB133111EB;
          h = (h XOR drop_bit 29 h XOR w3) * 0x9E3779B97F4A7C15
      in h XOR drop_bit 32 h)"

text \<open>The columns that name a section: all but its forced Greats and its witness.\<close>

definition section_key :: "section_row \<Rightarrow> nat \<times> nat \<times> bool \<times> nat \<times> nat \<times> int \<times> int" where
  "section_key row = (sr_next row, sr_activation row, sr_late row, sr_run_start row, sr_run_count row, sr_tail_start row, sr_tail_end row)"

definition same_section :: "section_row \<Rightarrow> section_row \<Rightarrow> bool" where
  "same_section row other \<longleftrightarrow> section_key row = section_key other"

definition row_hash :: "section_row \<Rightarrow> 64 word" where
  "row_hash row = mask_hash (of_nat (sr_next row))
     (of_nat (sr_activation row) OR push_bit 32 (if sr_late row then 1 else 0))
     (of_nat (sr_run_start row) OR push_bit 32 (of_nat (sr_run_start row + sr_run_count row)))
     (of_int (sr_tail_start row + 1) OR push_bit 32 (of_int (sr_tail_end row + 1)))"

text \<open>Open addressing: from the row's slot on, the first slot that is free or whose row is the same section.\<close>

partial_function (option) find_slot :: "nat option list \<Rightarrow> section_option list \<Rightarrow> section_row \<Rightarrow> nat \<Rightarrow> (nat \<times> bool) option" where
  "find_slot slots store row slot =
     (case slots ! slot of
        None \<Rightarrow> Some (slot, False)
      | Some index \<Rightarrow> if same_section (fst (store ! index)) row then Some (slot, True)
                       else find_slot slots store row (Suc slot mod length slots))"

type_synonym row_store = "section_option list \<times> nat option list"

definition section_option_of :: "int \<Rightarrow> section_family \<times> nat \<times> int \<times> int \<times> nat \<times> bool \<times> f64 \<Rightarrow> section_option" where
  "section_option_of n = (\<lambda>(f, next_state, tail_start, tail_end, target_end, early_exit, hit_lo).
     (\<lparr>sr_forced = sf_forced f, sr_next = next_state, sr_activation = sf_activation f, sr_late = sf_late f,
        sr_run_start = sf_run_start f, sr_run_count = sf_run_end f - sf_run_start f, sr_tail_start = tail_start,
        sr_tail_end = tail_end, sr_target_end = target_end, sr_early_exit = early_exit\<rparr>,
      pack_edge_eg n (int (sf_activation f)) (int next_state) (int (sf_run_start f)) (int (sf_run_end f))
        (if sf_late f then int (sf_activation f) else - 1) tail_start tail_end,
      hit_lo, sf_hit_hi f))"

definition emit :: "int \<Rightarrow> section_family \<Rightarrow> nat \<times> int \<times> int \<times> nat \<times> bool \<times> f64 \<Rightarrow> row_store \<Rightarrow> row_store option" where
  "emit n f sec = (\<lambda>(store, slots).
     let x = section_option_of n (f, sec)
     in map_option (\<lambda>(slot, known).
          if known then (store, slots) else (store @ [x], slots[slot := Some (length store)]))
        (find_slot slots store (fst x) (unat (row_hash (fst x)) mod length slots)))"

text \<open>A family's sections: to its end, then one per later end its early tail reaches, then the early exits.\<close>

definition early_exit_of :: "section_context \<Rightarrow> section_family \<Rightarrow> f64 \<times> nat" where
  "early_exit_of ctx f =
     (let low = (if sf_late f then ht_late_floor (sc_times ctx) else ht_perfect_floor (sc_times ctx)) ! sf_activation f
      in (low, min (max (exit_bound_from (sc_exit_ceiling ctx) (add64 low (sc_fever_time ctx))) (sf_activation f + 1)) (sf_end f)))"

definition family_sections :: "section_context \<Rightarrow> section_family \<Rightarrow> (nat \<times> int \<times> int \<times> nat \<times> bool \<times> f64) list" where
  "family_sections ctx f =
     (case early_exit_of ctx f of (low, exit) \<Rightarrow>
        [(sf_end f, - 1, - 1, sf_end f, False, sf_hit_lo f)]
        @ map (\<lambda>e. (e, int (sf_end f), int e, sf_end f, False, sf_hit_lo f)) [sf_end f + 1..<sf_early_end f + 1]
        @ map (\<lambda>e. (e, - 1, - 1, e, True, low)) [exit..<sf_end f])"

function table_size :: "nat \<Rightarrow> nat \<Rightarrow> nat" where
  "table_size rows slots = (if slots < 2 * rows \<and> 0 < slots then table_size rows (2 * slots) else slots)"
  by auto
termination by (relation "measure (\<lambda>(rows, slots). 2 * rows - slots)") auto

declare table_size.simps [simp del]

definition section_rows :: "section_context \<Rightarrow> nat list \<Rightarrow> nat list \<Rightarrow> nat list \<Rightarrow> bool \<Rightarrow> nat \<Rightarrow> section_option list res option" where
  "section_rows ctx actions fills forced first state =
     (case section_families ctx actions fills forced first state of
        Inl e \<Rightarrow> Some (Inl e)
      | Inr families \<Rightarrow>
          let sections = concat (map (\<lambda>f. map (Pair f) (family_sections ctx f)) families)
          in map_option (\<lambda>(store, slots). Inr store)
               (fold (\<lambda>(f, sec) st. Option.bind st (emit (int (length (sc_ts ctx))) f sec)) sections
                  (Some ([], replicate (table_size (length sections) 2) None))))"

declare find_slot.simps [code]

section \<open>Where a family's notes are\<close>

definition family_wf :: "nat \<Rightarrow> nat \<Rightarrow> section_family \<Rightarrow> bool" where
  "family_wf n start f \<longleftrightarrow>
     start \<le> sf_activation f \<and> sf_activation f < n \<and> start \<le> sf_run_start f \<and> sf_run_start f \<le> sf_run_end f
     \<and> sf_run_end f \<le> n \<and> sf_activation f < sf_end f \<and> sf_end f \<le> n \<and> sf_early_end f \<le> n"

lemma fever_end_bounds [simp]:
  "a < n \<Longrightarrow> a < fever_end hit a floor_ts rft n" "fever_end hit a floor_ts rft n \<le> n"
  by (auto simp: fever_end_def)

lemma reachable_inside:
  "activation_reachable a hit ts ht note_lanes denom (start, stop, gs, gc) great = Inr True \<Longrightarrow> start \<le> a \<and> a < stop"
  by (auto simp: activation_reachable_def split: if_splits)

lemma map_sum_id_eq_Inr [simp]: "map_sum id f r = Inr y \<longleftrightarrow> (\<exists>x. r = Inr x \<and> y = f x)"
  by (cases r) auto

lemma perfect_family_wf:
  assumes "perfect_family ctx section_start k fill count a slots previous = Inr (fs, rest)" "f \<in> set fs"
  shows "family_wf (length (sc_ts ctx)) section_start f"
proof -
  let ?n = "length (sc_ts ctx)" let ?ht = "sc_times ctx"
  obtain hit token where found: "perfect_activation_hit a (sc_ts ctx) ?ht section_start count ?n = Some (hit, token)"
    using assms by (auto simp: perfect_family_def Let_def split: if_splits)
  have reached: "activation_reachable a hit (sc_ts ctx) ?ht (sc_lanes ctx) (sc_fill_denom ctx)
      (section_start, ?n, section_start, count) False = Inr True"
    and f: "f = \<lparr>sf_forced = k, sf_activation = a, sf_late = False, sf_run_start = section_start,
        sf_run_end = min ?n (section_start + count), sf_end = fever_end hit a (ht_perfect_floor ?ht) (sc_fever_time ctx) ?n,
        sf_early_end = fever_end hit a (ht_great_floor ?ht) (sc_fever_time ctx) ?n,
        sf_hit_lo = min (sc_ts ctx ! a) (ht_perfect ?ht ! a), sf_hit_hi = hit\<rparr>"
    using assms by (auto simp: perfect_family_def found Let_def split: if_splits)
  show ?thesis using reachable_inside [OF reached] by (simp add: f family_wf_def)
qed

lemma late_family_wf:
  assumes "late_family ctx section_start k fill a slots prev_fill e eg_e = Inr fs" "f \<in> set fs"
  shows "family_wf (length (sc_ts ctx)) section_start f"
proof -
  let ?n = "length (sc_ts ctx)" let ?ht = "sc_times ctx" let ?before = "nat (min (max 0 (int k - 1)) (max 0 slots))"
  let ?hit = "late_great_activation_hit a (sc_ts ctx) ?ht section_start ?before ?n"
  have "?hit \<noteq> None"
  proof
    assume none: "?hit = None"
    show False using assms unfolding late_family_def Let_def none by (auto split: if_splits)
  qed
  then obtain hit token where found: "?hit = Some (hit, token)" by auto
  have reached: "activation_reachable a hit (sc_ts ctx) ?ht (sc_lanes ctx) (sc_fill_denom ctx)
      (section_start, ?n, section_start, ?before) True = Inr True"
    and f: "f = \<lparr>sf_forced = k, sf_activation = a, sf_late = True, sf_run_start = section_start,
        sf_run_end = min ?n (section_start + ?before), sf_end = fever_end hit a (ht_perfect_floor ?ht) (sc_fever_time ctx) ?n,
        sf_early_end = fever_end hit a (ht_great_floor ?ht) (sc_fever_time ctx) ?n,
        sf_hit_lo = ht_late_floor ?ht ! a, sf_hit_hi = hit\<rparr>"
    using assms unfolding late_family_def Let_def found by (auto split: if_splits)
  show ?thesis using reachable_inside [OF reached] by (simp add: f family_wf_def)
qed

lemma first_reachable_Some:
  "first_reachable try es = Inr (Some (e, token)) \<Longrightarrow> e \<in> set es \<and> try e = Inr (True, token)"
  by (induction es) (auto simp: bind_res_eq_Inr split: if_splits)

lemma minimal_great_end_bounds:
  assumes "minimal_reachable_great_end a section_start run_start denom ts ht note_lanes n = Inr (Some (e, token))"
  shows "section_start \<le> a \<and> a < e \<and> e \<le> n"
proof -
  let ?max = "a + 1 + length (takeWhile (\<lambda>j. ht_perfect ht ! j < ht_great ht ! a) [a + 1..<n])"
  have e: "a < e" "e \<le> ?max" and "section_start \<le> a \<and> a < n"
    using first_reachable_Some [OF assms [unfolded minimal_reachable_great_end_def Let_def]]
    by (auto split: option.splits prod.splits dest: reachable_inside)
  moreover have "?max \<le> n"
    using length_takeWhile_le [of "\<lambda>j. ht_perfect ht ! j < ht_great ht ! a" "[a + 1..<n]"] \<open>section_start \<le> a \<and> a < n\<close>
    by simp linarith
  ultimately show ?thesis by linarith
qed

lemma crossing_in_run:
  assumes "fill_crossing_run start great_run_start k denom n = Some (c, True)"
  shows "great_run_start \<le> c"
  using assms by (auto simp: fill_crossing_run_def Let_def split: if_splits)

lemma region_section_wf:
  assumes "region_section ctx section_start run_start k = Inr (Some f)" "section_start \<le> run_start"
  shows "family_wf (length (sc_ts ctx)) section_start f"
proof -
  let ?n = "length (sc_ts ctx)" let ?ht = "sc_times ctx"
  let ?crossing = "fill_crossing_run (int section_start) (int run_start) (int k) (sc_fill_denom ctx) (int ?n)"
  have "?crossing \<noteq> None"
  proof
    assume none: "?crossing = None"
    show False using assms(1) unfolding region_section_def Let_def none by simp
  qed
  then consider (great) c where "?crossing = Some (c, True)" | (perfect) c where "?crossing = Some (c, False)"
    by (metis (full_types) not_None_eq surj_pair)
  then show ?thesis
  proof cases
    case (great c)
    note region = assms(1) [unfolded region_section_def Let_def great option.case prod.case bool.case]
    let ?run_stop = "minimal_reachable_great_end (nat c) section_start run_start (sc_fill_denom ctx) (sc_ts ctx) ?ht (sc_lanes ctx) ?n"
    have "?run_stop \<noteq> Inl err" for err
    proof
      assume none: "?run_stop = Inl err"
      show False using region unfolding none by simp
    qed
    moreover have "?run_stop \<noteq> Inr None"
    proof
      assume none: "?run_stop = Inr None"
      show False using region unfolding none by simp
    qed
    ultimately obtain e token where e: "?run_stop = Inr (Some (e, token))" by (metis option.exhaust sumE surj_pair)
    note region = region [unfolded e bind_res_simps option.case prod.case fst_conv snd_conv]
    have f: "sf_activation f = nat c \<and> sf_run_start f = run_start \<and> sf_run_end f = e
        \<and> (\<exists>hit. sf_end f = fever_end hit (nat c) (ht_perfect_floor ?ht) (sc_fever_time ctx) ?n
            \<and> sf_early_end f = fever_end hit (nat c) (ht_great_floor ?ht) (sc_fever_time ctx) ?n)"
      using region by (simp split: if_splits) (auto intro: exI)
    have "run_start \<le> nat c" using crossing_in_run [of "int section_start" "int run_start"] great by fastforce
    with f minimal_great_end_bounds [OF e] assms(2) show ?thesis by (auto simp: family_wf_def)
  next
    case (perfect c)
    note region = assms(1) [unfolded region_section_def Let_def perfect option.case prod.case bool.case]
    obtain hit where "sf_activation f = nat c" "sf_run_start f = run_start" "sf_run_end f = min ?n (run_start + k)"
        "\<not> sf_run_end f \<le> run_start" "sf_end f = fever_end hit (nat c) (ht_perfect_floor ?ht) (sc_fever_time ctx) ?n"
        "sf_early_end f = fever_end hit (nat c) (ht_great_floor ?ht) (sc_fever_time ctx) ?n"
        "activation_reachable (nat c) hit (sc_ts ctx) ?ht (sc_lanes ctx) (sc_fill_denom ctx)
           (section_start, ?n, run_start, min ?n (run_start + k) - run_start) False = Inr True"
      using region by (auto simp del: One_nat_def split: option.splits if_splits)
    then show ?thesis using reachable_inside assms(2) by (fastforce simp: family_wf_def)
  qed
qed

lemma region_families_wf:
  assumes "region_families ctx section_start k shifted = Inr fs" "f \<in> set fs"
  shows "family_wf (length (sc_ts ctx)) section_start f"
proof -
  have "\<exists>run_start \<ge> section_start. region_section ctx section_start run_start k = Inr (Some f)"
    using assms by (auto simp: region_families_def bind_res_eq_Inr split: if_splits option.splits)
      (metis le_add1 le_SucI le_refl)+
  then show ?thesis using region_section_wf by blast
qed

lemma families_from_wf:
  assumes "families_from ctx first state shifted actions previous = Inr fs" "f \<in> set fs"
  shows "family_wf (length (sc_ts ctx)) (if first then 0 else state + 1) f"
  using assms
proof (induction actions arbitrary: previous fs)
  case (Cons action actions)
  obtain k fill count where "action = (k, fill, count)" by (cases action)
  with Cons.prems Cons.IH show ?case
    by (fastforce simp: Let_def bind_res_eq_Inr split: if_splits
          dest: perfect_family_wf late_family_wf region_families_wf)
qed simp

lemma families_from_past:
  "length (sc_ts ctx) \<le> state \<Longrightarrow> families_from ctx False state shifted actions previous = Inr []"
  by (cases actions) (auto simp: Let_def)

lemma section_families_wf:
  assumes "section_families ctx actions fills forced first state = Inr fs" "f \<in> set fs"
  shows "family_wf (length (sc_ts ctx)) (if first then 0 else state + 1) f"
  using families_from_wf assms unfolding section_families_def Let_def by blast

lemma section_families_past:
  "length (sc_ts ctx) \<le> state \<Longrightarrow> section_families ctx actions fills forced False state = Inr []"
  by (simp add: section_families_def families_from_past Let_def)

section \<open>The rows are the sections in order, each kept once\<close>

lemma row_hash_key: "same_section row other \<Longrightarrow> row_hash row = row_hash other"
  by (simp add: same_section_def section_key_def row_hash_def)

lemma same_section_sym: "same_section row other \<longleftrightarrow> same_section other row"
  by (auto simp: same_section_def)

text \<open>The slot a walk of \<open>d\<close> steps from slot \<open>s\<close> ends at.\<close>

definition slot_at :: "nat option list \<Rightarrow> nat \<Rightarrow> nat \<Rightarrow> nat" where
  "slot_at slots s d = (s + d) mod length slots"

definition stops_at :: "nat option list \<Rightarrow> section_option list \<Rightarrow> section_row \<Rightarrow> nat \<Rightarrow> bool" where
  "stops_at slots store row i \<longleftrightarrow>
     (case slots ! i of None \<Rightarrow> True | Some index \<Rightarrow> same_section (fst (store ! index)) row)"

lemma slot_at_Suc: "slot_at slots (Suc s mod length slots) d = slot_at slots s (Suc d)"
  by (simp add: slot_at_def mod_simps)

lemma find_slot_first_stop:
  assumes "s < length slots" "\<forall>e < d. \<not> stops_at slots store row (slot_at slots s e)"
    and "stops_at slots store row (slot_at slots s d)"
  shows "find_slot slots store row s = Some (slot_at slots s d, slots ! slot_at slots s d \<noteq> None)"
  using assms
proof (induction d arbitrary: s)
  case 0
  then show ?case
    by (subst find_slot.simps) (auto simp: stops_at_def slot_at_def split: option.splits)
next
  case (Suc d)
  have s: "slot_at slots s 0 = s" using Suc.prems(1) by (simp add: slot_at_def)
  obtain index where "slots ! s = Some index" "\<not> same_section (fst (store ! index)) row"
    using Suc.prems(2) [rule_format, of 0] unfolding s by (auto simp: stops_at_def split: option.splits)
  moreover have "find_slot slots store row (Suc s mod length slots)
      = Some (slot_at slots s (Suc d), slots ! slot_at slots s (Suc d) \<noteq> None)"
    using Suc.IH [of "Suc s mod length slots", unfolded slot_at_Suc] Suc.prems
      mod_less_divisor [OF order_le_less_trans [OF zero_le Suc.prems(1)], of "Suc s"] by auto
  ultimately show ?case by (subst find_slot.simps) simp
qed

text \<open>A stored row is found from its own slot on, with no free slot before it.\<close>

definition hash_place :: "nat option list \<Rightarrow> section_row \<Rightarrow> nat" where
  "hash_place slots row = unat (row_hash row) mod length slots"

definition rows_placed :: "section_option list \<Rightarrow> nat option list \<Rightarrow> bool" where
  "rows_placed store slots \<longleftrightarrow>
     (\<forall>i < length slots. \<forall>j. slots ! i = Some j \<longrightarrow> j < length store)
     \<and> (\<forall>j < length store. \<exists>d. slots ! slot_at slots (hash_place slots (fst (store ! j))) d = Some j
          \<and> (\<forall>e < d. slots ! slot_at slots (hash_place slots (fst (store ! j))) e \<noteq> None))
     \<and> length (filter (\<lambda>x. x \<noteq> None) slots) \<le> length store"

lemma free_slot:
  assumes "length (filter (\<lambda>x. x \<noteq> None) slots) < length slots"
  shows "\<exists>i < length slots. slots ! i = None"
proof (rule ccontr)
  assume "\<not> ?thesis"
  then have "filter (\<lambda>x. x \<noteq> None) slots = slots" by (auto simp: filter_id_conv in_set_conv_nth)
  then show False using assms by simp
qed

lemma slot_reached:
  assumes "s < length slots" "i < length slots"
  shows "\<exists>d. slot_at slots s d = i"
proof (cases "s \<le> i")
  case True
  then show ?thesis using assms by (intro exI [of _ "i - s"]) (simp add: slot_at_def)
next
  case False
  then show ?thesis using assms by (intro exI [of _ "length slots - s + i"]) (simp add: slot_at_def)
qed

lemma find_slot_known:
  assumes placed: "rows_placed store slots" and room: "length store < length slots"
  obtains d where
    "find_slot slots store row (hash_place slots row)
       = Some (slot_at slots (hash_place slots row) d, \<exists>x \<in> set store. same_section (fst x) row)"
    "slots ! slot_at slots (hash_place slots row) d \<noteq> None \<longleftrightarrow> (\<exists>x \<in> set store. same_section (fst x) row)"
    "\<forall>e < d. slots ! slot_at slots (hash_place slots row) e \<noteq> None"
proof -
  define s where "s = hash_place slots row"
  have s: "s < length slots" using room by (auto simp: s_def hash_place_def intro: mod_less_divisor)
  let ?stop = "\<lambda>d. stops_at slots store row (slot_at slots s d)"
  have inside: "slot_at slots s d < length slots" for d
    using room by (auto simp: slot_at_def intro: mod_less_divisor)
  have "length (filter (\<lambda>x. x \<noteq> None) slots) < length slots" using placed room by (simp add: rows_placed_def)
  from free_slot [OF this] obtain i where "i < length slots" "slots ! i = None" by blast
  with slot_reached [OF s] have "\<exists>d. ?stop d" by (metis option.simps(4) stops_at_def)
  then obtain d where d: "?stop d" "\<forall>e < d. \<not> ?stop e" using exists_least_iff [of ?stop] by blast
  have before: "\<forall>e < d. slots ! slot_at slots s e \<noteq> None"
    using d(2) by (auto simp: stops_at_def split: option.splits)
  have known: "slots ! slot_at slots s d \<noteq> None \<longleftrightarrow> (\<exists>x \<in> set store. same_section (fst x) row)"
  proof
    assume "slots ! slot_at slots s d \<noteq> None"
    then obtain j where j: "slots ! slot_at slots s d = Some j" by blast
    then have "same_section (fst (store ! j)) row" "j < length store"
      using d(1) placed inside [of d] by (auto simp: stops_at_def rows_placed_def)
    then show "\<exists>x \<in> set store. same_section (fst x) row" by auto
  next
    assume "\<exists>x \<in> set store. same_section (fst x) row"
    then obtain j where j: "j < length store" "same_section (fst (store ! j)) row" by (metis in_set_conv_nth)
    have "hash_place slots (fst (store ! j)) = s" using row_hash_key [OF j(2)] by (simp add: s_def hash_place_def)
    then obtain d' where d': "slots ! slot_at slots s d' = Some j" "\<forall>e < d'. slots ! slot_at slots s e \<noteq> None"
      using placed j(1) by (auto simp: rows_placed_def)
    then have "?stop d'" using j(2) by (simp add: stops_at_def)
    then have "d \<le> d'" using d(2) by (meson not_le)
    then show "slots ! slot_at slots s d \<noteq> None" using d' by (cases "d = d'") auto
  qed
  show thesis
    using that [of d] find_slot_first_stop [OF s d(2) d(1)] known before unfolding s_def [symmetric] by simp
qed

lemma filter_update_le: "length (filter P (xs[i := x])) \<le> Suc (length (filter P xs))"
proof (induction xs arbitrary: i)
  case (Cons y ys)
  then show ?case by (cases i) simp_all
qed simp

lemma rows_placed_add:
  assumes placed: "rows_placed store slots" and room: "length store < length slots"
    and free: "slots ! slot_at slots (hash_place slots (fst x)) d = None"
    and before: "\<forall>e < d. slots ! slot_at slots (hash_place slots (fst x)) e \<noteq> None"
  shows "rows_placed (store @ [x]) (slots[slot_at slots (hash_place slots (fst x)) d := Some (length store)])"
proof -
  define i where "i = slot_at slots (hash_place slots (fst x)) d"
  have i: "i < length slots" "slots ! i = None"
    using room free by (auto simp: i_def slot_at_def intro: mod_less_divisor)
  let ?slots = "slots[i := Some (length store)]"
  have place: "hash_place ?slots = hash_place slots" "slot_at ?slots = slot_at slots"
    by (auto simp: hash_place_def slot_at_def fun_eq_iff)
  have kept: "?slots ! k = slots ! k" if "slots ! k \<noteq> None" for k using that i by (metis nth_list_update_neq)
  have new: "?slots ! k \<noteq> None" if "slots ! k \<noteq> None" for k using that kept by simp
  have "\<exists>d. ?slots ! slot_at slots (hash_place slots (fst ((store @ [x]) ! j))) d = Some j
      \<and> (\<forall>e < d. ?slots ! slot_at slots (hash_place slots (fst ((store @ [x]) ! j))) e \<noteq> None)"
    if j: "j < length (store @ [x])" for j
  proof (cases "j = length store")
    case True
    then show ?thesis using i(1) before new by (intro exI [of _ d]) (auto simp: i_def [symmetric])
  next
    case False
    then have "j < length store" using j by simp
    then obtain d' where "slots ! slot_at slots (hash_place slots (fst (store ! j))) d' = Some j"
      "\<forall>e < d'. slots ! slot_at slots (hash_place slots (fst (store ! j))) e \<noteq> None"
      using placed by (auto simp: rows_placed_def)
    then show ?thesis using kept new \<open>j < length store\<close> by (intro exI [of _ d']) (simp add: nth_append)
  qed
  moreover have "j < Suc (length store)" if "k < length slots" "?slots ! k = Some j" for k j
  proof (cases "k = i")
    case True
    then show ?thesis using that i by simp
  next
    case False
    then have "slots ! k = Some j" using that(2) by simp
    then have "j < length store" using placed that(1) unfolding rows_placed_def by blast
    then show ?thesis by simp
  qed
  moreover have "length (filter (\<lambda>x. x \<noteq> None) ?slots) \<le> Suc (length store)"
    using filter_update_le [of "\<lambda>x. x \<noteq> None" slots i "Some (length store)"] placed by (simp add: rows_placed_def)
  ultimately show ?thesis
    unfolding rows_placed_def i_def [symmetric] place by simp
qed


lemma emit_option:
  "emit n f sec (store, slots) =
     map_option (\<lambda>(slot, known). if known then (store, slots)
        else (store @ [section_option_of n (f, sec)], slots[slot := Some (length store)]))
       (find_slot slots store (fst (section_option_of n (f, sec))) (hash_place slots (fst (section_option_of n (f, sec)))))"
  by (simp add: emit_def hash_place_def Let_def)

lemma emit_placed:
  fixes n f sec
  defines "x \<equiv> section_option_of n (f, sec)"
  assumes "rows_placed store slots" "length store < length slots"
  obtains slots' where
    "emit n f sec (store, slots) = Some (if \<exists>y \<in> set store. section_key (fst y) = section_key (fst x) then store else store @ [x], slots')"
    "rows_placed (if \<exists>y \<in> set store. section_key (fst y) = section_key (fst x) then store else store @ [x]) slots'"
    "length slots' = length slots"
proof -
  let ?seen = "\<exists>y \<in> set store. same_section (fst y) (fst x)"
  let ?slot = "slot_at slots (hash_place slots (fst x))"
  from find_slot_known [OF assms(2,3), of "fst x"] obtain d where d:
    "find_slot slots store (fst x) (hash_place slots (fst x)) = Some (?slot d, ?seen)"
    "slots ! ?slot d \<noteq> None \<longleftrightarrow> ?seen" "\<forall>e < d. slots ! ?slot e \<noteq> None" by blast
  let ?slots = "if ?seen then slots else slots[?slot d := Some (length store)]"
  have "emit n f sec (store, slots) = Some (if ?seen then store else store @ [x], ?slots)"
    unfolding emit_option x_def [symmetric] d(1) by simp
  moreover have "rows_placed (if ?seen then store else store @ [x]) ?slots"
    using assms(2) rows_placed_add [OF assms(2,3) _ d(3)] d(2) by auto
  ultimately show thesis using that [of ?slots] unfolding same_section_def by simp
qed

text \<open>The first of the elements that share a key.\<close>

fun keep_first :: "('a \<Rightarrow> 'k) \<Rightarrow> 'a list \<Rightarrow> 'a list" where
  "keep_first key [] = []"
| "keep_first key (x # xs) = x # keep_first key (filter (\<lambda>y. key y \<noteq> key x) xs)"

text \<open>Kept after some rows: those that share no key with them.\<close>

abbreviation keep_new :: "('a \<Rightarrow> 'k) \<Rightarrow> 'a list \<Rightarrow> 'a list \<Rightarrow> 'a list" where
  "keep_new key kept xs \<equiv> keep_first key (filter (\<lambda>x. key x \<notin> key ` set kept) xs)"

lemma keep_new_Cons:
  "kept @ keep_new key kept (x # xs) =
     (if \<exists>y \<in> set kept. key y = key x then kept else kept @ [x])
       @ keep_new key (if \<exists>y \<in> set kept. key y = key x then kept else kept @ [x]) xs"
proof (cases "key x \<in> key ` set kept")
  case True
  then have "\<exists>y \<in> set kept. key y = key x" by force
  then show ?thesis using True by simp
next
  case False
  then have "\<not> (\<exists>y \<in> set kept. key y = key x)" by (metis imageI)
  moreover have "filter (\<lambda>y. key y \<noteq> key x) (filter (\<lambda>x. key x \<notin> key ` set kept) xs)
      = filter (\<lambda>y. key y \<notin> key ` set (kept @ [x])) xs" by (auto intro: filter_cong)
  ultimately show ?thesis using False by simp
qed

lemma fold_emit:
  assumes "rows_placed store slots" "length store + length sections \<le> length slots"
  shows "\<exists>slots'. fold (\<lambda>(f, sec) st. Option.bind st (emit n f sec)) sections (Some (store, slots))
    = Some (store @ keep_new (section_key \<circ> fst) store (map (section_option_of n) sections), slots')"
  using assms
proof (induction sections arbitrary: store slots)
  case (Cons x sections)
  obtain f sec where x: "x = (f, sec)" by (cases x)
  let ?x = "section_option_of n x"
  let ?store = "if \<exists>y \<in> set store. section_key (fst y) = section_key (fst ?x) then store else store @ [?x]"
  have room: "length store < length slots" using Cons.prems(2) by simp
  obtain slots' where new: "emit n f sec (store, slots) = Some (?store, slots')" "rows_placed ?store slots'" "length slots' = length slots"
    using emit_placed [OF Cons.prems(1) room, of n f sec] unfolding x by blast
  have "length ?store + length sections \<le> length slots'" using Cons.prems(2) new(3) by simp
  then obtain out where "fold (\<lambda>(f, sec) st. Option.bind st (emit n f sec)) sections (Some (?store, slots'))
      = Some (?store @ keep_new (section_key \<circ> fst) ?store (map (section_option_of n) sections), out)"
    using Cons.IH [OF new(2)] by blast
  moreover have "fold (\<lambda>(f, sec) st. Option.bind st (emit n f sec)) (x # sections) (Some (store, slots))
      = fold (\<lambda>(f, sec) st. Option.bind st (emit n f sec)) sections (Some (?store, slots'))"
    using new(1) by (simp only: x fold.simps comp_apply prod.case bind.simps)
  moreover note keep_new_Cons [of store "section_key \<circ> fst" ?x "map (section_option_of n) sections", unfolded comp_apply]
  ultimately show ?case by (simp only: list.map(2) comp_def) blast
qed simp

lemma table_size_room: "0 < slots \<Longrightarrow> rows \<le> table_size rows slots"
  by (induction rows slots rule: table_size.induct) (subst table_size.simps, auto)

lemma section_rows_eq [code]:
  "section_rows ctx actions fills forced first state =
     Some (map_sum id (\<lambda>families. keep_first (section_key \<circ> fst)
         (map (section_option_of (int (length (sc_ts ctx))))
            (concat (map (\<lambda>f. map (Pair f) (family_sections ctx f)) families))))
       (section_families ctx actions fills forced first state))"
proof (cases "section_families ctx actions fills forced first state")
  case (Inr families)
  let ?sections = "concat (map (\<lambda>f. map (Pair f) (family_sections ctx f)) families)"
  have "rows_placed [] (replicate m None)" for m by (auto simp: rows_placed_def)
  moreover have "length ([] :: section_option list) + length ?sections \<le> length (replicate (table_size (length ?sections) 2) (None :: nat option))"
    using table_size_room [of 2 "length ?sections"] by simp
  ultimately show ?thesis
    using fold_emit [of "[]" "replicate (table_size (length ?sections) 2) None" ?sections "int (length (sc_ts ctx))"]
    by (auto simp: section_rows_def Inr)
qed (simp add: section_rows_def)

text \<open>C16: the section rows are returned whatever the song: the open-addressed table always has a free slot, and
  the rows are the candidate sections in order, the first of those that share the named columns kept.\<close>

theorem section_rows_keep_first:
  "section_rows ctx actions fills forced first state =
     Some (map_sum id (\<lambda>families. keep_first (section_key \<circ> fst)
         (map (section_option_of (int (length (sc_ts ctx))))
            (concat (map (\<lambda>f. map (Pair f) (family_sections ctx f)) families))))
       (section_families ctx actions fills forced first state))"
  by (rule section_rows_eq)

section \<open>Where a row's notes are\<close>

text \<open>A row's notes are past its section's start, and its edge packs them.\<close>

definition row_edge :: "nat \<Rightarrow> section_row \<Rightarrow> 64 word list" where
  "row_edge n row = pack_edge_eg (int n) (int (sr_activation row)) (int (sr_next row)) (int (sr_run_start row))
     (int (sr_run_start row + sr_run_count row)) (if sr_late row then int (sr_activation row) else - 1)
     (sr_tail_start row) (sr_tail_end row)"

definition option_wf :: "nat \<Rightarrow> nat \<Rightarrow> section_option \<Rightarrow> bool" where
  "option_wf n start = (\<lambda>(row, edge, hit_lo, hit_hi).
     start \<le> sr_activation row \<and> sr_activation row < sr_next row \<and> sr_next row \<le> n
     \<and> start \<le> sr_run_start row \<and> sr_run_start row + sr_run_count row \<le> n
     \<and> (sr_tail_start row < sr_tail_end row \<longrightarrow>
          int (sr_activation row) < sr_tail_start row \<and> sr_tail_end row = int (sr_next row))
     \<and> edge = row_edge n row)"

lemma family_sections_cases:
  assumes "(next_state, tail_start, tail_end, target_end, early_exit, hit_lo) \<in> set (family_sections ctx f)" "sf_activation f < sf_end f"
  shows "sf_activation f < next_state \<and> (next_state \<le> sf_end f \<or> next_state \<le> sf_early_end f)
    \<and> (tail_start < tail_end \<longrightarrow> tail_start = int (sf_end f) \<and> tail_end = int next_state)"
proof -
  obtain low exit where exit: "early_exit_of ctx f = (low, exit)" by fastforce
  then have "sf_activation f < exit" using assms(2) by (auto simp: early_exit_of_def Let_def)
  then show ?thesis using assms unfolding family_sections_def exit prod.case by auto
qed

lemma section_option_wf:
  assumes "family_wf (length (sc_ts ctx)) start f" "sec \<in> set (family_sections ctx f)"
  shows "option_wf (length (sc_ts ctx)) start (section_option_of (int (length (sc_ts ctx))) (f, sec))"
proof -
  obtain a b c d e g where sec: "sec = (a, b, c, d, e, g)" by (cases sec)
  note wf = assms(1) [unfolded family_wf_def]
  have "sf_run_start f + (sf_run_end f - sf_run_start f) = sf_run_end f" using wf by simp
  moreover note family_sections_cases [OF assms(2) [unfolded sec]]
  ultimately show ?thesis
    using wf by (simp add: sec section_option_of_def option_wf_def row_edge_def) linarith
qed

lemma set_keep_first: "set (keep_first key xs) \<subseteq> set xs"
  by (induction key xs rule: keep_first.induct) auto

lemma section_rows_wf:
  assumes "section_rows ctx actions fills forced first state = Some (Inr rows)" "opt \<in> set rows"
  shows "option_wf (length (sc_ts ctx)) (if first then 0 else state + 1) opt"
proof -
  obtain families where families: "section_families ctx actions fills forced first state = Inr families"
    "opt \<in> set (map (section_option_of (int (length (sc_ts ctx)))) (concat (map (\<lambda>f. map (Pair f) (family_sections ctx f)) families)))"
    using assms set_keep_first by (fastforce simp: section_rows_eq)
  then obtain f sec where "f \<in> set families" "sec \<in> set (family_sections ctx f)"
    "opt = section_option_of (int (length (sc_ts ctx))) (f, sec)" by fastforce
  with section_option_wf section_families_wf [OF families(1)] show ?thesis by blast
qed

lemma section_rows_past:
  "length (sc_ts ctx) \<le> state \<Longrightarrow> section_rows ctx actions fills forced False state = Some (Inr [])"
  by (simp add: section_rows_eq section_families_past)

text \<open>The head notes an edge marks are the section's own.\<close>

lemma row_edge_bits:
  assumes "k < 128"
  shows "bit (row_edge n row ! (k div 64)) (k mod 64) \<longleftrightarrow>
      k < 100 \<and> k < n \<and> sr_activation row \<le> k \<and> k < sr_next row" (is ?fever)
    and "bit (row_edge n row ! (2 + k div 64)) (k mod 64) \<longleftrightarrow>
      k < 100 \<and> k < n \<and> (sr_run_start row \<le> k \<and> k < sr_run_start row + sr_run_count row
        \<or> sr_late row \<and> k = sr_activation row \<or> sr_tail_start row \<le> int k \<and> int k < sr_tail_end row)" (is ?great)
proof -
  consider "k div 64 = 0" "k mod 64 = k" "k < 64" | j where "k div 64 = 1" "k mod 64 = j" "k = 64 + j" "j < 64"
  proof (cases "k < 64")
    case False
    define j where "j = k - 64"
    have "k = 64 + j" "j < 64" using False assms by (simp_all add: j_def)
    moreover from this have "k div 64 = 1" "k mod 64 = j" by simp_all
    ultimately show thesis using that(2) by blast
  qed simp
  then have "?fever \<and> ?great"
    by cases (auto simp: row_edge_def pack_edge_eg_columns bit_or_iff range_mask_bits single_head_mask_bits)
  then show ?fever ?great by auto
qed

end
