(* ===== verification/GameData.thy ===== *)
theory GameData
  imports Prelude
begin

text \<open>
  gear_optimizer/rules.py and gear_optimizer/gamedata.py: the game's rules, its stat curves computed
  as the game computes them (float64, in the code's operation order), and Mini Ascension. A stat
  row is a dictionary from stat names to integers.
\<close>

section \<open>Rules\<close>

definition MAX_STAT :: int where "MAX_STAT = 160"
definition GEM_BUDGET :: int where "GEM_BUDGET = 90"
definition STAT_GEM_GAIN_NORMAL :: int where "STAT_GEM_GAIN_NORMAL = 2"
definition STAT_GEM_GAIN_FEVER :: int where "STAT_GEM_GAIN_FEVER = 3"
definition STAT_GEM_ELEMENT_GAIN :: int where "STAT_GEM_ELEMENT_GAIN = 3"
definition ELEMENT_GEM_GAIN :: int where "ELEMENT_GEM_GAIN = 6"

lemmas rules_defs = MAX_STAT_def GEM_BUDGET_def STAT_GEM_GAIN_NORMAL_def STAT_GEM_GAIN_FEVER_def
  STAT_GEM_ELEMENT_GAIN_def ELEMENT_GEM_GAIN_def

section \<open>Stats and items\<close>

type_synonym stats = "(string, int) dict"

definition ELEMENTS :: "string list" where
  "ELEMENTS = [''Chill'', ''Flow'', ''Rush'', ''Beat'', ''Vibe'']"

definition CURVE_STATS :: "string list" where
  "CURVE_STATS = [''Perfect Points'', ''Combo Multiplier'', ''Fever Multiplier'',
                  ''Fever Fill Rate'', ''Fever Time'']"

definition STATS :: "string list" where
  "STATS = CURVE_STATS @ ELEMENTS"

definition ASCENSION_LEVEL :: int where "ASCENSION_LEVEL = 10"
definition ASCENSION_PERFECT_POINTS :: int where "ASCENSION_PERFECT_POINTS = 2 * ASCENSION_LEVEL"

definition ASCENSION_COLOR_ORDER :: "string list" where
  "ASCENSION_COLOR_ORDER = [''Chill'', ''Vibe'', ''Beat'', ''Flow'', ''Rush'']"

definition empty_stats :: stats where
  "empty_stats = map (\<lambda>s. (s, 0)) STATS"

record gear =
  gear_name :: string
  slot :: string
  gear_stats :: stats
  perfect_time :: int

record mini =
  mini_name :: string
  mini_element :: string
  mini_stats :: stats
  level1_elements :: "(string, int) dict"
  song_targets :: "string set"

record song_mini =
  sm_name :: string
  sm_stats :: stats
  targets_song :: bool

section \<open>The stat curves\<close>

text \<open>Per curve stat its value at 0 .. MAX_STAT, in binary64 and rounded to binary32, and per Combo
  Multiplier value the multiplier at combos 1 .. 100.\<close>

record stat_curves =
  curve_f64 :: "(string, f64 list) dict"
  curve_f32 :: "(string, f32 list) dict"
  combo_ramp :: "f64 list list"

definition line :: "f64 \<Rightarrow> f64 \<Rightarrow> f64 \<Rightarrow> f64 \<Rightarrow> f64 \<Rightarrow> f64" where
  "line x1 y1 x2 y2 x =
     (let slope = div64 (sub64 y1 y2) (sub64 x1 x2)
      in add64 (mul64 slope x) (sub64 y1 (mul64 slope x1)))"

definition bezier :: "f64 \<Rightarrow> f64 \<Rightarrow> f64 \<Rightarrow> f64 \<Rightarrow> f64 \<Rightarrow> f64" where
  "bezier a b c d t =
     (let u = sub64 1 t
      in add64 (add64 (add64 (mul64 (mul64 (mul64 u u) u) a)
                             (mul64 (mul64 (mul64 (mul64 3 t) u) u) b))
                      (mul64 (mul64 (mul64 (mul64 3 t) t) u) c))
               (mul64 (mul64 (mul64 t t) t) d))"

definition lerp :: "f64 \<Rightarrow> f64 \<Rightarrow> f64 \<Rightarrow> f64" where
  "lerp a b t = add64 (mul64 (sub64 b a) t) a"

text \<open>A cubic Bezier from (0, 0) to (1, 1) with its ten chords' parameters and running lengths.\<close>

record ease =
  ease_y :: "f64 \<times> f64 \<times> f64 \<times> f64"
  ease_ts :: "f64 list"
  ease_lengths :: "f64 list"

fun ease_chords :: "nat \<Rightarrow> f64 \<times> f64 \<times> f64 \<times> f64 \<Rightarrow> f64 \<times> f64 \<times> f64 \<times> f64 \<Rightarrow>
    f64 list \<Rightarrow> f64 list \<Rightarrow> f64 list \<times> f64 list" where
  "ease_chords 0 (x2, x3, y2, y3) (x, y, t, len) ts lens = (ts, lens)"
| "ease_chords (Suc n) (x2, x3, y2, y3) (x, y, t, len) ts lens =
     (let t' = add64 t (r64 (1 / 10));
          nx = bezier 0 x2 x3 1 t'; ny = bezier 0 y2 y3 1 t';
          dx = sub64 nx x; dy = sub64 ny y;
          len' = add64 len (sqrt64 (add64 (mul64 dx dx) (mul64 dy dy)))
      in ease_chords n (x2, x3, y2, y3) (nx, ny, t', len') (ts @ [t']) (lens @ [len']))"

definition make_ease :: "f64 \<Rightarrow> f64 \<Rightarrow> f64 \<Rightarrow> f64 \<Rightarrow> ease" where
  "make_ease x2 y2 x3 y3 =
     (case ease_chords 10 (x2, x3, y2, y3) (0, 0, 0, 0) [0] [0] of
        (ts, lens) \<Rightarrow> \<lparr>ease_y = (0, y2, y3, 1), ease_ts = ts, ease_lengths = lens\<rparr>)"

text \<open>The code's \<open>math.floor(_lerp(lo, hi, 0.5))\<close> on two indices is their integer midpoint: every
  intermediate value is a float.\<close>

lemma lerp_mid:
  assumes "lo \<le> hi" "hi < 2 ^ 52"
  shows "\<lfloor>lerp (of_nat lo) (of_nat hi) (1 / 2)\<rfloor> = int ((lo + hi) div 2)"
proof -
  have "sub64 (of_nat hi) (of_nat lo) = of_int (int hi - int lo)"
    using r64_of_int [of "int hi - int lo"] assms by (simp add: sub64_def)
  then have "mul64 (sub64 (of_nat hi) (of_nat lo)) (1 / 2) = of_int (int hi - int lo) / 2"
    using r64_dyadic [of "int hi - int lo" 1] assms by (simp add: mul64_def)
  moreover have "of_int (int hi - int lo) / 2 + of_nat lo = (of_int (int hi + int lo) / 2 :: rat)"
    by (simp add: field_simps)
  ultimately have "lerp (of_nat lo) (of_nat hi) (1 / 2) = of_int (int hi + int lo) / 2"
    using r64_dyadic [of "int hi + int lo" 1] assms
    by (simp only: lerp_def add64_def) simp
  moreover have "\<lfloor>of_int (int hi + int lo) / (2::rat)\<rfloor> = (int hi + int lo) div 2"
    using floor_divide_of_int_eq [of "int hi + int lo" 2] by simp
  ultimately have "\<lfloor>lerp (of_nat lo) (of_nat hi) (1 / 2)\<rfloor> = (int hi + int lo) div 2" by (simp only:)
  then show ?thesis by (simp add: zdiv_int add.commute)
qed

text \<open>The bisection over the chords: \<open>lo\<close> and \<open>hi\<close> close in on the chord the target length is on.\<close>

function ease_bracket :: "f64 list \<Rightarrow> f64 \<Rightarrow> nat \<Rightarrow> nat \<Rightarrow> nat" where
  "ease_bracket lens target lo hi =
     (if hi - lo > 1
      then let mid = (lo + hi) div 2
           in if lens ! mid < target then ease_bracket lens target mid hi
              else ease_bracket lens target lo mid
      else lo)"
  by pat_completeness auto
termination
  by (relation "measure (\<lambda>(lens, target, lo, hi). hi - lo)") auto

declare ease_bracket.simps [simp del]

lemma ease_bracket_bounds: "lo < hi \<Longrightarrow> lo \<le> ease_bracket lens target lo hi \<and> ease_bracket lens target lo hi < hi"
proof (induction lens target lo hi rule: ease_bracket.induct)
  case (1 lens target lo hi)
  show ?case
  proof (cases "hi - lo > 1")
    case True
    then have "lo < (lo + hi) div 2" "(lo + hi) div 2 < hi" by linarith+
    with True 1 show ?thesis
      by (auto simp: ease_bracket.simps [of lens target lo hi] Let_def)
  next
    case False
    with 1 show ?thesis by (simp add: ease_bracket.simps [of lens target lo hi])
  qed
qed

definition ease_at :: "ease \<Rightarrow> f64 \<Rightarrow> f64" where
  "ease_at e fraction =
     (let lens = ease_lengths e; ts = ease_ts e; (ya, yb, yc, yd) = ease_y e;
          target = min (max (mul64 (last lens) fraction) 0) (last lens)
      in if target = last lens then bezier ya yb yc yd 1
         else let lo = ease_bracket lens target 0 (length lens - 1);
                  t = lerp (ts ! lo) (ts ! (lo + 1))
                        (div64 (sub64 target (lens ! lo)) (sub64 (lens ! (lo + 1)) (lens ! lo)))
              in bezier ya yb yc yd t)"


definition EASE_MINUS_80_40 :: ease where
  "EASE_MINUS_80_40 = make_ease (r64 (8 / 10)) 0 (r64 (9 / 10)) (r64 (8 / 10))"
definition EASE_MINUS_40_0 :: ease where
  "EASE_MINUS_40_0 = make_ease (r64 (4 / 10)) (r64 (1 / 10)) 1 (r64 (8 / 10))"
definition EASE_0_40 :: ease where
  "EASE_0_40 = make_ease 0 (r64 (4 / 10)) (r64 (7 / 10)) (r64 (9 / 10))"
definition EASE_40_80 :: ease where
  "EASE_40_80 = make_ease (r64 (2 / 10)) (r64 (1 / 10)) (r64 (4 / 10)) 1"
definition EASE_80_160 :: ease where
  "EASE_80_160 = make_ease 0 (1 / 2) (r64 (6 / 10)) 1"

definition stat_curve :: "f64 \<Rightarrow> f64 \<Rightarrow> f64 \<Rightarrow> int \<Rightarrow> f64" where
  "stat_curve a0 a40 a80 stat =
     (if stat = 0 then a0
      else if stat < 40 then lerp a0 a40 (ease_at EASE_0_40 (line 0 0 40 1 (of_int stat)))
      else if stat \<le> 80 then lerp a40 a80 (ease_at EASE_40_80 (line 40 0 80 1 (of_int stat)))
      else lerp a80 (add64 a80 (mul64 (sub64 a80 a40) (r64 (35 / 100))))
             (ease_at EASE_80_160 (line 80 0 160 1 (of_int stat))))"

definition signed_stat_curve :: "f64 \<Rightarrow> f64 \<Rightarrow> f64 \<Rightarrow> f64 \<Rightarrow> f64 \<Rightarrow> int \<Rightarrow> f64" where
  "signed_stat_curve a_minus80 a_minus40 a0 a40 a80 stat =
     (if 0 \<le> stat then stat_curve a0 a40 a80 stat
      else if - 40 < stat then
        lerp a_minus40 a0 (ease_at EASE_MINUS_40_0 (line (- 40) 0 0 1 (of_int stat)))
      else lerp a_minus80 a_minus40
             (ease_at EASE_MINUS_80_40 (line (- 80) 0 (- 40) 1 (of_int (max stat (- 80))))))"

text \<open>The combo ramp of one gain: the line through the thresholds 25, 50 and 100 at combos 1 .. 100.\<close>

definition COMBO_THRESHOLDS :: "int list" where "COMBO_THRESHOLDS = [25, 50, 100]"
definition COMBO_RAMP_NOTES :: nat where "COMBO_RAMP_NOTES = 100"

definition ramp_segment :: "int \<times> f64 \<Rightarrow> int \<times> f64 \<Rightarrow> f64 list" where
  "ramp_segment p q = (case (p, q) of ((x1, y1), (x2, y2)) \<Rightarrow>
     let slope = div64 (sub64 y1 y2) (of_int (x1 - x2));
         shift = sub64 y1 (mul64 slope (of_int x1))
     in map (\<lambda>c. add64 (mul64 slope (of_int c)) shift) [x1 + 1 .. x2])"

definition ramp_points :: "f64 \<Rightarrow> (int \<times> f64) list" where
  "ramp_points gain =
     (0, 1) # map (\<lambda>(t, share). (t, add64 1 (mul64 gain share)))
                (zip COMBO_THRESHOLDS [1 / 4, 1 / 2, 1])"

definition combo_ramp_row :: "f64 \<Rightarrow> f64 list" where
  "combo_ramp_row gain =
     (let points = ramp_points gain in concat (map (\<lambda>(p, q). ramp_segment p q) (zip points (tl points))))"

definition make_combo_ramp :: "f64 list \<Rightarrow> f64 list list" where
  "make_combo_ramp gains = map combo_ramp_row gains"

definition curves_of :: "(string, f64 list) dict \<Rightarrow> f64 list \<Rightarrow> stat_curves" where
  "curves_of f64s combo_gains =
     \<lparr>curve_f64 = f64s, curve_f32 = map (\<lambda>(stat, column). (stat, map r32 column)) f64s,
      combo_ramp = make_combo_ramp combo_gains\<rparr>"

definition curves_from_mapping :: "(string, f64 list) dict \<Rightarrow> stat_curves res" where
  "curves_from_mapping values =
     bind_res
       (fold_res (\<lambda>stat out. bind_res (lookup values stat) (\<lambda>column.
            if length column \<noteq> nat (MAX_STAT + 1) then Inl ValueError
            else Inr (AList.update stat column out))) CURVE_STATS [])
       (\<lambda>f64s. bind_res (lookup f64s ''Combo Multiplier'')
            (\<lambda>column. Inr (curves_of f64s (map (\<lambda>v. sub64 v 1) column))))"

definition factor :: "stat_curves \<Rightarrow> string \<Rightarrow> int \<Rightarrow> f64 res" where
  "factor curves stat value =
     bind_res (lookup (curve_f64 curves) stat) (\<lambda>column. Inr (column ! nat (clamp 0 MAX_STAT value)))"

definition ramp_of :: "stat_curves \<Rightarrow> int \<Rightarrow> f64 list" where
  "ramp_of curves combo_multiplier = combo_ramp curves ! nat (clamp 0 MAX_STAT combo_multiplier)"

definition curve_values :: "f64 \<Rightarrow> f64 \<Rightarrow> f64 \<Rightarrow> f64 list" where
  "curve_values a0 a40 a80 = map (stat_curve a0 a40 a80) [0 .. MAX_STAT]"

definition game_stat_curves :: stat_curves where
  "game_stat_curves =
     (let gains = curve_values 1 (r64 (14 / 10)) (r64 (16 / 10))
      in curves_of
           [(''Perfect Points'', map (\<lambda>v. of_int \<lfloor>v\<rfloor>) (curve_values 200 350 450)),
            (''Combo Multiplier'', map (add64 1) gains),
            (''Fever Multiplier'', curve_values 3 (r64 (475 / 100)) (r64 (525 / 100))),
            (''Fever Fill Rate'', curve_values (r64 (333 / 1000)) (r64 (166 / 1000)) (r64 (1 / 10))),
            (''Fever Time'', curve_values (r64 (15 / 100)) (r64 (35 / 100)) (r64 (4 / 10)))]
           gains)"


section \<open>Perfect Time and Mini Ascension\<close>

definition perfect_time_of :: "string list \<Rightarrow> (string, gear) dict \<Rightarrow> int" where
  "perfect_time_of gear_names gears =
     sum_list (map (\<lambda>name. case map_of gears name of None \<Rightarrow> 0 | Some g \<Rightarrow> perfect_time g) gear_names)"

definition song_secondary :: "string \<Rightarrow> string option \<Rightarrow> string" where
  "song_secondary primary secondary =
     (case secondary of None \<Rightarrow> [] | Some s \<Rightarrow> if s = [] \<or> s = primary then [] else s)"

text \<open>A mini's two highest level-1 colors: a stable sort by falling value, the positive ones.\<close>

definition ranked_colors :: "mini \<Rightarrow> (string \<times> int) list" where
  "ranked_colors m =
     take 2 (filter (\<lambda>(color, value). value > 0)
       (sort_key (\<lambda>(color, value). - value)
         (map (\<lambda>color. (color, get_or (level1_elements m) color 0)) ASCENSION_COLOR_ORDER)))"

definition scaled_floor :: "int \<Rightarrow> f64 \<Rightarrow> int" where
  "scaled_floor value share = \<lfloor>mul64 (r64 (of_int (value * ASCENSION_LEVEL))) share\<rfloor>"

fun ascension_ranked :: "string \<Rightarrow> string \<Rightarrow> nat \<Rightarrow> (string \<times> int) list \<Rightarrow>
    int \<times> (string, int) dict \<Rightarrow> int \<times> (string, int) dict" where
  "ascension_ranked primary secondary position [] acc = acc"
| "ascension_ranked primary secondary position ((color, value) # rest) (pool, bonus) =
     (let pool' = pool + scaled_floor value (1 / 2);
          share = (if color = primary then Some (if position = 0 then 1 / 2 else 1 / 4)
                   else if secondary \<noteq> [] \<and> color = secondary
                   then Some (if position = 0 then 1 / 4 else 1 / 2)
                   else None);
          bonus' = (case share of None \<Rightarrow> bonus
                    | Some s \<Rightarrow> AList.update color (get_or bonus color 0 + scaled_floor value s) bonus)
      in ascension_ranked primary secondary (Suc position) rest (pool', bonus'))"

definition ascension_element_bonus :: "mini \<Rightarrow> string \<Rightarrow> string \<Rightarrow> (string, int) dict res" where
  "ascension_element_bonus m primary secondary0 =
     (if primary \<notin> set ELEMENTS then Inl ValueError
      else
        let secondary = song_secondary primary (Some secondary0);
            (pool, bonus) = ascension_ranked primary secondary 0 (ranked_colors m) (0, []);
            split = (if secondary \<noteq> []
                     then [(primary, \<lfloor>r64 (of_int (pool * 2) / 3)\<rfloor>), (secondary, \<lfloor>r64 (of_int pool / 3)\<rfloor>)]
                     else [(primary, pool)]);
            bonus' = fold (\<lambda>(color, amount) b. AList.update color (get_or b color 0 + amount) b) split bonus
        in Inr (filter (\<lambda>(color, amount). amount \<noteq> 0) bonus'))"

definition ascended_mini_stats :: "mini \<Rightarrow> string \<Rightarrow> string \<Rightarrow> string \<Rightarrow> stats res" where
  "ascended_mini_stats m song_name primary secondary =
     bind_res (bump ''Perfect Points'' ASCENSION_PERFECT_POINTS (mini_stats m)) (\<lambda>stats.
       if song_name \<in> song_targets m
       then bind_res (ascension_element_bonus m primary secondary) (\<lambda>bonus.
              bumps bonus stats)
       else Inr stats)"

definition song_minis :: "mini list \<Rightarrow> string \<Rightarrow> string \<Rightarrow> string \<Rightarrow> song_mini list res" where
  "song_minis minis song_name primary secondary =
     (let song = py_strip song_name
      in if song = [] then Inl ValueError
         else map_res (\<lambda>m. bind_res (ascended_mini_stats m song primary secondary) (\<lambda>stats.
                Inr \<lparr>sm_name = mini_name m, sm_stats = stats, targets_song = song \<in> song_targets m\<rparr>)) minis)"

section \<open>The combo ramp is a multiplier of at least one\<close>

lemma ramp_segment_length: "x1 \<le> x2 \<Longrightarrow> length (ramp_segment (x1, y1) (x2, y2)) = nat (x2 - x1)"
  by (simp add: ramp_segment_def Let_def)

lemma combo_ramp_row_length: "length (combo_ramp_row gain) = COMBO_RAMP_NOTES"
  by (simp add: combo_ramp_row_def ramp_points_def COMBO_THRESHOLDS_def ramp_segment_length
      COMBO_RAMP_NOTES_def Let_def)

lemma ramp_segmentE:
  assumes "v \<in> set (ramp_segment (x1, y1) (x2, y2))"
  obtains c where "x1 < c" "c \<le> x2"
    "v = add64 (mul64 (div64 (sub64 y1 y2) (of_int (x1 - x2))) (of_int c))
      (sub64 y1 (mul64 (div64 (sub64 y1 y2) (of_int (x1 - x2))) (of_int x1)))"
proof -
  from assms have "\<exists>c \<in> {x1 + 1..x2}. v = add64 (mul64 (div64 (sub64 y1 y2) (of_int (x1 - x2))) (of_int c))
      (sub64 y1 (mul64 (div64 (sub64 y1 y2) (of_int (x1 - x2))) (of_int x1)))"
    unfolding ramp_segment_def Let_def by (simp only: split_conv set_map set_upto image_iff)
  then obtain c where c: "c \<in> {x1 + 1..x2}"
    "v = add64 (mul64 (div64 (sub64 y1 y2) (of_int (x1 - x2))) (of_int c))
      (sub64 y1 (mul64 (div64 (sub64 y1 y2) (of_int (x1 - x2))) (of_int x1)))" ..
  show thesis by (rule that [OF _ _ c(2)]) (use c(1) in simp_all)
qed

text \<open>A segment that does not fall stays at least its left end's value, up to the rounding of the
  line's two terms.\<close>

lemma ramp_segment_ge:
  assumes "0 \<le> slope" "0 \<le> x1" "x1 \<le> c" "1 + 2 powi (- 50) \<le> y1" "y1 \<le> 4"
    "slope * of_int x1 \<le> 4"
  shows "1 \<le> add64 (mul64 slope (of_int c)) (sub64 y1 (mul64 slope (of_int x1)))"
proof -
  let ?p = "mul64 slope (of_int x1)" and ?s = "sub64 y1 (mul64 slope (of_int x1))"
  have p: "0 \<le> ?p" "?p \<le> 4"
  proof -
    show "0 \<le> ?p" using assms by (simp add: mul64_nonneg)
    have "?p \<le> r64 4" using assms(6) by (simp add: mul64_def r64_mono)
    then show "?p \<le> 4" using r64_of_int [of 4] by simp
  qed
  have "\<bar>y1 - ?p\<bar> \<le> 2 powi 2" using p assms(4,5) by (auto simp: abs_le_iff)
  then have "\<bar>?s - (y1 - ?p)\<bar> \<le> 2 powi (2 - 53)" unfolding sub64_def by (rule r64_error_abs) simp
  also have "\<dots> \<le> 2 powi (- 50)" by (simp only: powi_2_le_iff)
  finally have "\<bar>?s - (y1 - ?p)\<bar> \<le> 2 powi (- 50)" .
  then have "y1 - 2 powi (- 50) \<le> ?p + ?s" by linarith
  moreover have "?p \<le> mul64 slope (of_int c)"
    using assms by (intro mul64_mono) auto
  ultimately have "1 \<le> mul64 slope (of_int c) + ?s" using assms(4) by linarith
  then have "r64 1 \<le> add64 (mul64 slope (of_int c)) ?s" unfolding add64_def by (rule r64_mono)
  then show ?thesis using r64_of_int [of 1] by simp
qed


lemma ramp_segment_ge_1:
  assumes "v \<in> set (ramp_segment (x1, y1) (x2, y2))" "0 \<le> x1" "x1 \<le> 50" "x1 < x2" "x2 \<le> 100"
    "5 / 4 \<le> y1" "y1 \<le> y2" "y2 \<le> 3" "16 * (y2 - y1) \<le> of_int (x2 - x1)"
  shows "1 \<le> v"
proof -
  define d where "d = x2 - x1"
  have d: "0 < d" "d \<le> 100" "x1 - x2 = - d" using assms by (auto simp: d_def)
  let ?slope = "div64 (sub64 y1 y2) (of_int (x1 - x2))"
  have neg: "sub64 y1 y2 \<le> 0" using r64_mono [of "y1 - y2" 0] assms(7) by (simp add: sub64_def)
  have "r64 (- (of_int d / 2 ^ 4)) \<le> sub64 y1 y2"
    unfolding sub64_def using assms(9) by (intro r64_mono) (simp add: d_def field_simps)
  then have steep: "- of_int d \<le> 16 * sub64 y1 y2"
    using r64_dyadic [of d 4] d by simp
  have "0 \<le> sub64 y1 y2 / of_int (x1 - x2)" "sub64 y1 y2 / of_int (x1 - x2) \<le> 1 / 16"
    using neg steep d by (simp_all add: zero_le_divide_iff field_simps)
  then have slope: "0 \<le> ?slope" "?slope \<le> 1 / 16"
    using r64_mono [of "sub64 y1 y2 / of_int (x1 - x2)" "1 / 16"] r64_dyadic [of 1 4]
    by (simp_all add: div64_def r64_nonneg)
  have "?slope * of_int x1 \<le> 1 / 16 * 50"
    using slope assms(2,3) by (intro mult_mono) auto
  then have bound: "?slope * of_int x1 \<le> 4" by simp
  have "(2::rat) powi (- 50) \<le> 2 powi (- 2)" by (simp only: powi_2_le_iff)
  also have "\<dots> = 1 / 4" by (simp add: power_int_minus)
  finally have eps: "1 + 2 powi (- 50) \<le> y1" using assms(6) by linarith
  from assms(1) obtain c where c: "x1 < c"
    "v = add64 (mul64 ?slope (of_int c)) (sub64 y1 (mul64 ?slope (of_int x1)))"
    by (rule ramp_segmentE)
  show ?thesis unfolding c(2)
    by (rule ramp_segment_ge [OF slope(1) assms(2) _ eps _ bound]) (use c(1) assms(7,8) in simp_all)
qed

text \<open>The first segment starts at the multiplier one.\<close>

lemma ramp_first_segment_ge_1:
  assumes "v \<in> set (ramp_segment (0, 1) (x2, y2))" "1 \<le> y2" "0 < x2"
  shows "1 \<le> v"
proof -
  let ?slope = "div64 (sub64 1 y2) (of_int (0 - x2))"
  have neg: "sub64 1 y2 \<le> 0" using r64_mono [of "1 - y2" 0] assms(2) by (simp add: sub64_def)
  have slope: "0 \<le> ?slope"
    unfolding div64_def using assms(3) neg by (intro r64_nonneg) (simp add: divide_le_0_iff)
  from assms(1) obtain c where c: "0 < c"
    "v = add64 (mul64 ?slope (of_int c)) (sub64 1 (mul64 ?slope (of_int 0)))"
    by (rule ramp_segmentE)
  have "sub64 1 (mul64 ?slope (of_int 0)) = 1"
    using r64_of_int [of 1] by (simp add: sub64_def mul64_def)
  moreover have "1 \<le> add64 (mul64 ?slope (of_int c)) 1" if "0 \<le> c" for c
    using r64_mono [of 1 "mul64 ?slope (of_int c) + 1"] r64_of_int [of 1] slope that
    by (simp add: add64_def mul64_nonneg)
  ultimately show ?thesis using c by (simp only:)
qed

text \<open>The heights of a ramp's thresholds for a gain between one and two.\<close>

lemma ramp_heights:
  assumes "1 \<le> g" "g \<le> 2"
  defines "h \<equiv> \<lambda>share. add64 1 (mul64 g share)"
  shows "5 / 4 \<le> h (1 / 4)" "h (1 / 4) \<le> 3 / 2" "3 / 2 \<le> h (1 / 2)" "h (1 / 2) \<le> 2" "h 1 \<le> 3"
    "h (1 / 4) \<le> h (1 / 2)" "h (1 / 2) \<le> h 1"
proof -
  have ends: "r64 (1 + r64 s) \<le> h s \<and> h s \<le> r64 (1 + r64 (2 * s))" if "0 \<le> s" for s
  proof -
    have "r64 (1 * s) \<le> mul64 g s" "mul64 g s \<le> r64 (2 * s)"
      using assms(1,2) that unfolding mul64_def by (intro r64_mono mult_right_mono; simp)+
    then show ?thesis by (simp add: h_def add64_def r64_mono)
  qed
  have exact: "r64 (1 / 4) = 1 / 4" "r64 (1 / 2) = 1 / 2" "r64 1 = 1" "r64 2 = 2" "r64 3 = 3"
    "r64 (5 / 4) = 5 / 4" "r64 (3 / 2) = 3 / 2"
    using r64_dyadic [of 1 2] r64_dyadic [of 1 1] r64_of_int [of 1] r64_of_int [of 2] r64_of_int [of 3]
      r64_dyadic [of 5 2] r64_dyadic [of 3 1] by simp_all
  show "5 / 4 \<le> h (1 / 4)" "h (1 / 4) \<le> 3 / 2" "3 / 2 \<le> h (1 / 2)" "h (1 / 2) \<le> 2" "h 1 \<le> 3"
    using ends [of "1 / 4"] ends [of "1 / 2"] ends [of 1] by (simp_all add: exact)
  show "h (1 / 4) \<le> h (1 / 2)" "h (1 / 2) \<le> h 1"
    using assms(1) by (auto simp: h_def intro!: add64_mono mul64_mono)
qed

lemma combo_ramp_row_ge_1:
  assumes "1 \<le> g" "g \<le> 2" "v \<in> set (combo_ramp_row g)"
  shows "1 \<le> v"
proof -
  note h = ramp_heights [OF assms(1,2)]
  let ?h = "\<lambda>share. add64 1 (mul64 g share)"
  have row: "combo_ramp_row g = ramp_segment (0, 1) (25, ?h (1 / 4))
      @ ramp_segment (25, ?h (1 / 4)) (50, ?h (1 / 2)) @ ramp_segment (50, ?h (1 / 2)) (100, ?h 1)"
    by (simp add: combo_ramp_row_def ramp_points_def COMBO_THRESHOLDS_def Let_def)
  from assms(3) consider "v \<in> set (ramp_segment (0, 1) (25, ?h (1 / 4)))"
    | "v \<in> set (ramp_segment (25, ?h (1 / 4)) (50, ?h (1 / 2)))"
    | "v \<in> set (ramp_segment (50, ?h (1 / 2)) (100, ?h 1))"
    unfolding row set_append Un_iff by blast
  then show ?thesis
  proof cases
    case 1
    show ?thesis by (rule ramp_first_segment_ge_1 [OF 1]) (use h in simp_all)
  next
    case 2
    show ?thesis by (rule ramp_segment_ge_1 [OF 2]) (use h in simp_all)
  next
    case 3
    show ?thesis by (rule ramp_segment_ge_1 [OF 3]) (use h in simp_all)
  qed
qed

section \<open>Mini Ascension in integers\<close>

text \<open>The pool and shares of \<open>ascension_element_bonus\<close> are written with \<open>math.floor\<close> of a product or a
  quotient of doubles. Read as exact integer arithmetic: half of ten times a level-1 value is five
  times the value, a quarter is \<open>10 v div 4\<close>, and the pool splits by \<open>div 3\<close>.\<close>

definition exact_share :: "int \<Rightarrow> bool \<Rightarrow> int" where
  "exact_share v half = (if half then 5 * v else 10 * v div 4)"

text \<open>What the color at \<open>position\<close> adds of itself: a half when it stands where the song has it, a
  quarter when the two cross.\<close>

fun exact_extra :: "string \<Rightarrow> string \<Rightarrow> nat \<Rightarrow> (string \<times> int) list \<Rightarrow> string \<Rightarrow> int" where
  "exact_extra primary secondary position [] c = 0"
| "exact_extra primary secondary position ((color, v) # rest) c =
     (if c \<noteq> color then 0
      else if color = primary then exact_share v (position = 0)
      else if secondary \<noteq> [] \<and> color = secondary then exact_share v (position \<noteq> 0)
      else 0) + exact_extra primary secondary (Suc position) rest c"

definition exact_pool :: "(string \<times> int) list \<Rightarrow> int" where
  "exact_pool ranked = (\<Sum>(color, v)\<leftarrow>ranked. 5 * v)"

definition exact_pool_share :: "string \<Rightarrow> string \<Rightarrow> int \<Rightarrow> string \<Rightarrow> int" where
  "exact_pool_share primary secondary pool c =
     (if secondary = [] then (if c = primary then pool else 0)
      else if c = primary then 2 * pool div 3
      else if c = secondary then pool div 3 else 0)"

lemma scaled_floor_dyadic:
  assumes "0 \<le> v" "v \<le> 2 ^ 40" "k \<le> 2"
  shows "scaled_floor v (1 / 2 ^ k) = 10 * v div 2 ^ k"
proof -
  have n: "r64 (of_int (v * ASCENSION_LEVEL)) = of_int (10 * v)"
    using r64_of_int [of "10 * v"] assms by (simp add: ASCENSION_LEVEL_def mult.commute)
  have "r64 (of_int (10 * v) * (1 / 2 ^ k)) = of_int (10 * v) / of_int (2 ^ k)"
    using r64_dyadic [of "10 * v" k] assms by simp
  then show ?thesis unfolding scaled_floor_def n mul64_def by (simp only: floor_divide_of_int_eq)
qed

lemma scaled_floor_half: "0 \<le> v \<Longrightarrow> v \<le> 2 ^ 40 \<Longrightarrow> scaled_floor v (1 / 2) = 5 * v"
  using scaled_floor_dyadic [of v 1] by simp

lemma scaled_floor_quarter: "0 \<le> v \<Longrightarrow> v \<le> 2 ^ 40 \<Longrightarrow> scaled_floor v (1 / 4) = 10 * v div 4"
  using scaled_floor_dyadic [of v 2] by simp

lemma ascension_ranked_exact:
  assumes "\<forall>(color, v) \<in> set ranked. 0 \<le> v \<and> v \<le> 2 ^ 40" "wf_dict bonus"
    "ascension_ranked primary secondary position ranked (pool, bonus) = (pool', bonus')"
  shows "wf_dict bonus' \<and> pool' = pool + exact_pool ranked
    \<and> get_or bonus' c 0 = get_or bonus c 0 + exact_extra primary secondary position ranked c"
  using assms
proof (induction primary secondary position ranked "(pool, bonus)" arbitrary: pool bonus
    rule: ascension_ranked.induct)
  case 1
  then show ?case by (simp add: exact_pool_def)
next
  case (2 primary secondary position color v rest pool bonus)
  then show ?case
    by (auto simp: Let_def scaled_floor_half scaled_floor_quarter exact_share_def exact_pool_def
        get_or_update split: if_splits)
qed

lemma ranked_colors_bounds:
  assumes "\<forall>(color, v) \<in> set (level1_elements m). v \<le> b" "(color, v) \<in> set (ranked_colors m)"
  shows "0 < v" "v \<le> b" 
proof -
  have mem: "(color, v) \<in> set (filter (\<lambda>(color, value). value > 0)
       (sort_key (\<lambda>(color, value). - value)
         (map (\<lambda>color. (color, get_or (level1_elements m) color 0)) ASCENSION_COLOR_ORDER)))"
    using assms(2) unfolding ranked_colors_def by (rule in_set_takeD)
  then show "0 < v" by simp
  from mem have v: "v = get_or (level1_elements m) color 0" by auto
  with \<open>0 < v\<close> have "map_of (level1_elements m) color = Some v"
    by (auto simp: get_or_def split: option.splits)
  with assms(1) show "v \<le> b" by (auto dest: map_of_SomeD)
qed

lemma get_or_filter_nonzero:
  "wf_dict b \<Longrightarrow> get_or (filter (\<lambda>(c, n). n \<noteq> 0) b) c 0 = get_or b c (0::int)"
  by (induction b)
    (auto simp: get_or_def wf_dict_def image_iff dest!: map_of_SomeD split: option.splits)

lemma exact_pool_bounds:
  assumes "\<forall>(color, v) \<in> set ranked. 0 \<le> v \<and> v \<le> 2 ^ 40" "length ranked \<le> 2"
  shows "0 \<le> exact_pool ranked \<and> exact_pool ranked \<le> 2 ^ 44"
proof -
  consider "ranked = []" | a where "ranked = [a]" | a b where "ranked = [a, b]"
    using assms(2) by (cases ranked; cases "tl ranked") auto
  then show ?thesis using assms(1) by cases (auto simp: exact_pool_def)
qed

lemma song_secondary_neq: "song_secondary p s \<noteq> p \<or> song_secondary p s = []"
  by (auto simp: song_secondary_def split: option.splits)

lemma ascension_bonus_amounts:
  assumes "ascension_element_bonus m primary secondary = Inr bonus"
    and "\<forall>(color, v) \<in> set (level1_elements m). v \<le> 2 ^ 40"
  shows "get_or bonus c 0 =
    exact_pool_share primary (song_secondary primary (Some secondary)) (exact_pool (ranked_colors m)) c
    + exact_extra primary (song_secondary primary (Some secondary)) 0 (ranked_colors m) c"
proof -
  let ?sec = "song_secondary primary (Some secondary)"
  obtain pool b where run: "ascension_ranked primary ?sec 0 (ranked_colors m) (0, []) = (pool, b)"
    by fastforce
  have ranked: "\<forall>(color, v) \<in> set (ranked_colors m). 0 \<le> v \<and> v \<le> 2 ^ 40"
    using ranked_colors_bounds [OF assms(2)] by (auto intro: less_imp_le)
  then have b: "wf_dict b" "pool = exact_pool (ranked_colors m)"
    "\<And>c. get_or b c 0 = exact_extra primary ?sec 0 (ranked_colors m) c"
    using ascension_ranked_exact [OF ranked _ run] by (auto simp: get_or_def)
  have "length (ranked_colors m) \<le> 2" by (simp add: ranked_colors_def)
  then have pool: "0 \<le> pool" "pool \<le> 2 ^ 44" using exact_pool_bounds [OF ranked] b(2) by auto
  have thirds: "\<lfloor>r64 (of_int (pool * 2) / 3)\<rfloor> = 2 * pool div 3" "\<lfloor>r64 (of_int pool / 3)\<rfloor> = pool div 3"
    using floor_r64_div [of "pool * 2" 3] floor_r64_div [of pool 3] pool by (simp_all add: mult.commute)
  have split: "get_or (filter (\<lambda>(color, amount). amount \<noteq> 0) (fold (\<lambda>(color, amount) b.
        AList.update color (get_or b color 0 + amount) b) parts b)) c 0
      = get_or b c 0 + (\<Sum>(color, amount)\<leftarrow>parts. if color = c then amount else 0)" for parts
    using b(1)
  proof (induction parts arbitrary: b)
    case Nil
    then show ?case by (simp add: get_or_filter_nonzero)
  next
    case (Cons part parts)
    then show ?case by (cases part) (simp add: get_or_update)
  qed
  define parts where "parts = (if ?sec \<noteq> []
    then [(primary, \<lfloor>r64 (of_int (pool * 2) / 3)\<rfloor>), (?sec, \<lfloor>r64 (of_int pool / 3)\<rfloor>)]
    else [(primary, pool)])"
  have "bonus = filter (\<lambda>(color, amount). amount \<noteq> 0) (fold (\<lambda>(color, amount) b.
        AList.update color (get_or b color 0 + amount) b) parts b)"
    using assms(1) unfolding ascension_element_bonus_def Let_def run split_conv parts_def
    by (simp only: split: if_splits) simp_all
  then have "get_or bonus c 0 = get_or b c 0 + (\<Sum>(color, amount)\<leftarrow>parts. if color = c then amount else 0)"
    by (simp only: split)
  moreover have "(\<Sum>(color, amount)\<leftarrow>parts. if color = c then amount else 0) = exact_pool_share primary ?sec pool c"
    using song_secondary_neq [of primary "Some secondary"]
    unfolding parts_def thirds by (auto simp: exact_pool_share_def)
  ultimately show ?thesis using b(2,3) by simp
qed
lemma ascension_element_bonus_total:
  "primary \<in> set ELEMENTS \<Longrightarrow> \<exists>bonus. ascension_element_bonus m primary secondary = Inr bonus"
  by (simp add: ascension_element_bonus_def Let_def split: prod.splits)

text \<open>C21: for every mini with level-1 values up to \<open>2\<^sup>4\<^sup>0\<close> and every song of a known element,
  \<open>ascension_element_bonus\<close> of \<open>gamedata.py\<close> returns, and each color's amount is the exact integer
  one: its share of the pool (two thirds and one third of it for a two-color song) plus its own half
  or quarter. The floating-point floors of the code lose nothing.\<close>

theorem ascension_bonus_exact:
  assumes "primary \<in> set ELEMENTS" and "\<forall>(color, v) \<in> set (level1_elements m). v \<le> 2 ^ 40"
  shows "\<exists>bonus. ascension_element_bonus m primary secondary = Inr bonus \<and> (\<forall>c. get_or bonus c 0 =
    exact_pool_share primary (song_secondary primary (Some secondary)) (exact_pool (ranked_colors m)) c
    + exact_extra primary (song_secondary primary (Some secondary)) 0 (ranked_colors m) c)"
  using ascension_element_bonus_total [OF assms(1)] ascension_bonus_amounts [OF _ assms(2)] by metis

text \<open>The in-game check the code's documentation names: a Chill and Flow mini on its own Chill and Flow
  song gains 131 and 68.\<close>

definition example_mini :: mini where
  "example_mini = \<lparr>mini_name = ''Monstercat'', mini_element = ''Chill'', mini_stats = empty_stats,
     level1_elements = [(''Chill'', 13), (''Flow'', 7)], song_targets = {''Own''}\<rparr>"

lemma ascension_bonus_exact_witness:
  "\<exists>bonus. ascension_element_bonus example_mini ''Chill'' ''Flow'' = Inr bonus
    \<and> get_or bonus ''Chill'' 0 = 131 \<and> get_or bonus ''Flow'' 0 = 68"
proof -
  have "ranked_colors example_mini = [(''Chill'', 13), (''Flow'', 7)]" by code_simp
  then show ?thesis
    using ascension_bonus_exact [of "''Chill''" example_mini "''Flow''"]
    by (simp add: example_mini_def ELEMENTS_def song_secondary_def exact_pool_def
        exact_pool_share_def exact_share_def split: if_splits)
qed

text \<open>The combo multiplier of \<open>_combo_ramp\<close> (\<open>gamedata.py\<close>) has one value per combo up to the
  last threshold, and no rounding of its lines takes it below one, for every gain the game's curve
  can give (a gain from one to two). The scorers' reduction to a non-decreasing score rests on it.\<close>

theorem combo_ramp_at_least_one:
  assumes "1 \<le> g" "g \<le> 2"
  shows "length (combo_ramp_row g) = COMBO_RAMP_NOTES \<and> (\<forall>v \<in> set (combo_ramp_row g). 1 \<le> v)"
  using assms combo_ramp_row_ge_1 combo_ramp_row_length by blast

lemma combo_ramp_at_least_one_witness:
  "length (combo_ramp_row (r64 (14 / 10))) = 100 \<and> 1 \<le> combo_ramp_row (r64 (14 / 10)) ! 60"
proof -
  have "(1::rat) \<le> r64 (14 / 10)" "r64 (14 / 10) \<le> 2" by code_simp+
  then show ?thesis using combo_ramp_at_least_one [of "r64 (14 / 10)"] by (simp add: COMBO_RAMP_NOTES_def)
qed

end
