(* ===== verification/Chart.thy ===== *)
theory Chart
  imports GameData Sorting
begin

text \<open>
  chart.py: a chart file's text, read into its header and its notes in time order. Text is ASCII; a
  number is read as Python reads a plain decimal (an optional sign, digits, a fraction, an
  exponent), without digit separators, infinities or NaNs.
\<close>

section \<open>Text\<close>

definition is_digit :: "char \<Rightarrow> bool" where
  "is_digit c = (let n = of_char c :: nat in 48 \<le> n \<and> n \<le> 57)"

definition digit_value :: "char \<Rightarrow> int" where
  "digit_value c = of_char c - 48"

definition digits_value :: "string \<Rightarrow> int" where
  "digits_value s = foldl (\<lambda>n c. 10 * n + digit_value c) 0 s"

definition signed :: "(string \<Rightarrow> 'a option) \<Rightarrow> ('a \<Rightarrow> 'a) \<Rightarrow> string \<Rightarrow> 'a option" where
  "signed parse neg s =
     (case s of [] \<Rightarrow> None
      | c # cs \<Rightarrow> if c = CHR ''-'' then map_option neg (parse cs)
                  else if c = CHR ''+'' then parse cs else parse s)"

definition unsigned_int :: "string \<Rightarrow> int option" where
  "unsigned_int s = (if s \<noteq> [] \<and> list_all is_digit s then Some (digits_value s) else None)"

definition py_int :: "string \<Rightarrow> int option" where
  "py_int s = signed unsigned_int uminus (py_strip s)"

definition exponent :: "string \<Rightarrow> int option" where
  "exponent s = (case s of [] \<Rightarrow> Some 0
     | c # cs \<Rightarrow> if c = CHR ''e'' \<or> c = CHR ''E'' then signed unsigned_int uminus cs else None)"

definition unsigned_decimal :: "string \<Rightarrow> rat option" where
  "unsigned_decimal s =
     (let whole = takeWhile is_digit s; rest = dropWhile is_digit s;
          dotted = (rest \<noteq> [] \<and> hd rest = CHR ''.'');
          frac = (if dotted then takeWhile is_digit (tl rest) else []);
          tail = (if dotted then dropWhile is_digit (tl rest) else rest)
      in if whole = [] \<and> frac = [] then None
         else map_option (\<lambda>e. of_int (digits_value (whole @ frac)) * 10 powi (e - int (length frac))) (exponent tail))"

text \<open>\<open>float(s)\<close>: the decimal's value, rounded once.\<close>

definition py_float :: "string \<Rightarrow> f64 option" where
  "py_float s = map_option r64 (signed unsigned_decimal uminus (py_strip s))"

definition line_end :: "char \<Rightarrow> bool" where
  "line_end c = (let n = of_char c :: nat in 10 \<le> n \<and> n \<le> 13 \<or> 28 \<le> n \<and> n \<le> 30)"

fun splitlines_go :: "string \<Rightarrow> string \<Rightarrow> string list" where
  "splitlines_go acc [] = (if acc = [] then [] else [rev acc])"
| "splitlines_go acc (c # cs) =
     (if c = CHR 0x0D \<and> cs \<noteq> [] \<and> hd cs = CHR 0x0A then splitlines_go acc cs
      else if line_end c then rev acc # splitlines_go [] cs
      else splitlines_go (c # acc) cs)"

definition splitlines :: "string \<Rightarrow> string list" where
  "splitlines s = splitlines_go [] s"

fun py_split_go :: "string \<Rightarrow> string \<Rightarrow> string list" where
  "py_split_go part [] = (if part = [] then [] else [rev part])"
| "py_split_go part (c # cs) =
     (if py_space c then (if part = [] then py_split_go [] cs else rev part # py_split_go [] cs)
      else py_split_go (c # part) cs)"

definition py_split :: "string \<Rightarrow> string list" where
  "py_split s = py_split_go [] s"

section \<open>Charts\<close>

definition NOTE_TYPES :: "int list" where "NOTE_TYPES = [1, 2, 3]"
definition SECTIONS :: "string list" where "SECTIONS = [''Timing Points'', ''Song Data'']"

record chart =
  header :: "(string, string) dict"
  timestamps :: "f32 list"
  note_types :: "int list"
  lanes :: "int list"
  last_note_time :: f64
  long_notes :: int

definition chart_name :: "chart \<Rightarrow> string res" where "chart_name c = lookup (header c) ''Song Name''"
definition chart_difficulty :: "chart \<Rightarrow> string" where "chart_difficulty c = get_or (header c) ''Difficulty'' []"
definition chart_primary :: "chart \<Rightarrow> string res" where "chart_primary c = lookup (header c) ''Primary Color''"
definition chart_secondary :: "chart \<Rightarrow> string res" where "chart_secondary c = lookup (header c) ''Secondary Color''"
definition total_notes :: "chart \<Rightarrow> nat" where "total_notes c = length (timestamps c)"

definition with_colors :: "chart \<Rightarrow> string \<Rightarrow> string \<Rightarrow> chart" where
  "with_colors c primary secondary =
     c\<lparr>header := AList.update ''Secondary Color'' secondary (AList.update ''Primary Color'' primary (header c))\<rparr>"

definition header_number :: "(string, string) dict \<Rightarrow> string \<Rightarrow> (string \<Rightarrow> 'a option) \<Rightarrow> 'a res" where
  "header_number h key kind = (case kind (get_or h key []) of None \<Rightarrow> Inl ValueError | Some v \<Rightarrow> Inr v)"

definition header_field :: "string \<Rightarrow> (string \<times> string) res" where
  "header_field raw =
     (let key = takeWhile (\<lambda>c. c \<noteq> CHR 0x09) raw; rest = dropWhile (\<lambda>c. c \<noteq> CHR 0x09) raw
      in if rest = [] then Inl ValueError else Inr (py_strip key, py_strip (tl rest)))"

type_synonym note_row = "f64 \<times> int \<times> int"

text \<open>The parser's state over the lines: the header, the section, and the notes read so far, last first.\<close>

record parse_state =
  p_header :: "(string, string) dict"
  p_section :: string
  p_rows :: "note_row list"

definition note_row_of :: "string list \<Rightarrow> note_row res" where
  "note_row_of parts =
     (if length parts \<noteq> 4 then Inl ValueError
      else case (py_float (parts ! 0), py_int (parts ! 2), py_int (parts ! 3)) of
             (Some time, Some lane, Some note_type) \<Rightarrow> Inr (time, lane, note_type)
           | _ \<Rightarrow> Inl ValueError)"

definition parse_line :: "string \<Rightarrow> parse_state \<Rightarrow> parse_state res" where
  "parse_line raw st =
     (let line = py_strip raw
      in if line = [] then Inr st
         else if line \<in> set SECTIONS then Inr (st\<lparr>p_section := line\<rparr>)
         else if p_section st = [] then
           bind_res (header_field raw) (\<lambda>(key, v). Inr (st\<lparr>p_header := AList.update key v (p_header st)\<rparr>))
         else if p_section st = ''Song Data'' then
           bind_res (note_row_of (py_split line)) (\<lambda>row. Inr (st\<lparr>p_rows := row # p_rows st\<rparr>))
         else Inr st)"

text \<open>NumPy's conversion of Python integers refuses what a field cannot hold.\<close>

definition in_width :: "nat \<Rightarrow> int \<Rightarrow> int res" where
  "in_width w v = (if - (2 ^ (w - 1)) \<le> v \<and> v < 2 ^ (w - 1) then Inr v else Inl OverflowError)"

definition parse_chart :: "string \<Rightarrow> chart res" where
  "parse_chart text =
     bind_res (fold_res parse_line (splitlines text) \<lparr>p_header = [], p_section = [], p_rows = []\<rparr>) (\<lambda>st.
       let h = p_header st; rows = rev (p_rows st)
       in if get_or h ''Song Name'' [] = [] then Inl ValueError
          else if get_or h ''Primary Color'' [] \<notin> set ELEMENTS \<or> get_or h ''Secondary Color'' [] \<notin> set ELEMENTS
          then Inl ValueError
          else if rows = [] then Inl ValueError
          else
            bind_res (map_res (\<lambda>(time, lane, ty). in_width 32 lane) rows) (\<lambda>lane_column.
            bind_res (map_res (\<lambda>(time, lane, ty). in_width 16 ty) rows) (\<lambda>type_column.
              if \<not> set type_column \<subseteq> set NOTE_TYPES then Inl ValueError
              else
                let times = map (\<lambda>(time, lane, ty). r32 time) rows;
                    order = sort_key (\<lambda>i. times ! i) [0..<length times]
                in bind_res (header_number h ''Last Note Time'' py_float) (\<lambda>last.
                   bind_res (header_number h ''Long Notes'' py_int) (\<lambda>long.
                     Inr \<lparr>header = h,
                          timestamps = map ((!) times) order,
                          note_types = map ((!) type_column) order,
                          lanes = map ((!) lane_column) order,
                          last_note_time = last,
                          long_notes = long\<rparr>)))))"

definition read_header_line :: "string \<Rightarrow> (bool \<times> (string, string) dict) \<Rightarrow> (bool \<times> (string, string) dict) res" where
  "read_header_line raw st =
     (let (stopped, h) = st; line = py_strip raw
      in if stopped then Inr st
         else if line \<in> set SECTIONS then Inr (True, h)
         else if line = [] then Inr st
         else bind_res (header_field raw) (\<lambda>(key, v). Inr (False, AList.update key v h)))"

text \<open>The header of a file given as its lines, without their ends.\<close>

definition read_header :: "string list \<Rightarrow> (string, string) dict res" where
  "read_header file_lines = bind_res (fold_res read_header_line file_lines (False, [])) (\<lambda>(stopped, h). Inr h)"

section \<open>What a parsed chart promises\<close>

definition valid_chart :: "chart \<Rightarrow> bool" where
  "valid_chart c \<longleftrightarrow> timestamps c \<noteq> [] \<and> sorted (timestamps c) \<and> (\<forall>t \<in> set (timestamps c). is_f32 t)
     \<and> length (note_types c) = length (timestamps c) \<and> length (lanes c) = length (timestamps c)
     \<and> set (note_types c) \<subseteq> {1, 2, 3}
     \<and> get_or (header c) ''Primary Color'' [] \<in> set ELEMENTS
     \<and> get_or (header c) ''Secondary Color'' [] \<in> set ELEMENTS \<and> get_or (header c) ''Song Name'' [] \<noteq> []"

text \<open>The notes of a chart row by row, and the rows the file lists.\<close>

definition chart_notes :: "chart \<Rightarrow> (f32 \<times> int \<times> int) list" where
  "chart_notes c = zip (timestamps c) (zip (lanes c) (note_types c))"

definition listed_notes :: "note_row list \<Rightarrow> (f32 \<times> int \<times> int) list" where
  "listed_notes rows = map (\<lambda>(time, lane, ty). (r32 time, lane, ty)) rows"

lemma map_res_in_width: "map_res (\<lambda>x. in_width w (g x)) xs = Inr ys \<Longrightarrow> ys = map g xs"
  by (induction xs arbitrary: ys) (auto simp: in_width_def bind_res_eq_Inr split: if_splits)

text \<open>Reading three columns through one stable order is a stable sort of the rows.\<close>

lemma sort_columns:
  assumes "length bs = length rows" "length cs = length rows"
  shows "zip (map ((!) (map f rows)) (sort_key (\<lambda>i. map f rows ! i) [0..<length rows]))
      (zip (map ((!) bs) (sort_key (\<lambda>i. map f rows ! i) [0..<length rows]))
           (map ((!) cs) (sort_key (\<lambda>i. map f rows ! i) [0..<length rows])))
    = sort_key fst (zip (map f rows) (zip bs cs))"
proof -
  let ?xs = "zip (map f rows) (zip bs cs)" and ?is = "[0..<length rows]"
  have len: "length ?xs = length rows" using assms by simp
  have nth: "?xs ! i = (map f rows ! i, bs ! i, cs ! i)" if "i < length rows" for i
    using that assms by simp
  have "sort_key (\<lambda>i. map f rows ! i) ?is = sort_key (\<lambda>i. fst (?xs ! i)) ?is"
    by (rule sort_key_same) (simp add: nth)
  moreover have "sort_key fst ?xs = map ((!) ?xs) (sort_key (\<lambda>i. fst (?xs ! i)) ?is)"
    using map_sort_key [of "(!) ?xs" fst ?is, unfolded comp_def] map_nth [of ?xs] len by simp
  moreover have "zip (map ((!) (map f rows)) js) (zip (map ((!) bs) js) (map ((!) cs) js)) = map ((!) ?xs) js"
    if "set js \<subseteq> set ?is" for js
    using that by (induction js) (simp_all add: nth)
  ultimately show ?thesis by simp
qed

lemma rows_columns: "zip (map (\<lambda>(time, lane, ty). r32 time) rows)
    (zip (map (\<lambda>(time, lane, ty). lane) rows) (map (\<lambda>(time, lane, ty). ty) rows)) = listed_notes rows"
  by (induction rows) (auto simp: listed_notes_def)

text \<open>C26: a chart that \<open>parse_chart\<close> returns is well formed (times sorted, every column as long, note
  types and colors known), and its notes are the file's notes, stably sorted by their binary32 time:
  none lost, none added, notes at one time in file order.\<close>

theorem parse_chart_sorts:
  assumes "parse_chart text = Inr c"
  shows "valid_chart c \<and> (\<exists>st. fold_res parse_line (splitlines text)
        \<lparr>p_header = [], p_section = [], p_rows = []\<rparr> = Inr st
      \<and> header c = p_header st \<and> chart_notes c = sort_key fst (listed_notes (rev (p_rows st))))"
proof -
  obtain st where st: "fold_res parse_line (splitlines text) \<lparr>p_header = [], p_section = [], p_rows = []\<rparr> = Inr st"
    using assms by (auto simp: parse_chart_def bind_res_eq_Inr)
  define rows where "rows = rev (p_rows st)"
  let ?f = "\<lambda>(time, lane, ty). r32 time" and ?lane = "\<lambda>(time :: f64, lane, ty :: int). lane"
    and ?ty = "\<lambda>(time :: f64, lane :: int, ty). ty"
  let ?order = "sort_key (\<lambda>i. map ?f rows ! i) [0..<length rows]"
  have in32: "(\<lambda>(time :: f64, lane, ty :: int). in_width 32 lane) = (\<lambda>x. in_width 32 (?lane x))"
    and in16: "(\<lambda>(time :: f64, lane :: int, ty). in_width 16 ty) = (\<lambda>x. in_width 16 (?ty x))"
    by auto
  from assms st obtain lane_column type_column last long where
    h: "get_or (p_header st) ''Song Name'' [] \<noteq> []" "rows \<noteq> []"
      "get_or (p_header st) ''Primary Color'' [] \<in> set ELEMENTS" "get_or (p_header st) ''Secondary Color'' [] \<in> set ELEMENTS"
    and cols: "map_res (\<lambda>x. in_width 32 (?lane x)) rows = Inr lane_column"
      "map_res (\<lambda>x. in_width 16 (?ty x)) rows = Inr type_column" "set type_column \<subseteq> set NOTE_TYPES"
    and c: "c = \<lparr>header = p_header st, timestamps = map ((!) (map ?f rows)) ?order,
        note_types = map ((!) type_column) ?order, lanes = map ((!) lane_column) ?order,
        last_note_time = last, long_notes = long\<rparr>"
    unfolding in32 [symmetric] in16 [symmetric]
    by (auto simp: parse_chart_def Let_def rows_def bind_res_eq_Inr split: if_splits)
  have columns: "lane_column = map ?lane rows" "type_column = map ?ty rows"
    using cols(1,2) by (auto dest: map_res_in_width)
  have "chart_notes c = sort_key fst (listed_notes rows)"
    unfolding chart_notes_def c chart.simps columns
    by (subst sort_columns) (simp_all add: rows_columns)
  moreover have "timestamps c = sort (map ?f rows)"
    using map_sort_key [of "(!) (map ?f rows)" "\<lambda>x. x" "[0..<length rows]", unfolded comp_def] map_nth [of "map ?f rows"]
    by (simp add: c del: map_map)
  then have "sorted (timestamps c)" "\<forall>t \<in> set (timestamps c). is_f32 t" by auto
  moreover have "set (map ((!) (map ?ty rows)) js) \<subseteq> set (map ?ty rows)" if "set js \<subseteq> {0..<length rows}" for js
    using that nth_mem [of _ "map ?ty rows"] by fastforce
  from this [of ?order] have "set (note_types c) \<subseteq> set (map ?ty rows)" unfolding c columns by simp
  then have "set (note_types c) \<subseteq> {1, 2, 3}"
    using cols(3) unfolding columns NOTE_TYPES_def by auto
  moreover have "length (timestamps c) = length rows" "length (note_types c) = length rows"
    "length (lanes c) = length rows" "header c = p_header st"
    by (simp_all add: c)
  moreover from this(1) have "timestamps c \<noteq> []" using h(2) by auto
  ultimately show ?thesis using st h by (simp add: valid_chart_def rows_def)
qed

text \<open>A chart of three notes, listed out of time order.\<close>

definition example_chart :: string where
  "example_chart = ''Song Name'' @ [CHR 0x09] @ ''Air'' @ [CHR 0x0A] @ ''Primary Color'' @ [CHR 0x09] @ ''Chill''
     @ [CHR 0x0A] @ ''Secondary Color'' @ [CHR 0x09] @ ''Flow'' @ [CHR 0x0A] @ ''Last Note Time'' @ [CHR 0x09] @ ''2.5''
     @ [CHR 0x0A] @ ''Long Notes'' @ [CHR 0x09] @ ''0'' @ [CHR 0x0A] @ ''Song Data'' @ [CHR 0x0A]
     @ ''1.5 1 2 1'' @ [CHR 0x0A] @ ''2.5 2 3 1'' @ [CHR 0x0A] @ ''0.5 3 1 1'' @ [CHR 0x0A]"

definition example_parsed :: chart where
  "example_parsed = \<lparr>header = [(''Song Name'', ''Air''), (''Primary Color'', ''Chill''), (''Secondary Color'', ''Flow''),
      (''Last Note Time'', ''2.5''), (''Long Notes'', ''0'')],
     timestamps = [1 / 2, 3 / 2, 5 / 2], note_types = [1, 1, 1], lanes = [1, 2, 3],
     last_note_time = 5 / 2, long_notes = 0\<rparr>"

lemma parse_chart_sorts_witness: "sorted (timestamps example_parsed) \<and> valid_chart example_parsed"
proof -
  have "parse_chart example_chart = Inr example_parsed" by code_simp
  from parse_chart_sorts [OF this] show ?thesis by (auto simp: valid_chart_def)
qed

text \<open>Recoloring a chart for an element override changes its two colors and nothing else.\<close>

theorem with_colors_effect:
  "chart_primary (with_colors c p s) = Inr p \<and> chart_secondary (with_colors c p s) = Inr s
    \<and> chart_notes (with_colors c p s) = chart_notes c \<and> chart_name (with_colors c p s) = chart_name c
    \<and> (valid_chart c \<and> p \<in> set ELEMENTS \<and> s \<in> set ELEMENTS \<longrightarrow> valid_chart (with_colors c p s))"
  by (simp add: with_colors_def chart_primary_def chart_secondary_def chart_notes_def chart_name_def
      lookup_def valid_chart_def get_or_update)

end
