(* ===== verification/FillCrossing.thy ===== *)
theory FillCrossing
  imports Prelude
begin

text \<open>
  frontier/fill_crossing.py: on which note a section's fever bar fills. A Perfect fills the bar by one
  unit, a Great by half a unit, and fever starts on the first note whose own fill takes the bar to
  its threshold. The code has closed forms for a run of Greats among Perfects; the reference
  walks the notes.
\<close>

section \<open>A bar that fills note by note\<close>

text \<open>The first note whose fill takes the bar to full, with its label, and None when no note does.\<close>

fun bar_crossing :: "('l \<Rightarrow> 'b \<Rightarrow> 'b) \<Rightarrow> 'b::linorder \<Rightarrow> 'b \<Rightarrow> int \<Rightarrow> 'l list \<Rightarrow> (int \<times> 'l) option" where
  "bar_crossing hit full b i [] = None"
| "bar_crossing hit full b i (l # ls) =
     (let b' = hit l b in if full \<le> b' then Some (i, l) else bar_crossing hit full b' (i + 1) ls)"

text \<open>What a bar promises: a hit keeps its range and never drains it.\<close>

locale fever_bar =
  fixes hit :: "'l \<Rightarrow> 'b \<Rightarrow> 'b::linorder" and full :: 'b and valid :: "'b \<Rightarrow> bool"
  assumes hit_valid: "valid b \<Longrightarrow> valid (hit l b)"
    and hit_no_drain: "valid b \<Longrightarrow> b \<le> hit l b"
begin

lemma fold_valid: "valid b \<Longrightarrow> valid (fold hit ls b)"
  by (induction ls arbitrary: b) (simp_all add: hit_valid)

lemma fold_no_drain: "valid b \<Longrightarrow> b \<le> fold hit ls b"
proof (induction ls arbitrary: b)
  case (Cons l ls)
  have "b \<le> hit l b" using hit_no_drain [OF Cons.prems] .
  also have "\<dots> \<le> fold hit ls (hit l b)" by (rule Cons.IH [OF hit_valid [OF Cons.prems]])
  finally show ?case by simp
qed simp

lemma fold_take_mono:
  assumes "valid b" "i \<le> j"
  shows "fold hit (take i ls) b \<le> fold hit (take j ls) b"
proof -
  have "take j ls = take i ls @ take (j - i) (drop i ls)" using assms(2) by (metis le_add_diff_inverse take_add)
  then show ?thesis using fold_no_drain [OF fold_valid [OF assms(1)]] by simp
qed

lemma crossing_at:
  assumes "valid b" "m < length ls" "m = 0 \<or> fold hit (take m ls) b < full"
    and "full \<le> fold hit (take (Suc m) ls) b"
  shows "bar_crossing hit full b i ls = Some (i + int m, ls ! m)"
  using assms
proof (induction ls arbitrary: b i m)
  case (Cons l ls)
  show ?case
  proof (cases m)
    case 0
    then show ?thesis using Cons.prems by simp
  next
    case (Suc j)
    have "hit l b \<le> fold hit (take m (l # ls)) b"
      using fold_no_drain [OF hit_valid [OF Cons.prems(1)]] by (simp add: Suc)
    then have "\<not> full \<le> hit l b" using Cons.prems(3) Suc by auto
    then show ?thesis
      using Cons.IH [of "hit l b" j "i + 1"] Cons.prems hit_valid [OF Cons.prems(1)] by (auto simp: Suc)
  qed
qed simp

lemma crossing_none:
  assumes "valid b" "fold hit ls b < full"
  shows "bar_crossing hit full b i ls = None"
  using assms
proof (induction ls arbitrary: b i)
  case (Cons l ls)
  have "hit l b \<le> fold hit ls (hit l b)" using fold_no_drain [OF hit_valid [OF Cons.prems(1)]] .
  then show ?case using Cons hit_valid by (auto simp: Let_def)
qed simp

lemma crossing_cases:
  assumes "valid b"
  obtains (None) "bar_crossing hit full b i ls = None" "ls = [] \<or> fold hit ls b < full"
    | (Some) m where "m < length ls" "bar_crossing hit full b i ls = Some (i + int m, ls ! m)"
        "m = 0 \<or> fold hit (take m ls) b < full" "full \<le> fold hit (take (Suc m) ls) b"
proof (cases "ls = [] \<or> fold hit ls b < full")
  case True
  then show thesis using crossing_none [OF assms] None by auto
next
  case False
  define m where "m = (LEAST m. full \<le> fold hit (take (Suc m) ls) b)"
  have ex: "full \<le> fold hit (take (Suc (length ls - 1)) ls) b" using False by (simp add: not_less)
  then have m: "full \<le> fold hit (take (Suc m) ls) b" unfolding m_def by (rule LeastI)
  have "m \<le> length ls - 1" unfolding m_def by (rule Least_le) (rule ex)
  then have len: "m < length ls" using False by (cases ls) auto
  have "m = 0 \<or> fold hit (take m ls) b < full"
  proof (cases m)
    case (Suc j)
    then show ?thesis using not_less_Least [of j "\<lambda>m. full \<le> fold hit (take (Suc m) ls) b"]
      by (simp add: m_def [symmetric] not_le)
  qed simp
  then show thesis using Some [OF len crossing_at [OF assms len _ m] _ m] by blast
qed

end

text \<open>The bar in exact units: a Great (True) is half a Perfect.\<close>

definition unit_hit :: "bool \<Rightarrow> rat \<Rightarrow> rat" where
  "unit_hit great b = b + (if great then 1 / 2 else 1)"

interpretation units: fever_bar unit_hit full "\<lambda>_. True" for full
  by unfold_locales (simp_all add: unit_hit_def)

text \<open>The walk over a section's labels from its first accumulating note.\<close>

definition fill_walk :: "rat \<Rightarrow> int \<Rightarrow> bool list \<Rightarrow> (int \<times> bool) option" where
  "fill_walk denom start labels = bar_crossing unit_hit denom 0 start labels"

lemma fold_unit_hit: "fold unit_hit ls b = b + (\<Sum>l\<leftarrow>ls. if l then 1 / 2 else 1)"
  by (induction ls arbitrary: b) (simp_all add: unit_hit_def)

definition fill_units :: "bool list \<Rightarrow> rat" where
  "fill_units ls = (\<Sum>l\<leftarrow>ls. if l then 1 / 2 else 1)"

lemma fill_units_simps [simp]:
  "fill_units [] = 0" "fill_units (l # ls) = (if l then 1 / 2 else 1) + fill_units ls"
  "fill_units (xs @ ys) = fill_units xs + fill_units ys"
  "fill_units (replicate n True) = of_nat n / 2" "fill_units (replicate n False) = of_nat n"
  by (simp_all add: fill_units_def sum_list_replicate)

lemma fill_walk_at:
  assumes "m < length ls" "fill_units (take m ls) < denom" "denom \<le> fill_units (take (Suc m) ls)"
  shows "fill_walk denom start ls = Some (start + int m, ls ! m)"
  unfolding fill_walk_def using assms
  by (intro units.crossing_at) (simp_all add: fold_unit_hit fill_units_def)

lemma fill_walk_none: "fill_units ls < denom \<Longrightarrow> fill_walk denom start ls = None"
  unfolding fill_walk_def by (intro units.crossing_none) (simp_all add: fold_unit_hit fill_units_def)

lemma fill_walk_Some:
  assumes "fill_walk denom start ls = Some (i, g)" "0 < denom"
  obtains m where "m < length ls" "i = start + int m" "g = ls ! m"
    "fill_units (take m ls) < denom" "denom \<le> fill_units (take (Suc m) ls)"
proof (cases rule: units.crossing_cases [where b = 0 and full = denom and i = start and ls = ls, OF TrueI])
  case 1
  then show thesis using assms(1) by (simp add: fill_walk_def)
next
  case (2 m)
  then show thesis using that [of m] assms by (auto simp: fill_walk_def fold_unit_hit fill_units_def)
qed

section \<open>The closed forms\<close>

definition late_great_prefix_is_legal :: "int \<Rightarrow> int \<Rightarrow> f64 \<Rightarrow> bool \<Rightarrow> bool res" where
  "late_great_prefix_is_legal fill prefix denom first =
     (if denom \<le> 0 then Inl ValueError
      else
        let wasted = (if first then 0 else 1); perfects_before = fill - wasted - prefix
        in if perfects_before < 0 then Inr False
           else let bar_before = add64 (mul64 (1 / 2) (r64 (of_int prefix))) (r64 (of_int perfects_before))
                in Inr (bar_before < denom \<and> add64 bar_before (1 / 2) \<ge> denom))"

definition perfect_fill_crossing_offset :: "f64 \<Rightarrow> int \<Rightarrow> bool \<Rightarrow> int" where
  "perfect_fill_crossing_offset denom k first =
     (let fill = \<lceil>add64 denom (mul64 (1 / 2) (r64 (of_int k)))\<rceil>
      in if \<not> first then fill else max 0 (fill - 1))"

definition perfect_crossing_is_region3 :: "int \<Rightarrow> int \<Rightarrow> bool \<Rightarrow> f64 \<Rightarrow> bool res" where
  "perfect_crossing_is_region3 fill k first denom =
     (if denom \<le> 0 then Inl ValueError
      else if k \<le> 0 then Inr True
      else let slots = (if first then fill else fill - 1)
           in if k > slots then Inr False
              else Inr (sub64 (r64 (of_int slots)) (mul64 (1 / 2) (r64 (of_int k))) < denom))"

definition late_great_activation_prefix :: "int \<Rightarrow> int \<Rightarrow> bool \<Rightarrow> f64 \<Rightarrow> int option res" where
  "late_great_activation_prefix fill k first denom =
     (if k \<le> 0 then Inr None
      else
        let wasted = (if first then 0 else 1);
            prefix = min (max 0 (k - 1)) (max 0 (fill - wasted))
        in bind_res (late_great_prefix_is_legal fill prefix denom first) (\<lambda>legal.
             Inr (if legal then Some prefix else None)))"

definition server_fill_crossing_run :: "int \<Rightarrow> int \<Rightarrow> int \<Rightarrow> f64 \<Rightarrow> int \<Rightarrow> (int \<times> bool) option res" where
  "server_fill_crossing_run s great_run_start k0 D n =
     (if D \<le> 0 then Inl ValueError
      else
        let run_lo = (if great_run_start > s then great_run_start else s);
            run_hi = (if great_run_start + k0 < n then great_run_start + k0 else n)
        in if run_hi \<le> run_lo
           then let i = s + \<lceil>D\<rceil> - 1 in Inr (if i < n then Some (i, False) else None)
           else
             let g0 = run_lo; k = run_hi - run_lo; perfects_before = g0 - s; i = s + \<lceil>D\<rceil> - 1
             in if i < g0 then Inr (if i < n then Some (i, False) else None)
                else
                  let i = g0 - 1 + \<lceil>mul64 2 (sub64 D (r64 (of_int perfects_before)))\<rceil>
                  in if i < g0 + k
                     then let i = (if i < g0 then g0 else i) in Inr (if i < n then Some (i, True) else None)
                     else
                       let i = (g0 + k) - 1
                             + \<lceil>sub64 (sub64 D (r64 (of_int perfects_before))) (mul64 (1 / 2) (r64 (of_int k)))\<rceil>
                       in Inr (if i < n then Some (i, False) else None))"

section \<open>A late Great starts fever exactly when the walk crosses on it\<close>

lemma r64_int: "\<bar>n\<bar> \<le> 2 ^ 53 \<Longrightarrow> r64 (of_int n) = of_int n"
  by (rule r64_of_int)

lemma mul64_half: "\<bar>n\<bar> \<le> 2 ^ 53 \<Longrightarrow> mul64 (1 / 2) (r64 (of_int n)) = of_int n / 2"
  using r64_of_int [of n] r64_dyadic [of n 1] by (simp add: mul64_def)

lemma add64_halves: "\<bar>2 * a + b\<bar> \<le> 2 ^ 53 \<Longrightarrow> add64 (of_int b / 2) (of_int a) = of_int a + of_int b / 2"
proof -
  assume b: "\<bar>2 * a + b\<bar> \<le> 2 ^ 53"
  have "of_int b / 2 + of_int a = rat_of_int (2 * a + b) / 2 ^ 1" by simp
  then have "add64 (of_int b / 2) (of_int a) = rat_of_int (2 * a + b) / 2 ^ 1"
    using r64_dyadic [OF b, of 1] by (simp only: add64_def)
  then show ?thesis by (simp add: field_simps)
qed

text \<open>The production placement of a late-Great activation: a run of Greats, then Perfects, then the
  activation Great.\<close>

definition late_great_labels :: "nat \<Rightarrow> nat \<Rightarrow> bool list" where
  "late_great_labels prefix perfects = replicate prefix True @ replicate perfects False @ [True]"

lemma late_great_walk:
  assumes "0 < denom"
  shows "fill_walk denom start (late_great_labels p q) = Some (start + int (p + q), True)
    \<longleftrightarrow> of_nat p / 2 + of_nat q < denom \<and> denom \<le> of_nat p / 2 + of_nat q + 1 / 2"
proof -
  let ?ls = "late_great_labels p q"
  have before: "take (p + q) ?ls = replicate p True @ replicate q False"
    and all: "take (Suc (p + q)) ?ls = ?ls" and len: "length ?ls = Suc (p + q)"
    and last: "?ls ! (p + q) = True"
    by (simp_all add: late_great_labels_def nth_append)
  have units: "fill_units (take (p + q) ?ls) = of_nat p / 2 + of_nat q"
    "fill_units (take (Suc (p + q)) ?ls) = of_nat p / 2 + of_nat q + 1 / 2"
    unfolding before all by (simp_all add: late_great_labels_def)
  show ?thesis
  proof
    assume walk: "fill_walk denom start ?ls = Some (start + int (p + q), True)"
    obtain m where "m < length ?ls" "start + int (p + q) = start + int m"
      "fill_units (take m ?ls) < denom" "denom \<le> fill_units (take (Suc m) ?ls)"
      by (rule fill_walk_Some [OF walk assms]) auto
    moreover from this(2) have "m = p + q" by simp
    ultimately show "of_nat p / 2 + of_nat q < denom \<and> denom \<le> of_nat p / 2 + of_nat q + 1 / 2"
      using units by simp
  next
    assume "of_nat p / 2 + of_nat q < denom \<and> denom \<le> of_nat p / 2 + of_nat q + 1 / 2"
    then show "fill_walk denom start ?ls = Some (start + int (p + q), True)"
      using fill_walk_at [of "p + q" ?ls denom start] len units last by simp
  qed
qed

text \<open>The constant-time gate \<open>late_great_prefix_is_legal\<close> answers yes exactly when the note-by-note
  walk of the placement (\<open>prefix\<close> Greats, Perfects, then the activation Great, \<open>fill\<close> notes into the
  section) starts fever on the activation Great: for every fill denominator, with the wasted note of
  a later section, and with the activation inside the Great run refused.\<close>

theorem late_great_gate_is_walk:
  fixes fill prefix :: int and first :: bool and denom :: f64
  assumes "0 < denom" "0 \<le> prefix" "prefix \<le> 2 ^ 50" "\<bar>fill\<bar> \<le> 2 ^ 50"
  defines "perfects \<equiv> fill - (if first then 0 else 1) - prefix"
  shows "late_great_prefix_is_legal fill prefix denom first = Inr (0 \<le> perfects
    \<and> fill_walk denom start (late_great_labels (nat prefix) (nat perfects)) = Some (start + prefix + perfects, True))"
proof (cases "perfects < 0")
  case True
  then show ?thesis using assms(1) by (simp add: late_great_prefix_is_legal_def Let_def perfects_def)
next
  case False
  then have small: "\<bar>prefix\<bar> \<le> 2 ^ 53" "\<bar>perfects\<bar> \<le> 2 ^ 53" "\<bar>2 * perfects + prefix\<bar> \<le> 2 ^ 53"
    "\<bar>2 * perfects + (prefix + 1)\<bar> \<le> 2 ^ 53"
    using assms(2-4) by (auto simp: perfects_def)
  let ?before = "of_int perfects + of_int prefix / 2 :: rat"
  have before: "add64 (mul64 (1 / 2) (r64 (of_int prefix))) (r64 (of_int perfects)) = ?before"
    by (simp only: mul64_half [OF small(1)] r64_int [OF small(2)] add64_halves [OF small(3)])
  have "?before + 1 / 2 = rat_of_int (2 * perfects + (prefix + 1)) / 2 ^ 1" by (simp add: field_simps)
  then have after: "add64 ?before (1 / 2) = ?before + 1 / 2"
    using r64_dyadic [OF small(4), of 1] by (simp only: add64_def)
  have "int (nat prefix + nat perfects) = prefix + perfects" using assms(2) False by simp
  with late_great_walk [OF assms(1), of start "nat prefix" "nat perfects"]
  have "fill_walk denom start (late_great_labels (nat prefix) (nat perfects)) = Some (start + prefix + perfects, True)
    \<longleftrightarrow> ?before < denom \<and> denom \<le> ?before + 1 / 2"
    using assms(2) False by (simp add: ac_simps)
  then show ?thesis
    using False assms(1)
    unfolding late_great_prefix_is_legal_def Let_def perfects_def [symmetric] before after by simp
qed

section \<open>The crossing of a Great run in closed form\<close>

text \<open>A placement of the notes \<open>lo ..< hi\<close>: Greats on the run, Perfects elsewhere.\<close>

definition run_labels :: "int \<Rightarrow> int \<Rightarrow> int \<Rightarrow> int \<Rightarrow> bool list" where
  "run_labels run_start k lo hi = map (\<lambda>i. run_start \<le> i \<and> i < run_start + k) [lo..hi - 1]"

lemma run_labels_length [simp]: "length (run_labels g k lo hi) = nat (hi - lo)"
  by (simp add: run_labels_def)

lemma run_labels_nth: "m < nat (hi - lo) \<Longrightarrow> run_labels g k lo hi ! m \<longleftrightarrow> g \<le> lo + int m \<and> lo + int m < g + k"
  by (simp add: run_labels_def)

lemma run_labels_take: "m \<le> nat (hi - lo) \<Longrightarrow> take m (run_labels g k lo hi) = run_labels g k lo (lo + int m)"
  by (rule nth_equalityI) (simp_all add: run_labels_nth)

text \<open>The units a prefix of the placement fills: one per note less half per Great among them.\<close>

lemma run_units:
  "fill_units (run_labels g k lo (lo + int m))
     = of_nat m - of_int (max 0 (min (lo + int m) (g + k) - max lo g)) / 2"
proof (induction m)
  case 0
  then show ?case by (simp add: run_labels_def)
next
  case (Suc m)
  have "run_labels g k lo (lo + int (Suc m))
      = run_labels g k lo (lo + int m) @ [g \<le> lo + int m \<and> lo + int m < g + k]"
    unfolding run_labels_def using upto_rec2 [of lo "lo + int m"] by simp
  moreover have "max 0 (min (lo + int (Suc m)) (g + k) - max lo g) = max 0 (min (lo + int m) (g + k) - max lo g)
      + (if g \<le> lo + int m \<and> lo + int m < g + k then 1 else 0)"
    by (auto simp: max_def min_def)
  ultimately show ?case using Suc by (auto simp: field_simps)
qed

lemma run_units_upto:
  "lo \<le> hi \<Longrightarrow> fill_units (run_labels g k lo hi) = of_int (hi - lo) - of_int (max 0 (min hi (g + k) - max lo g)) / 2"
  using run_units [of g k lo "nat (hi - lo)"] by simp

lemma run_walk:
  assumes "lo \<le> i" "i < hi"
    and "of_int (i - lo) - of_int (max 0 (min i (g + k) - max lo g)) / 2 < D"
    and "D \<le> of_int (i + 1 - lo) - of_int (max 0 (min (i + 1) (g + k) - max lo g)) / 2"
  shows "fill_walk D lo (run_labels g k lo hi) = Some (i, g \<le> i \<and> i < g + k)"
proof -
  define m where "m = nat (i - lo)"
  have m: "lo + int m = i" "lo + int (Suc m) = i + 1" "m < nat (hi - lo)" "Suc m \<le> nat (hi - lo)"
    using assms(1,2) by (auto simp: m_def)
  have take: "take m (run_labels g k lo hi) = run_labels g k lo i"
    "take (Suc m) (run_labels g k lo hi) = run_labels g k lo (i + 1)"
    using run_labels_take [of m hi lo g k] run_labels_take [of "Suc m" hi lo g k] m(3,4)
    unfolding m(1,2) by simp_all
  have "fill_units (take m (run_labels g k lo hi)) < D"
    unfolding take using assms(1,3) run_units_upto [of lo i g k] by simp
  moreover have "D \<le> fill_units (take (Suc m) (run_labels g k lo hi))"
    unfolding take using assms(1,4) run_units_upto [of lo "i + 1" g k] by simp
  ultimately show ?thesis
    using fill_walk_at [of m "run_labels g k lo hi" D lo] m run_labels_nth [of m hi lo g k] by simp
qed

lemma run_walk_none:
  assumes "lo \<le> hi \<Longrightarrow> of_int (hi - lo) - of_int (max 0 (min hi (g + k) - max lo g)) / 2 < D" "0 < D"
  shows "fill_walk D lo (run_labels g k lo hi) = None"
proof (cases "lo \<le> hi")
  case True
  then show ?thesis using assms(1) run_units_upto by (intro fill_walk_none) simp
next
  case False
  then show ?thesis using assms(2) by (intro fill_walk_none) (simp add: run_labels_def)
qed

text \<open>A threshold in whole half-notes, as \<open>fever_fill_thresholds\<close> gives it.\<close>

definition half_notes :: "f64 \<Rightarrow> int \<Rightarrow> bool" where
  "half_notes D h \<longleftrightarrow> D = of_int h / 2 \<and> 0 < h \<and> h \<le> 2 ^ 40"

lemma half_notes_sub:
  assumes "half_notes D h" "\<bar>p\<bar> \<le> 2 ^ 40"
  shows "sub64 D (r64 (of_int p)) = of_int (h - 2 * p) / 2"
proof -
  have small: "\<bar>p\<bar> \<le> 2 ^ 53" "\<bar>h - 2 * p\<bar> \<le> 2 ^ 53" using assms by (auto simp: half_notes_def)
  have "r64 (of_int p) = of_int p" by (rule r64_of_int [OF small(1)])
  moreover have "r64 (of_int (h - 2 * p) / 2 ^ 1) = of_int (h - 2 * p) / 2 ^ 1"
    by (rule r64_dyadic [OF small(2)]) simp
  moreover have "D - of_int p = of_int (h - 2 * p) / 2 ^ 1" using assms(1) by (simp add: half_notes_def field_simps)
  ultimately have "sub64 D (r64 (of_int p)) = of_int (h - 2 * p) / 2 ^ 1" by (simp only: sub64_def)
  then show ?thesis by simp
qed

text \<open>Everything below counts in half-notes.\<close>

definition run_greats :: "int \<Rightarrow> int \<Rightarrow> int \<Rightarrow> int \<Rightarrow> int" where
  "run_greats g k lo i = max 0 (min i (g + k) - max lo g)"

lemma half_walk:
  assumes "half_notes D h" "lo \<le> i" "i < hi"
    and "2 * (i - lo) - run_greats g k lo i < h" "h \<le> 2 * (i + 1 - lo) - run_greats g k lo (i + 1)"
    and "great \<longleftrightarrow> g \<le> i \<and> i < g + k"
  shows "fill_walk D lo (run_labels g k lo hi) = Some (i, great)"
proof -
  have "rat_of_int (2 * (i - lo) - run_greats g k lo i) < of_int h"
    "rat_of_int h \<le> of_int (2 * (i + 1 - lo) - run_greats g k lo (i + 1))"
    using assms(4,5) by (simp_all only: of_int_less_iff of_int_le_iff)
  then have "of_int (i - lo) - of_int (run_greats g k lo i) / 2 < D"
    "D \<le> of_int (i + 1 - lo) - of_int (run_greats g k lo (i + 1)) / 2"
    using assms(1) by (simp_all add: half_notes_def field_simps)
  then show ?thesis unfolding run_greats_def assms(6) by (rule run_walk [OF assms(2,3)])
qed

lemma half_walk_none:
  assumes "half_notes D h" "lo \<le> hi \<Longrightarrow> 2 * (hi - lo) - run_greats g k lo hi < h"
  shows "fill_walk D lo (run_labels g k lo hi) = None"
proof (rule run_walk_none)
  show "0 < D" using assms(1) by (simp add: half_notes_def)
  assume "lo \<le> hi"
  from assms(2) [OF this] have "rat_of_int (2 * (hi - lo) - run_greats g k lo hi) < of_int h"
    by (simp only: of_int_less_iff)
  then show "of_int (hi - lo) - of_int (max 0 (min hi (g + k) - max lo g)) / 2 < D"
    using assms(1) by (simp add: half_notes_def run_greats_def field_simps)
qed

lemma half_ceiling: "half_notes D h \<Longrightarrow> 2 * \<lceil>D\<rceil> - 1 \<le> h \<and> h \<le> 2 * \<lceil>D\<rceil>"
  unfolding half_notes_def by (elim conjE) (simp, linarith)

lemma ceiling_half: "2 * \<lceil>rat_of_int a / 2\<rceil> - 1 \<le> a \<and> a \<le> 2 * \<lceil>rat_of_int a / 2\<rceil>"
  by linarith

lemma half_notes_double:
  assumes "half_notes D h" "\<bar>p\<bar> \<le> 2 ^ 40"
  shows "mul64 2 (sub64 D (r64 (of_int p))) = of_int (h - 2 * p)"
proof -
  have small: "\<bar>h - 2 * p\<bar> \<le> 2 ^ 53" using assms by (auto simp: half_notes_def)
  have "2 * sub64 D (r64 (of_int p)) = of_int (h - 2 * p)" by (simp add: half_notes_sub [OF assms])
  then show ?thesis unfolding mul64_def by (simp only: r64_of_int [OF small])
qed

lemma half_notes_after:
  assumes "half_notes D h" "\<bar>p\<bar> \<le> 2 ^ 40" "\<bar>k\<bar> \<le> 2 ^ 40"
  shows "sub64 (sub64 D (r64 (of_int p))) (mul64 (1 / 2) (r64 (of_int k))) = of_int (h - 2 * p - k) / 2"
proof -
  have small: "\<bar>h - 2 * p - k\<bar> \<le> 2 ^ 53" "\<bar>k\<bar> \<le> 2 ^ 53" using assms by (auto simp: half_notes_def)
  have "rat_of_int (h - 2 * p) / 2 - of_int k / 2 = of_int (h - 2 * p - k) / 2 ^ 1" by (simp add: field_simps)
  then have "sub64 (of_int (h - 2 * p) / 2) (of_int k / 2) = of_int (h - 2 * p - k) / 2 ^ 1"
    unfolding sub64_def by (simp only: r64_dyadic [OF small(1)])
  then show ?thesis by (simp only: half_notes_sub [OF assms(1,2)] mul64_half [OF small(2)] power_one_right)
qed


section \<open>The Perfect activation of a packed prefix\<close>

lemma half_notes_offset:
  assumes "half_notes D h" "0 \<le> k" "k \<le> 2 ^ 38"
  shows "perfect_fill_crossing_offset D k first = \<lceil>rat_of_int (h + k) / 2\<rceil> - (if first then 1 else 0)"
    and "1 \<le> \<lceil>rat_of_int (h + k) / 2\<rceil>"
proof -
  have small: "\<bar>h + k\<bar> \<le> 2 ^ 53" "\<bar>k\<bar> \<le> 2 ^ 53" using assms by (auto simp: half_notes_def)
  have "D + of_int k / 2 = rat_of_int (h + k) / 2 ^ 1" using assms(1) by (simp add: half_notes_def field_simps)
  then have "add64 D (mul64 (1 / 2) (r64 (of_int k))) = rat_of_int (h + k) / 2 ^ 1"
    unfolding add64_def mul64_half [OF small(2)] by (simp only: r64_dyadic [OF small(1)])
  then have sum: "add64 D (mul64 (1 / 2) (r64 (of_int k))) = rat_of_int (h + k) / 2" by simp
  show "1 \<le> \<lceil>rat_of_int (h + k) / 2\<rceil>"
    using ceiling_half [of "h + k"] assms by (auto simp: half_notes_def)
  then show "perfect_fill_crossing_offset D k first = \<lceil>rat_of_int (h + k) / 2\<rceil> - (if first then 1 else 0)"
    unfolding perfect_fill_crossing_offset_def sum Let_def by simp
qed

lemma run_walk_Some:
  assumes "half_notes D h" "fill_walk D lo (run_labels g k lo hi) = Some (i, great)"
  shows "lo \<le> i" "i < hi" "great \<longleftrightarrow> g \<le> i \<and> i < g + k" "2 * (i - lo) - run_greats g k lo i < h"
proof -
  have "0 < D" using assms(1) by (simp add: half_notes_def)
  from fill_walk_Some [OF assms(2) this] obtain m where
    m: "m < length (run_labels g k lo hi)" "i = lo + int m" "great = run_labels g k lo hi ! m"
      "fill_units (take m (run_labels g k lo hi)) < D" .
  from m show i: "lo \<le> i" "i < hi" by auto
  show "great \<longleftrightarrow> g \<le> i \<and> i < g + k" using m by (simp add: run_labels_nth)
  have "take m (run_labels g k lo hi) = run_labels g k lo i"
    using run_labels_take [of m hi lo g k] m(1) unfolding m(2) by simp
  then have "of_int (i - lo) - of_int (run_greats g k lo i) / 2 < D"
    using m(4) run_units_upto [OF i(1), of g k] by (simp add: run_greats_def)
  then have "rat_of_int (2 * (i - lo) - run_greats g k lo i) < of_int h"
    using assms(1) by (simp add: half_notes_def field_simps)
  then show "2 * (i - lo) - run_greats g k lo i < h" by (simp only: of_int_less_iff)
qed

text \<open>With \<open>k\<close> Greats packed at a section's first accumulating note and Perfects after them,
  \<open>perfect_crossing_is_region3\<close> accepts the offset of \<open>perfect_fill_crossing_offset\<close> exactly when
  the note-by-note walk starts fever on that note and it is a Perfect; what it refuses crosses inside
  the run. First and later sections alike, for a threshold in whole half-notes.\<close>

theorem perfect_crossing_is_walk:
  fixes D :: f64 and k n :: int and first :: bool
  assumes "half_notes D h" "0 \<le> k" "k \<le> 2 ^ 38"
  defines "fill \<equiv> perfect_fill_crossing_offset D k first" and "start \<equiv> (if first then 0 else 1 :: int)"
  assumes "fill < n"
  shows "perfect_crossing_is_region3 fill k first D
    = Inr (fill_walk D start (run_labels start k start n) = Some (fill, False))"
proof -
  define c where "c = \<lceil>rat_of_int (h + k) / 2\<rceil>"
  have c: "1 \<le> c" "2 * c - 1 \<le> h + k" "h + k \<le> 2 * c"
    using half_notes_offset(2) [OF assms(1-3)] ceiling_half [of "h + k"] unfolding c_def by blast+
  have fill: "fill = c - 1 + start"
    using half_notes_offset(1) [OF assms(1-3), of first] by (simp add: fill_def start_def c_def)
  have slots: "(if first then fill else fill - 1) = c - 1" by (simp add: fill start_def)
  have D: "0 < D" "h \<le> 2 ^ 40" "0 < h" using assms(1) by (simp_all add: half_notes_def)
  have small: "\<bar>c - 1\<bar> \<le> 2 ^ 53" "\<bar>k\<bar> \<le> 2 ^ 53" "\<bar>2 * (c - 1) - k\<bar> \<le> 2 ^ 53" using c D assms(2,3) by auto
  have gap: "sub64 (r64 (of_int (c - 1))) (mul64 (1 / 2) (r64 (of_int k))) < D \<longleftrightarrow> 2 * (c - 1) - k < h"
  proof -
    have "rat_of_int (c - 1) - of_int k / 2 = of_int (2 * (c - 1) - k) / 2 ^ 1" by (simp add: field_simps)
    then have "sub64 (r64 (of_int (c - 1))) (mul64 (1 / 2) (r64 (of_int k))) = of_int (2 * (c - 1) - k) / 2 ^ 1"
      unfolding sub64_def mul64_half [OF small(2)] r64_of_int [OF small(1)] by (simp only: r64_dyadic [OF small(3)])
    moreover have "D = of_int h / 2 ^ 1" using assms(1) by (simp add: half_notes_def)
    ultimately have "sub64 (r64 (of_int (c - 1))) (mul64 (1 / 2) (r64 (of_int k))) < D
        \<longleftrightarrow> rat_of_int (2 * (c - 1) - k) < of_int h"
      by (simp only: divide_less_cancel) simp
    then show ?thesis by (simp only: of_int_less_iff)
  qed
  have greats: "run_greats start k start (c - 1 + start) = k" "run_greats start k start (c + start) = k" if "k \<le> c - 1"
    using that assms(2) by (simp_all add: run_greats_def)
  have walk: "fill_walk D start (run_labels start k start n) = Some (fill, False)
    \<longleftrightarrow> k \<le> c - 1 \<and> 2 * (c - 1) - k < h" (is "?walk \<longleftrightarrow> ?ok")
  proof
    assume ?walk
    then show ?ok
      using run_walk_Some(3,4) [OF assms(1) \<open>?walk\<close>] greats assms(2) c(1) by (auto simp: fill)
  next
    assume ?ok
    then show ?walk using c assms(2,6) greats
      by (intro half_walk [OF assms(1)]) (auto simp: fill)
  qed
  show ?thesis
    using D(1) c assms(2) unfolding walk perfect_crossing_is_region3_def Let_def slots gap by auto
qed

section \<open>Concrete sections\<close>

text \<open>Two Greats before two Perfects, with a threshold of three and a half Perfects: the bar stands at
  three before the late Great, which fills it.\<close>

lemma late_great_gate_is_walk_witness:
  "late_great_prefix_is_legal 4 2 (7 / 2) True = Inr True"
proof -
  have "fill_walk (7 / 2) 0 (late_great_labels 2 2) = Some (4, True)" by code_simp
  then show ?thesis using late_great_gate_is_walk [of "7 / 2" 2 4 True 0] by simp
qed


lemma perfect_crossing_is_walk_witness: "perfect_crossing_is_region3 5 2 False (7 / 2) = Inr True"
proof -
  have fill: "perfect_fill_crossing_offset (7 / 2) 2 False = 5" by code_simp
  have "fill_walk (7 / 2) 1 (run_labels 1 2 1 20) = Some (5, False)" by code_simp
  then show ?thesis
    using perfect_crossing_is_walk [of "7 / 2" 7 2 False 20] by (simp add: half_notes_def fill)
qed

end
