(* ===== verification/Stats.thy ===== *)
theory Stats
  imports GameData
begin

text \<open>
  gear_optimizer/stats.py and the tables beside it: a loadout's stats as fixed stats plus items plus
  gems, the solver's stat vector (core/gem_defs.py, solver/base_stats.py), the color flags of a
  song (core/color_flags.py) and the team buff (core/team_buff.py, solver/song_config.py).
\<close>

section \<open>Gems\<close>

datatype gem_key = PP | CM | FM | FT | FF | ELEMENT

fun gem_key_value :: "gem_key \<Rightarrow> string" where
  "gem_key_value PP = ''Perfect Points''"
| "gem_key_value CM = ''Combo Multiplier''"
| "gem_key_value FM = ''Fever Multiplier''"
| "gem_key_value FT = ''Fever Time''"
| "gem_key_value FF = ''Fever Fill Rate''"
| "gem_key_value ELEMENT = ''Element''"

definition STAT_GEMS :: "(string, int \<times> string) dict" where
  "STAT_GEMS =
    [(''Perfect Points'', (STAT_GEM_GAIN_NORMAL, ''Chill'')),
     (''Combo Multiplier'', (STAT_GEM_GAIN_NORMAL, ''Flow'')),
     (''Fever Multiplier'', (STAT_GEM_GAIN_FEVER, ''Rush'')),
     (''Fever Time'', (STAT_GEM_GAIN_FEVER, ''Beat'')),
     (''Fever Fill Rate'', (STAT_GEM_GAIN_FEVER, ''Vibe''))]"

definition GEM_KINDS :: "string list" where
  "GEM_KINDS = map fst STAT_GEMS @ [''Element'']"

definition gems :: "int \<Rightarrow> int \<Rightarrow> int \<Rightarrow> int \<Rightarrow> int \<Rightarrow> int \<Rightarrow> (string, int) dict" where
  "gems pp cm fm ft ff element =
    [(''Perfect Points'', pp), (''Combo Multiplier'', cm), (''Fever Multiplier'', fm),
     (''Fever Time'', ft), (''Fever Fill Rate'', ff), (''Element'', element)]"

definition total :: "(string, int) dict list \<Rightarrow> stats res" where
  "total parts = fold_res bumps parts empty_stats"

definition apply_gems :: "stats \<Rightarrow> (string, int) dict \<Rightarrow> string \<Rightarrow> stats res" where
  "apply_gems stats allocation selected_element =
     (if \<not> set (map fst allocation) \<subseteq> set GEM_KINDS then Inl ValueError
      else bind_res
        (fold_res (\<lambda>(stat, gain, element).
             let count = get_or allocation stat 0
             in bumps [(stat, count * gain), (element, count * STAT_GEM_ELEMENT_GAIN)]) STAT_GEMS stats)
        (\<lambda>out. let element_gems = get_or allocation ''Element'' 0
           in if element_gems \<noteq> 0
              then if selected_element \<notin> set ELEMENTS then Inl ValueError
                   else bump selected_element (element_gems * ELEMENT_GEM_GAIN) out
              else Inr out))"

text \<open>The catalogs map an item's name to its stats row.\<close>

definition named_loadout_stats :: "(string, int) dict \<Rightarrow> string list \<Rightarrow> string list \<Rightarrow>
    (string, stats) dict \<Rightarrow> (string, stats) dict \<Rightarrow> (string, int) dict \<Rightarrow> string \<Rightarrow> stats res" where
  "named_loadout_stats fixed gear_names mini_names gear_rows mini_rows allocation selected_element =
     (let items = List.map_filter (map_of gear_rows) gear_names
                  @ List.map_filter (map_of mini_rows) mini_names
      in bind_res (total (fixed # items)) (\<lambda>row. apply_gems row allocation selected_element))"

definition BASE_STAT_KEYS :: "string list" where
  "BASE_STAT_KEYS = map gem_key_value [PP, CM, FM, FT, FF] @ [''Beat'', ''Vibe'', ''Rush'', ''Flow'', ''Chill'']"

definition build_gem_counts :: "int \<Rightarrow> int \<Rightarrow> int \<Rightarrow> int \<Rightarrow> (string, int) dict" where
  "build_gem_counts g_pp g_cm g_fm g_ov =
    [(gem_key_value PP, g_pp), (gem_key_value CM, g_cm), (gem_key_value FM, g_fm), (gem_key_value ELEMENT, g_ov)]"

text \<open>\<open>None\<close> stands for a value that is no mapping.\<close>

definition element_gem_count :: "(string, int) dict option \<Rightarrow> int" where
  "element_gem_count gem_counts =
     (case gem_counts of None \<Rightarrow> 0 | Some d \<Rightarrow> get_or d (gem_key_value ELEMENT) 0)"

section \<open>The solver's stat vector\<close>

definition STAT_NAMES :: "string list" where "STAT_NAMES = BASE_STAT_KEYS"

definition COLOR_TO_STAT_INDEX :: "(string, nat) dict" where
  "COLOR_TO_STAT_INDEX = [(''Beat'', 5), (''Vibe'', 6), (''Rush'', 7), (''Flow'', 8), (''Chill'', 9)]"

text \<open>NumPy refuses a Python int outside the 32-bit range with an OverflowError.\<close>

definition int32 :: "int \<Rightarrow> 32 word res" where
  "int32 v = (if - (2 ^ 31) \<le> v \<and> v < 2 ^ 31 then Inr (word_of_int v) else Inl OverflowError)"

definition build_stats_array :: "stats \<Rightarrow> 32 word list res" where
  "build_stats_array stats = bind_res (map_res (lookup stats) STAT_NAMES) (map_res int32)"

definition build_stats_dict :: "32 word list \<Rightarrow> stats res" where
  "build_stats_dict values =
     (if length values < length STAT_NAMES then Inl IndexError
      else Inr (map (\<lambda>(name, v). (name, sint v)) (zip STAT_NAMES values)))"

definition loadout_totals :: "stats \<Rightarrow> string \<Rightarrow> string \<Rightarrow> (int \<times> int \<times> int \<times> int \<times> int \<times> int \<times> int) res" where
  "loadout_totals stats primary_color secondary_color =
     bind_res (lookup stats ''Perfect Points'') (\<lambda>pp.
     bind_res (lookup stats ''Combo Multiplier'') (\<lambda>cm.
     bind_res (lookup stats ''Fever Multiplier'') (\<lambda>fm.
     bind_res (lookup stats ''Fever Time'') (\<lambda>ft.
     bind_res (lookup stats ''Fever Fill Rate'') (\<lambda>ff.
       Inr (pp, cm, fm, get_or stats primary_color 0, get_or stats secondary_color 0, ft, ff))))))"

section \<open>Color flags\<close>

definition GEM_KEYS :: "(string, string) dict" where
  "GEM_KEYS = [(''Fever Time'', ''ft''), (''Fever Fill Rate'', ''ff''), (''Perfect Points'', ''pp''),
     (''Combo Multiplier'', ''cm''), (''Fever Multiplier'', ''fm'')]"

definition COLOR_FLAG_KEYS :: "string list" where
  "COLOR_FLAG_KEYS = concat (map (\<lambda>gem. map (\<lambda>side. ''is_'' @ side @ ''_'' @ gem) [''p'', ''s''])
     (map snd GEM_KEYS @ [''ov'']))"

definition gem_element :: "string \<Rightarrow> string" where
  "gem_element stat = (case map_of STAT_GEMS stat of None \<Rightarrow> [] | Some (gain, element) \<Rightarrow> element)"

definition build_color_flags :: "string \<Rightarrow> string \<Rightarrow> string \<Rightarrow> (string, int) dict" where
  "build_color_flags primary secondary selected =
     concat (map (\<lambda>(stat, gem).
        [(''is_p_'' @ gem, of_bool (primary = gem_element stat)),
         (''is_s_'' @ gem, of_bool (secondary = gem_element stat))]) GEM_KEYS)
     @ [(''is_p_ov'', of_bool (selected \<noteq> [] \<and> selected = primary)),
        (''is_s_ov'', of_bool (selected \<noteq> [] \<and> selected = secondary))]"

section \<open>The team buff\<close>

text \<open>A tier's Perfect Points and element gains.\<close>

definition TEAM_BUFF_TIER_EFFECTS :: "(string, int \<times> int) dict" where
  "TEAM_BUFF_TIER_EFFECTS =
    [(''NONE'', (0, 0)), (''T1'', (25, 35)), (''T5'', (25, 30)), (''T10'', (20, 25)),
     (''T20'', (15, 20)), (''T50'', (10, 15)), (''T51'', (5, 10))]"

definition TEAM_BUFF_TIER_ORDER :: "string list" where
  "TEAM_BUFF_TIER_ORDER = [''NONE'', ''T1'', ''T5'', ''T10'', ''T20'', ''T50'', ''T51'']"

definition TEAM_BUFF_ELEMENTS :: "string list" where
  "TEAM_BUFF_ELEMENTS = [''Chill'', ''Flow'', ''Rush'', ''Beat'', ''Vibe'']"

definition CANONICAL_TEAM_BUFF_TIERS :: "string list" where
  "CANONICAL_TEAM_BUFF_TIERS = map fst TEAM_BUFF_TIER_EFFECTS"

definition OPTIMIZER_BASELINE_TEAM_BUFF :: string where "OPTIMIZER_BASELINE_TEAM_BUFF = ''T5''"

text \<open>\<open>str.upper\<close> and \<open>str.lower\<close> of ASCII text.\<close>

definition py_upper :: "string \<Rightarrow> string" where
  "py_upper s = map (\<lambda>c. let n = of_char c :: nat in if 97 \<le> n \<and> n \<le> 122 then char_of (n - 32) else c) s"

definition py_lower :: "string \<Rightarrow> string" where
  "py_lower s = map (\<lambda>c. let n = of_char c :: nat in if 65 \<le> n \<and> n \<le> 90 then char_of (n + 32) else c) s"

definition canonicalize_team_buff :: "string \<Rightarrow> string" where
  "canonicalize_team_buff v =
     (let s = py_upper (py_strip v)
      in if s = [] then [] else if s \<in> set CANONICAL_TEAM_BUFF_TIERS then s else [])"

definition normalize_team_buff :: "string \<Rightarrow> string \<Rightarrow> string" where
  "normalize_team_buff v dflt =
     (let s = canonicalize_team_buff v
      in if s \<noteq> [] then s
         else let d = canonicalize_team_buff dflt in if d \<noteq> [] then d else OPTIMIZER_BASELINE_TEAM_BUFF)"

fun unique_tiers :: "string list \<Rightarrow> string list \<Rightarrow> string list" where
  "unique_tiers [] out = out"
| "unique_tiers (raw # rest) out =
     (let tier = canonicalize_team_buff raw
      in unique_tiers rest (if tier \<noteq> [] \<and> tier \<notin> set out then out @ [tier] else out))"

text \<open>\<open>None\<close> and an empty list both read the default.\<close>

definition normalize_team_buff_sequence :: "string list option \<Rightarrow> string list \<Rightarrow> string list" where
  "normalize_team_buff_sequence tiers dflt =
     (let source = (case tiers of None \<Rightarrow> dflt | Some ts \<Rightarrow> if ts = [] then dflt else ts);
          out = unique_tiers source []
      in if out \<noteq> [] then out
         else let fallback = unique_tiers dflt [] in if fallback \<noteq> [] then fallback else [OPTIMIZER_BASELINE_TEAM_BUFF])"

definition team_buff_display_label :: "string \<Rightarrow> string \<Rightarrow> string" where
  "team_buff_display_label team_buff dflt =
     (let tier = normalize_team_buff team_buff dflt in if tier = ''NONE'' then ''None'' else tier)"

definition team_buff_effect :: "string \<Rightarrow> string \<Rightarrow> (string, int) dict" where
  "team_buff_effect team_buff team_color =
     (case map_of TEAM_BUFF_TIER_EFFECTS (canonicalize_team_buff team_buff) of
        None \<Rightarrow> []
      | Some (pp_add, elem_add) \<Rightarrow>
          let out = (if pp_add \<noteq> 0 then [(''Perfect Points'', pp_add)] else []);
              color = py_strip team_color
          in case find (\<lambda>k. py_lower k = py_lower color) TEAM_BUFF_ELEMENTS of
               None \<Rightarrow> out
             | Some k \<Rightarrow> if elem_add \<noteq> 0 then AList.update k elem_add out else out)"

text \<open>\<open>baseline_fixed_stats\<close> reads only the chart's primary color.\<close>

definition baseline_fixed_stats :: "string \<Rightarrow> stats res" where
  "baseline_fixed_stats primary_color =
     bumps (team_buff_effect OPTIMIZER_BASELINE_TEAM_BUFF primary_color) empty_stats"

section \<open>What the gems and items add\<close>

lemma STATS_dom: "dom (map_of empty_stats) = set STATS"
  by (simp add: empty_stats_def dom_map_of_conv_image_fst image_image)

definition gem_row :: "(string, int) dict \<Rightarrow> string \<times> int \<times> string \<Rightarrow> (string \<times> int) list" where
  "gem_row allocation = (\<lambda>(stat, gain, element).
     [(stat, get_or allocation stat 0 * gain), (element, get_or allocation stat 0 * STAT_GEM_ELEMENT_GAIN)])"

definition stat_gem_rows :: "(string, int) dict \<Rightarrow> (string \<times> int) list" where
  "stat_gem_rows allocation = concat (map (gem_row allocation) STAT_GEMS)"

lemma apply_gems_bumps:
  assumes "set (map fst allocation) \<subseteq> set GEM_KINDS"
  shows "apply_gems row allocation sel =
     bind_res (bumps (stat_gem_rows allocation) row) (\<lambda>out.
       if get_or allocation ''Element'' 0 = 0 then Inr out
       else if sel \<notin> set ELEMENTS then Inl ValueError
       else bump sel (get_or allocation ''Element'' 0 * ELEMENT_GEM_GAIN) out)"
proof -
  have step: "(\<lambda>(stat, gain, element). let count = get_or allocation stat 0
       in bumps [(stat, count * gain), (element, count * STAT_GEM_ELEMENT_GAIN)])
     = (\<lambda>x. bumps (gem_row allocation x))"
    unfolding Let_def gem_row_def by (rule ext) (simp only: split_def)
  have tail: "(\<lambda>out. let element_gems = get_or allocation ''Element'' 0
           in if element_gems \<noteq> 0
              then if sel \<notin> set ELEMENTS then Inl ValueError
                   else bump sel (element_gems * ELEMENT_GEM_GAIN) out
              else Inr out) = (\<lambda>out.
       if get_or allocation ''Element'' 0 = 0 then Inr out
       else if sel \<notin> set ELEMENTS then Inl ValueError
       else bump sel (get_or allocation ''Element'' 0 * ELEMENT_GEM_GAIN) out)"
    by (auto simp: Let_def)
  show ?thesis
    unfolding apply_gems_def step tail stat_gem_rows_def fold_res_bumps using assms by (simp only: if_not_P not_not if_P if_False simp_thms)
qed

text \<open>What an allocation adds to a stat: the gains of its stat gems, three per gem of the stat gem's
  element, six per element gem of the selected one.\<close>

definition gem_effect :: "(string, int) dict \<Rightarrow> string \<Rightarrow> string \<Rightarrow> int" where
  "gem_effect allocation sel s =
     (\<Sum>(stat, gain, element)\<leftarrow>STAT_GEMS. get_or allocation stat 0 *
        ((if stat = s then gain else 0) + (if element = s then 3 else 0)))
     + (if sel = s then 6 * get_or allocation ''Element'' 0 else 0)"

lemma stat_gem_rows_keys: "fst ` set (stat_gem_rows allocation) = set STATS"
  by (auto simp: stat_gem_rows_def gem_row_def STAT_GEMS_def STATS_def CURVE_STATS_def ELEMENTS_def)

lemma added_gem_rows: "added (concat (map (gem_row allocation) xs)) s =
    (\<Sum>(stat, gain, element)\<leftarrow>xs. get_or allocation stat 0 *
        ((if stat = s then gain else 0) + (if element = s then 3 else 0)))"
  by (induction xs) (auto simp: gem_row_def STAT_GEM_ELEMENT_GAIN_def algebra_simps)

lemma stat_gem_rows_added: "added (stat_gem_rows allocation) s =
    (\<Sum>(stat, gain, element)\<leftarrow>STAT_GEMS. get_or allocation stat 0 *
        ((if stat = s then gain else 0) + (if element = s then 3 else 0)))"
  unfolding stat_gem_rows_def by (rule added_gem_rows)

lemma ELEMENTS_STATS: "set ELEMENTS \<subseteq> set STATS"
  by (auto simp: STATS_def)

lemma apply_gems_effect:
  assumes "set STATS \<subseteq> dom (map_of row)" "set (map fst allocation) \<subseteq> set GEM_KINDS"
    "get_or allocation ''Element'' 0 = 0 \<or> sel \<in> set ELEMENTS"
  shows "\<exists>out. apply_gems row allocation sel = Inr out \<and> dom (map_of out) = dom (map_of row)
    \<and> (\<forall>s. get_or out s 0 = get_or row s 0 + gem_effect allocation sel s)"
proof -
  obtain mid where mid: "bumps (stat_gem_rows allocation) row = Inr mid"
    using bumps_total [of "stat_gem_rows allocation" row] assms(1) stat_gem_rows_keys by auto
  note eff = bumps_get_or [OF mid] bumps_dom [OF mid]
  show ?thesis
  proof (cases "get_or allocation ''Element'' 0 = 0")
    case True
    then show ?thesis using eff by (simp add: apply_gems_bumps [OF assms(2)] mid gem_effect_def
        stat_gem_rows_added)
  next
    case False
    then have sel: "sel \<in> set ELEMENTS" using assms(3) by simp
    then have "sel \<in> dom (map_of mid)" using eff assms(1) ELEMENTS_STATS by blast
    then obtain out where "bump sel (get_or allocation ''Element'' 0 * ELEMENT_GEM_GAIN) mid = Inr out"
      using bump_total [of sel mid] by blast
    then show ?thesis using False sel eff
      by (auto simp: apply_gems_bumps [OF assms(2)] mid gem_effect_def stat_gem_rows_added
          bump_get_or bump_dom ELEMENT_GEM_GAIN_def mult.commute)
  qed
qed

lemma apply_gems_errors:
  assumes "set STATS \<subseteq> dom (map_of row)"
  shows "apply_gems row allocation sel = Inl e \<longleftrightarrow> e = ValueError
    \<and> (\<not> set (map fst allocation) \<subseteq> set GEM_KINDS \<or> get_or allocation ''Element'' 0 \<noteq> 0 \<and> sel \<notin> set ELEMENTS)"
proof (cases "set (map fst allocation) \<subseteq> set GEM_KINDS")
  case False
  then show ?thesis by (auto simp: apply_gems_def)
next
  case True
  show ?thesis
  proof (cases "get_or allocation ''Element'' 0 = 0 \<or> sel \<in> set ELEMENTS")
    case ok: True
    then show ?thesis using apply_gems_effect [OF assms True ok] True by auto
  next
    case bad: False
    obtain mid where "bumps (stat_gem_rows allocation) row = Inr mid"
      using bumps_total [of "stat_gem_rows allocation" row] assms stat_gem_rows_keys by auto
    then show ?thesis using bad True by (auto simp: apply_gems_bumps [OF True])
  qed
qed

lemma added_get_or: "wf_dict d \<Longrightarrow> added d s = get_or d s 0"
proof (induction d)
  case (Cons kv d)
  obtain k v where kv: "kv = (k, v)" by fastforce
  have "added d k = 0" if "k \<notin> fst ` set d"
    using that by (induction d) auto
  then show ?case using Cons by (auto simp: kv wf_dict_def get_or_def)
qed (simp add: get_or_def)

text \<open>A row of known stats, one value each.\<close>

definition valid_row :: "stats \<Rightarrow> bool" where
  "valid_row row \<longleftrightarrow> wf_dict row \<and> fst ` set row \<subseteq> set STATS"

lemma total_sum:
  assumes "\<forall>row \<in> set parts. valid_row row"
  shows "\<exists>out. total parts = Inr out \<and> wf_dict out \<and> dom (map_of out) = set STATS
    \<and> (\<forall>s. get_or out s 0 = (\<Sum>row\<leftarrow>parts. get_or row s 0))"
proof -
  have eq: "total parts = bumps (concat parts) empty_stats"
    using fold_res_bumps [of id parts empty_stats] by (simp add: total_def id_def)
  have "fst ` set (concat parts) \<subseteq> dom (map_of empty_stats)"
    using assms unfolding STATS_dom by (auto simp: valid_row_def)
  then obtain out where out: "bumps (concat parts) empty_stats = Inr out"
    using bumps_total by blast
  have "added (concat parts) s = (\<Sum>row\<leftarrow>parts. get_or row s 0)" for s
    using assms by (induction parts) (simp_all add: valid_row_def added_get_or)
  moreover have "get_or empty_stats s 0 = 0" for s
    by (simp add: empty_stats_def get_or_def map_of_map_restrict restrict_map_def)
  moreover have "wf_dict empty_stats"
    by (simp add: wf_dict_def empty_stats_def STATS_def CURVE_STATS_def ELEMENTS_def)
  ultimately show ?thesis
    using bumps_get_or [OF out] bumps_dom [OF out] bumps_wf [OF out] STATS_dom eq out by simp
qed

text \<open>C22: a loadout's stats (\<open>named_loadout_stats\<close> of stats.py over catalogs of well-formed rows)
  are defined exactly when the gems are valid, and each stat is the fixed value plus every known
  item's value plus what the gems add; a name the catalogs do not know adds nothing, and the stat
  row has exactly the game's stats.\<close>

theorem named_loadout_stats_sum:
  assumes "valid_row fixed" "\<forall>(n, row) \<in> set gear_rows \<union> set mini_rows. valid_row row"
    and "set (map fst allocation) \<subseteq> set GEM_KINDS"
    and "get_or allocation ''Element'' 0 = 0 \<or> sel \<in> set ELEMENTS"
  shows "\<exists>out. named_loadout_stats fixed gear_names mini_names gear_rows mini_rows allocation sel = Inr out
    \<and> dom (map_of out) = set STATS
    \<and> (\<forall>s. get_or out s 0 = get_or fixed s 0
          + (\<Sum>n\<leftarrow>gear_names. case map_of gear_rows n of None \<Rightarrow> 0 | Some row \<Rightarrow> get_or row s 0)
          + (\<Sum>n\<leftarrow>mini_names. case map_of mini_rows n of None \<Rightarrow> 0 | Some row \<Rightarrow> get_or row s 0)
          + gem_effect allocation sel s)"
proof -
  let ?items = "List.map_filter (map_of gear_rows) gear_names @ List.map_filter (map_of mini_rows) mini_names"
  have valid: "\<forall>row \<in> set (fixed # ?items). valid_row row"
  proof -
    have "valid_row r" if "map_of gear_rows n = Some r \<or> map_of mini_rows n = Some r" for n r
      using assms(2) that map_of_SomeD by fastforce
    then show ?thesis using assms(1) by (fastforce simp: List.map_filter_def)
  qed
  obtain row where row: "total (fixed # ?items) = Inr row" "dom (map_of row) = set STATS"
    "\<forall>s. get_or row s 0 = (\<Sum>r\<leftarrow>fixed # ?items. get_or r s 0)"
    using total_sum [OF valid] by blast
  have picked: "(\<Sum>r\<leftarrow>List.map_filter (map_of rows) names. get_or r s 0)
      = (\<Sum>n\<leftarrow>names. case map_of rows n of None \<Rightarrow> 0 | Some r \<Rightarrow> get_or r s (0::int))" for rows names s
    by (induction names) (auto simp: map_filter_simps split: option.splits)
  show ?thesis
    using apply_gems_effect [OF _ assms(3,4), of row] row
    by (auto simp: named_loadout_stats_def Let_def picked)
qed

text \<open>Two gears, one of them unknown, with two element gems and one Perfect Points gem.\<close>

lemma named_loadout_stats_sum_witness:
  "\<exists>out. named_loadout_stats [(''Beat'', 30)] [''Cap'', ''Lost''] [] [(''Cap'', [(''Chill'', 4)])] []
      [(''Perfect Points'', 1), (''Element'', 2)] ''Beat'' = Inr out
    \<and> get_or out ''Beat'' 0 = 42 \<and> get_or out ''Chill'' 0 = 7 \<and> get_or out ''Perfect Points'' 0 = 2"
proof -
  let ?gems = "[(''Perfect Points'', 1), (''Element'', 2)]"
  have effect: "gem_effect ?gems ''Beat'' ''Beat'' = 12" "gem_effect ?gems ''Beat'' ''Chill'' = 3"
    "gem_effect ?gems ''Beat'' ''Perfect Points'' = 2"
    by code_simp+
  have "valid_row [(''Beat'', 30)]" "\<forall>(n, row) \<in> set [(''Cap'', [(''Chill'', 4)])] \<union> set []. valid_row row"
    "set (map fst ?gems) \<subseteq> set GEM_KINDS" "''Beat'' \<in> set ELEMENTS"
    by (simp_all add: valid_row_def wf_dict_def STATS_def ELEMENTS_def GEM_KINDS_def STAT_GEMS_def)
  from named_loadout_stats_sum [OF this(1-3) disjI2, OF this(4), of "[''Cap'', ''Lost'']" "[]"]
  show ?thesis by (elim exE) (auto simp: effect get_or_def)
qed

text \<open>On a row with every stat, \<open>apply_gems\<close> raises only the ValueError of an unknown gem kind or
  of element gems without a selected element.\<close>

theorem apply_gems_raises:
  assumes "set STATS \<subseteq> dom (map_of row)"
  shows "apply_gems row allocation sel = Inl e \<longleftrightarrow> e = ValueError
    \<and> ((\<exists>k v. (k, v) \<in> set allocation \<and> k \<notin> set GEM_KINDS)
        \<or> get_or allocation ''Element'' 0 \<noteq> 0 \<and> sel \<notin> set ELEMENTS)"
proof -
  have "(\<exists>k v. (k, v) \<in> set allocation \<and> k \<notin> set GEM_KINDS) \<longleftrightarrow> \<not> set (map fst allocation) \<subseteq> set GEM_KINDS"
    by force
  then show ?thesis using apply_gems_errors [OF assms, of allocation sel e] by (simp only:)
qed

lemma apply_gems_raises_witness:
  "apply_gems empty_stats [(''Element'', 3)] ''Moon'' = Inl ValueError"
  using apply_gems_raises [of empty_stats "[(''Element'', 3)]" "''Moon''" ValueError] STATS_dom
  by (simp add: get_or_def ELEMENTS_def)

end
