(* ===== verification/Score.thy ===== *)
theory Score
  imports Stats
begin

text \<open>
  gear_optimizer/score.py: the game's per-note scoring of a timing surface, and
  \<open>_surface_score\<close> of solver/gem_search.py, the gem search's copy of it. A surface says which of the
  first hundred notes are in fever or Great (one bit per note in words of 32 bits) and counts
  the notes after them. Scores are Python's unbounded integers here; the source keeps a base score
  in 64 bits, which no song's score comes near.
\<close>

section \<open>Factors\<close>

definition HEAD_NOTES :: nat where "HEAD_NOTES = COMBO_RAMP_NOTES"
definition GREAT_POINTS :: int where "GREAT_POINTS = 150"

record factors =
  f_base :: f64
  f_combo :: f64
  f_ramp :: "f64 list"
  f_fever :: f64
  great_base :: int
  fever_time_row :: int
  fever_fill_row :: int

definition factors_of :: "stats \<Rightarrow> stat_curves \<Rightarrow> string \<Rightarrow> string \<Rightarrow> factors res" where
  "factors_of stats curves primary secondary =
     (let primary_value = get_or stats primary 0; secondary_value = get_or stats secondary 0
      in bind_res (lookup stats ''Perfect Points'') (\<lambda>pp.
         bind_res (factor curves ''Perfect Points'' pp) (\<lambda>pp_factor.
         bind_res (lookup stats ''Combo Multiplier'') (\<lambda>cm.
         bind_res (factor curves ''Combo Multiplier'' cm) (\<lambda>combo.
         bind_res (lookup stats ''Fever Multiplier'') (\<lambda>fm.
         bind_res (factor curves ''Fever Multiplier'' fm) (\<lambda>fever.
         bind_res (lookup stats ''Fever Time'') (\<lambda>ft.
         bind_res (lookup stats ''Fever Fill Rate'') (\<lambda>ff.
           Inr \<lparr>f_base = add64 (r64 (of_int (primary_value * 2 + secondary_value))) pp_factor,
                f_combo = combo,
                f_ramp = ramp_of curves cm,
                f_fever = fever,
                great_base =
                  (if primary = secondary then primary_value * 2
                   else \<lfloor>mul64 (r64 (of_int primary_value)) (div64 4 3)\<rfloor>
                        + \<lfloor>mul64 (r64 (of_int secondary_value)) (div64 2 3)\<rfloor>) + GREAT_POINTS,
                fever_time_row = ft,
                fever_fill_row = ff\<rparr>)))))))))"

section \<open>The base score over a timing cell\<close>

text \<open>A cell's surfaces, one row per surface: the three arrays of \<open>TimelineCell\<close> read row by row.\<close>

record timeline_surface =
  head_words :: "64 word list"
  ts_body_fever :: int
  ts_body_normal :: int

type_synonym timeline_cell = "timeline_surface list"

definition mark_head :: "nat \<Rightarrow> 64 word list \<Rightarrow> 64 word list res" where
  "mark_head note words =
     (if note div 32 < length words
      then Inr (words[note div 32 := words ! (note div 32) OR push_bit (note mod 32) 1])
      else Inl IndexError)"

definition flatnonzero :: "bool list \<Rightarrow> nat list" where
  "flatnonzero bs = filter (\<lambda>i. bs ! i) [0..<length bs]"

definition single_surface_cell :: "bool list \<Rightarrow> int \<Rightarrow> int \<Rightarrow> timeline_cell res" where
  "single_surface_cell head_in_fever body_fever body_normal =
     bind_res (fold_res mark_head (flatnonzero head_in_fever) (replicate 4 0)) (\<lambda>words.
       Inr [\<lparr>head_words = words, ts_body_fever = body_fever, ts_body_normal = body_normal\<rparr>])"

text \<open>A frontier payload: per (Fever Time, Fever Fill) cell the range of its surfaces in the pools.\<close>

record timeline_payload =
  grid_frontier_count :: "int list list"
  grid_frontier_offset :: "int list list"
  grid_frontier_masks_bits_pool :: "32 word list list"
  grid_frontier_body_fever_pool :: "int list"
  grid_frontier_body_normal_pool :: "int list"
  frontier_pool_used :: int

definition grid_at :: "int list list \<Rightarrow> nat \<Rightarrow> nat \<Rightarrow> int res" where
  "grid_at g i j = (if i < length g \<and> j < length (g ! i) then Inr (g ! i ! j) else Inl IndexError)"

definition timeline_cell_of :: "timeline_payload \<Rightarrow> int \<Rightarrow> int \<Rightarrow> int \<Rightarrow> (timeline_cell \<times> int) res" where
  "timeline_cell_of payload fever_time fever_fill max_row =
     (let ft = nat (clamp 0 max_row fever_time); ff = nat (clamp 0 max_row fever_fill)
      in bind_res (grid_at (grid_frontier_count payload) ft ff) (\<lambda>count.
         bind_res (grid_at (grid_frontier_offset payload) ft ff) (\<lambda>offset.
           if count \<le> 0 \<or> offset < 0 \<or> offset + count > frontier_pool_used payload then Inl ValueError
           else Inr (map (\<lambda>(mask, bf, bn). \<lparr>head_words = map ucast (take 4 mask),
                            ts_body_fever = bf, ts_body_normal = bn\<rparr>)
                       (take (nat count) (drop (nat offset)
                         (zip (grid_frontier_masks_bits_pool payload)
                           (zip (grid_frontier_body_fever_pool payload)
                                (grid_frontier_body_normal_pool payload))))),
                     offset))))"

definition word_bit :: "64 word list \<Rightarrow> nat \<Rightarrow> int" where
  "word_bit words note = uint (drop_bit (note mod 32) (words ! (note div 32)) AND 1)"

definition best_timeline_score :: "factors \<Rightarrow> timeline_cell \<Rightarrow> nat \<Rightarrow> (int \<times> nat) res" where
  "best_timeline_score f cell total_notes =
     (let body_total = int (total_notes - HEAD_NOTES)
      in if (\<exists>s \<in> set cell. ts_body_fever s < 0) \<or> (\<exists>s \<in> set cell. ts_body_normal s < 0)
            \<or> (\<exists>s \<in> set cell. ts_body_fever s + ts_body_normal s \<noteq> body_total) then Inl ValueError
         else if cell = [] then Inl ValueError
         else
           let combo_value = \<lfloor>mul64 (f_base f) (f_combo f)\<rfloor>;
               fever_value = \<lfloor>mul64 (mul64 (f_base f) (f_combo f)) (f_fever f)\<rfloor>;
               head_len = min total_notes HEAD_NOTES;
               perfect = map (mul64 (f_base f)) (take head_len (f_ramp f));
               normal = map floor perfect;
               fever = map (\<lambda>p. \<lfloor>mul64 p (f_fever f)\<rfloor>) perfect;
               scores = map (\<lambda>s. ts_body_fever s * fever_value + ts_body_normal s * combo_value
                   + sum_list normal
                   + (\<Sum>note\<leftarrow>[0..<head_len]. word_bit (head_words s) note * (fever ! note - normal ! note))) cell;
               best = argmax scores
           in Inr (scores ! best, best))"

section \<open>The score of a Force Great surface\<close>

record fg_surface =
  fever0 :: int
  fever1 :: int
  fever2 :: int
  fever3 :: int
  great0 :: int
  great1 :: int
  great2 :: int
  great3 :: int
  body_fever :: int
  body_great :: int
  body_fever_great :: int

definition fever_words :: "fg_surface \<Rightarrow> int list" where
  "fever_words s = [fever0 s, fever1 s, fever2 s, fever3 s]"

definition great_words :: "fg_surface \<Rightarrow> int list" where
  "great_words s = [great0 s, great1 s, great2 s, great3 s]"

definition surface_bit :: "int list \<Rightarrow> nat \<Rightarrow> bool" where
  "surface_bit words note \<longleftrightarrow> drop_bit (note mod 32) (words ! (note div 32)) AND 1 \<noteq> 0"

definition fg_note_value :: "factors \<Rightarrow> fg_surface \<Rightarrow> nat \<Rightarrow> int" where
  "fg_note_value f surface note =
     (let in_fever = surface_bit (fever_words surface) note;
          is_great = surface_bit (great_words surface) note;
          scaling = f_ramp f ! note;
          perfect = mul64 (f_base f) scaling;
          value = (if in_fever then \<lfloor>mul64 perfect (f_fever f)\<rfloor> else \<lfloor>perfect\<rfloor>);
          great = r64 (of_int (great_base f))
      in if is_great
         then let great_value = mul64 great scaling;
                  gv = (if in_fever then \<lfloor>mul64 great_value (f_fever f)\<rfloor> else \<lfloor>great_value\<rfloor>)
              in value - max 0 (value - gv)
         else value)"

definition fg_surface_score :: "factors \<Rightarrow> fg_surface \<Rightarrow> nat \<Rightarrow> int res" where
  "fg_surface_score f surface total_notes =
     (let head_len = min total_notes HEAD_NOTES;
          body_total = int (total_notes - HEAD_NOTES)
      in if min (body_fever surface) (min (body_great surface) (body_fever_great surface)) < 0
            \<or> body_fever_great surface > min (body_fever surface) (body_great surface)
            \<or> body_fever surface + body_great surface - body_fever_great surface > body_total
         then Inl ValueError
         else
           let combo_value = \<lfloor>mul64 (f_base f) (f_combo f)\<rfloor>;
               fever_value = \<lfloor>mul64 (mul64 (f_base f) (f_combo f)) (f_fever f)\<rfloor>;
               great = r64 (of_int (great_base f));
               normal_great_loss = max 0 (combo_value - \<lfloor>mul64 great (f_combo f)\<rfloor>);
               fever_great_loss = max 0 (fever_value - \<lfloor>mul64 (mul64 great (f_combo f)) (f_fever f)\<rfloor>);
               score = body_fever surface * fever_value + (body_total - body_fever surface) * combo_value
                 - ((body_great surface - body_fever_great surface) * normal_great_loss
                    + body_fever_great surface * fever_great_loss)
           in Inr (score + (\<Sum>note\<leftarrow>[0..<head_len]. fg_note_value f surface note)))"

section \<open>The gem search's scorer\<close>

definition surface_score_note :: "int list \<Rightarrow> f64 \<Rightarrow> f64 \<Rightarrow> f64 list \<Rightarrow> f64 \<Rightarrow> nat \<Rightarrow> int" where
  "surface_score_note words base_value great_base_value ramp fever_mul i =
     (let wi = drop_bit 5 i; b = i AND 31;
          is_fever = drop_bit b (words ! wi) AND 1 \<noteq> 0;
          scaling = ramp ! i;
          perfect_val = (if is_fever then \<lfloor>mul64 (mul64 base_value scaling) fever_mul\<rfloor>
                         else \<lfloor>mul64 base_value scaling\<rfloor>)
      in if drop_bit b (words ! (4 + wi)) AND 1 \<noteq> 0
         then let great_val = (if is_fever then \<lfloor>mul64 (mul64 great_base_value scaling) fever_mul\<rfloor>
                               else \<lfloor>mul64 great_base_value scaling\<rfloor>)
              in min perfect_val great_val
         else perfect_val)"

definition surface_score :: "int list \<Rightarrow> int \<times> int \<times> int \<Rightarrow> nat \<times> int \<Rightarrow> int \<Rightarrow> int \<Rightarrow> f64 \<Rightarrow>
    f64 \<times> f64 list \<times> f64 \<Rightarrow> bool \<Rightarrow> int" where
  "surface_score words surface notes primary_val secondary_val pp_factor multipliers single_color =
     (let (bf, bg, bfg) = surface; (head_len, body_total) = notes;
          (combo_mul, ramp, fever_mul) = multipliers;
          base_value = add64 (r64 (of_int (primary_val * 2 + secondary_val))) pp_factor;
          combo_val = \<lfloor>mul64 base_value combo_mul\<rfloor>;
          fever_val = \<lfloor>mul64 (mul64 base_value combo_mul) fever_mul\<rfloor>;
          score = bf * fever_val + (body_total - bf) * combo_val;
          great_or = words ! 4 OR words ! 5 OR words ! 6 OR words ! 7;
          greats = bg > 0 \<or> great_or \<noteq> 0;
          great_base_value =
            (if greats
             then r64 (of_int (if single_color then primary_val * 2 + 150
                               else \<lfloor>mul64 (r64 (of_int primary_val)) (div64 4 3)\<rfloor>
                                    + \<lfloor>mul64 (r64 (of_int secondary_val)) (div64 2 3)\<rfloor> + 150))
             else 0);
          great_combo_val = \<lfloor>mul64 great_base_value combo_mul\<rfloor>;
          great_fever_val = \<lfloor>mul64 (mul64 great_base_value combo_mul) fever_mul\<rfloor>;
          body_normal_penalty = max 0 (combo_val - great_combo_val);
          body_fever_penalty = max 0 (fever_val - great_fever_val);
          score' = (if bg > 0
                    then score - (bg - bfg) * body_normal_penalty - bfg * body_fever_penalty
                    else score)
      in score' + (\<Sum>i\<leftarrow>[0..<head_len].
           surface_score_note words base_value great_base_value ramp fever_mul i))"

section \<open>Reading the masks\<close>

lemma surface_bit_bit: "surface_bit words note \<longleftrightarrow> bit (words ! (note div 32)) (note mod 32)"
  by (simp add: surface_bit_def)

lemma word_bit_bit: "word_bit words note = of_bool (bit (words ! (note div 32)) (note mod 32))"
  by (simp add: word_bit_def and_one_eq bit_iff_odd_drop_bit odd_iff_mod_2_eq_one)

lemma index_split: "drop_bit 5 i = i div 32" "i AND 31 = i mod 32" for i :: nat
  using drop_bit_eq_div [of 5 i] take_bit_eq_mask [of 5 i] by (simp_all add: take_bit_eq_mod mask_eq_exp_minus_1)

section \<open>The gem search scores as the exact scorer\<close>

lemma sub_loss: "(v::int) - max 0 (v - g) = min v g"
  by (simp add: max_def min_def)

lemma fg_note_value_min:
  "fg_note_value f surface note =
     (let in_fever = bit (fever_words surface ! (note div 32)) (note mod 32);
          scaled = (\<lambda>base. if in_fever then \<lfloor>mul64 (mul64 base (f_ramp f ! note)) (f_fever f)\<rfloor>
                            else \<lfloor>mul64 base (f_ramp f ! note)\<rfloor>)
      in if bit (great_words surface ! (note div 32)) (note mod 32)
         then min (scaled (f_base f)) (scaled (r64 (of_int (great_base f)))) else scaled (f_base f))"
  by (simp add: fg_note_value_def Let_def surface_bit_bit sub_loss)

lemma surface_score_note_fg:
  assumes "f_base f = base_value" "i < 128"
    and "bit (great_words surface ! (i div 32)) (i mod 32) \<Longrightarrow> r64 (of_int (great_base f)) = great_base_value"
  shows "surface_score_note (fever_words surface @ great_words surface) base_value great_base_value
           (f_ramp f) (f_fever f) i = fg_note_value f surface i"
proof -
  have len: "length (fever_words surface) = 4" by (simp add: fever_words_def)
  have "i div 32 < 4" using assms(2) by simp
  then show ?thesis using assms(1,3) len
    by (simp add: surface_score_note_def fg_note_value_min Let_def index_split nth_append)
qed

lemma great_bit_or:
  assumes "bit (great_words surface ! k) j" "k < 4"
  shows "great0 surface OR great1 surface OR great2 surface OR great3 surface \<noteq> 0"
proof -
  consider "k = 0" | "k = 1" | "k = 2" | "k = 3" using assms(2) by linarith
  then show ?thesis using assms(1) by cases (auto simp: great_words_def or_eq_0_iff)
qed

text \<open>The body counts a song of this length can have.\<close>

definition valid_counts :: "fg_surface \<Rightarrow> nat \<Rightarrow> bool" where
  "valid_counts surface total_notes \<longleftrightarrow> 0 \<le> body_fever surface \<and> 0 \<le> body_great surface
     \<and> 0 \<le> body_fever_great surface \<and> body_fever_great surface \<le> body_fever surface
     \<and> body_fever_great surface \<le> body_great surface
     \<and> body_fever surface + body_great surface - body_fever_great surface \<le> int (total_notes - HEAD_NOTES)"

definition fg_score_value :: "factors \<Rightarrow> fg_surface \<Rightarrow> nat \<Rightarrow> int" where
  "fg_score_value f surface total_notes =
     (let combo_value = \<lfloor>mul64 (f_base f) (f_combo f)\<rfloor>;
          fever_value = \<lfloor>mul64 (mul64 (f_base f) (f_combo f)) (f_fever f)\<rfloor>;
          great = r64 (of_int (great_base f))
      in body_fever surface * fever_value + (int (total_notes - HEAD_NOTES) - body_fever surface) * combo_value
         - (body_great surface - body_fever_great surface) * max 0 (combo_value - \<lfloor>mul64 great (f_combo f)\<rfloor>)
         - body_fever_great surface * max 0 (fever_value - \<lfloor>mul64 (mul64 great (f_combo f)) (f_fever f)\<rfloor>)
         + (\<Sum>note\<leftarrow>[0..<min total_notes HEAD_NOTES]. fg_note_value f surface note))"

lemma fg_surface_score_eq:
  "fg_surface_score f surface total_notes =
     (if valid_counts surface total_notes then Inr (fg_score_value f surface total_notes) else Inl ValueError)"
proof (cases "valid_counts surface total_notes")
  case True
  then have "\<not> (min (body_fever surface) (min (body_great surface) (body_fever_great surface)) < 0
            \<or> body_fever_great surface > min (body_fever surface) (body_great surface)
            \<or> body_fever surface + body_great surface - body_fever_great surface > int (total_notes - HEAD_NOTES))"
    by (auto simp: valid_counts_def)
  with True show ?thesis
    unfolding fg_surface_score_def Let_def fg_score_value_def by (simp only: if_False if_True) simp
next
  case False
  then have "min (body_fever surface) (min (body_great surface) (body_fever_great surface)) < 0
            \<or> body_fever_great surface > min (body_fever surface) (body_great surface)
            \<or> body_fever surface + body_great surface - body_fever_great surface > int (total_notes - HEAD_NOTES)"
    by (auto simp: valid_counts_def)
  with False show ?thesis
    unfolding fg_surface_score_def Let_def by (simp only: if_False if_True)
qed

text \<open>C13: the gem search's scorer (\<open>_surface_score\<close> of solver/gem_search.py), given a stat row's element
  values and curve factors, computes exactly what \<open>fg_surface_score\<close> of score.py computes for that row's
  factors, on every surface the exact scorer accepts.\<close>

theorem surface_score_exact:
  assumes "factors_of stats curves primary secondary = Inr f"
    and "bind_res (lookup stats ''Perfect Points'') (factor curves ''Perfect Points'') = Inr pp_factor"
    and "fg_surface_score f surface total_notes = Inr score"
  shows "surface_score (fever_words surface @ great_words surface)
      (body_fever surface, body_great surface, body_fever_great surface)
      (min total_notes HEAD_NOTES, int (total_notes - HEAD_NOTES))
      (get_or stats primary 0) (get_or stats secondary 0) pp_factor
      (f_combo f, f_ramp f, f_fever f) (primary = secondary) = score"
proof -
  let ?p = "get_or stats primary 0" and ?s = "get_or stats secondary 0"
  have base: "f_base f = add64 (r64 (of_int (?p * 2 + ?s))) pp_factor"
    and great: "great_base f = (if primary = secondary then ?p * 2 + 150
        else \<lfloor>mul64 (r64 (of_int ?p)) (div64 4 3)\<rfloor> + \<lfloor>mul64 (r64 (of_int ?s)) (div64 2 3)\<rfloor> + 150)"
    using assms(1,2) by (auto simp: factors_of_def Let_def bind_res_eq_Inr GREAT_POINTS_def)
  have counts: "0 \<le> body_great surface" "0 \<le> body_fever_great surface"
    "body_fever_great surface \<le> body_great surface" and score: "score = fg_score_value f surface total_notes"
    using assms(3) by (auto simp: fg_surface_score_eq valid_counts_def split: if_splits)
  let ?greats = "body_great surface > 0 \<or> great0 surface OR great1 surface OR great2 surface OR great3 surface \<noteq> 0"
  let ?gb = "if ?greats then r64 (of_int (great_base f)) else 0"
  have per_note: "(\<Sum>i\<leftarrow>[0..<min total_notes HEAD_NOTES]. surface_score_note (fever_words surface @ great_words surface)
        (f_base f) ?gb (f_ramp f) (f_fever f) i)
      = (\<Sum>note\<leftarrow>[0..<min total_notes HEAD_NOTES]. fg_note_value f surface note)"
  proof (rule arg_cong [of _ _ sum_list], rule map_cong [OF refl])
    fix i assume "i \<in> set [0..<min total_notes HEAD_NOTES]"
    then have i: "i < 128" "i div 32 < 4" by (auto simp: HEAD_NOTES_def COMBO_RAMP_NOTES_def)
    show "surface_score_note (fever_words surface @ great_words surface) (f_base f) ?gb (f_ramp f) (f_fever f) i
        = fg_note_value f surface i"
      using great_bit_or [OF _ i(2)] by (intro surface_score_note_fg refl i(1)) auto
  qed
  have none: "body_great surface = 0 \<and> body_fever_great surface = 0" if "\<not> 0 < body_great surface"
    using that counts by auto
  have words: "(fever_words surface @ great_words surface) ! 4 = great0 surface"
    "(fever_words surface @ great_words surface) ! 5 = great1 surface"
    "(fever_words surface @ great_words surface) ! 6 = great2 surface"
    "(fever_words surface @ great_words surface) ! 7 = great3 surface"
    by (simp_all add: fever_words_def great_words_def)
  show ?thesis
    using counts
    unfolding surface_score_def split_conv Let_def words base [symmetric] great [symmetric] per_note
      score fg_score_value_def
    by (cases "body_great surface > 0") (simp_all add: none)
qed

section \<open>The surface score is the sum over the notes\<close>

text \<open>The game scores a play note by note. A play says of each note whether it is in fever and whether
  it is a Great; a note's value is floored on its own, at the combo multiplier of its place.\<close>

definition note_value :: "factors \<Rightarrow> f64 \<Rightarrow> bool \<Rightarrow> bool \<Rightarrow> int" where
  "note_value f scaling in_fever is_great =
     (let scaled = (\<lambda>base. if in_fever then \<lfloor>mul64 (mul64 base scaling) (f_fever f)\<rfloor> else \<lfloor>mul64 base scaling\<rfloor>)
      in if is_great then min (scaled (f_base f)) (scaled (r64 (of_int (great_base f)))) else scaled (f_base f))"

definition note_scaling :: "factors \<Rightarrow> nat \<Rightarrow> f64" where
  "note_scaling f k = (if k < HEAD_NOTES then f_ramp f ! k else f_combo f)"

definition play_score :: "factors \<Rightarrow> (bool \<times> bool) list \<Rightarrow> int" where
  "play_score f play = (\<Sum>k\<leftarrow>[0..<length play]. note_value f (note_scaling f k) (fst (play ! k)) (snd (play ! k)))"

definition mask_word :: "bool list \<Rightarrow> nat \<Rightarrow> int" where
  "mask_word bs w = horner_sum of_bool 2 (take 32 (drop (32 * w) bs))"

definition play_surface :: "(bool \<times> bool) list \<Rightarrow> fg_surface" where
  "play_surface play =
     (let fever = map fst (take HEAD_NOTES play); great = map snd (take HEAD_NOTES play); body = drop HEAD_NOTES play
      in \<lparr>fever0 = mask_word fever 0, fever1 = mask_word fever 1, fever2 = mask_word fever 2, fever3 = mask_word fever 3,
          great0 = mask_word great 0, great1 = mask_word great 1, great2 = mask_word great 2, great3 = mask_word great 3,
          body_fever = int (length (filter fst body)),
          body_great = int (length (filter snd body)),
          body_fever_great = int (length (filter (\<lambda>x. fst x \<and> snd x) body))\<rparr>)"

lemma fg_note_value_note:
  "fg_note_value f surface note = note_value f (f_ramp f ! note)
     (bit (fever_words surface ! (note div 32)) (note mod 32)) (bit (great_words surface ! (note div 32)) (note mod 32))"
  by (simp add: fg_note_value_min note_value_def Let_def)

lemma mask_word_bit: "i < length bs \<Longrightarrow> bit (mask_word bs (i div 32)) (i mod 32) = bs ! i"
proof -
  assume "i < length bs"
  moreover have "i = 32 * (i div 32) + i mod 32" by simp
  ultimately have "i mod 32 < length bs - 32 * (i div 32)" by linarith
  with \<open>i < length bs\<close> show ?thesis
    by (simp add: mask_word_def bit_horner_sum_bit_iff)
qed

lemma four_words: "k < 4 \<Longrightarrow> [g 0, g 1, g 2, g 3] ! k = g k" for g :: "nat \<Rightarrow> 'a"
  by (auto simp: numeral_eq_Suc less_Suc_eq)

lemma play_surface_bits:
  assumes "k < length play" "k < HEAD_NOTES"
  shows "bit (fever_words (play_surface play) ! (k div 32)) (k mod 32) = fst (play ! k)"
    "bit (great_words (play_surface play) ! (k div 32)) (k mod 32) = snd (play ! k)"
proof -
  have k: "k div 32 < 4" using assms(2) by (simp add: HEAD_NOTES_def COMBO_RAMP_NOTES_def)
  show "bit (fever_words (play_surface play) ! (k div 32)) (k mod 32) = fst (play ! k)"
    unfolding play_surface_def Let_def fever_words_def fg_surface.simps
      four_words [OF k, of "mask_word _"] using assms by (subst mask_word_bit) simp_all
  show "bit (great_words (play_surface play) ! (k div 32)) (k mod 32) = snd (play ! k)"
    unfolding play_surface_def Let_def great_words_def fg_surface.simps
      four_words [OF k, of "mask_word _"] using assms by (subst mask_word_bit) simp_all
qed

lemma body_score:
  fixes body :: "(bool \<times> bool) list"
  defines "bf \<equiv> int (length (filter fst body))" and "bg \<equiv> int (length (filter snd body))"
    and "bfg \<equiv> int (length (filter (\<lambda>x. fst x \<and> snd x) body))"
  shows "(\<Sum>x\<leftarrow>body. note_value f (f_combo f) (fst x) (snd x)) =
     bf * \<lfloor>mul64 (mul64 (f_base f) (f_combo f)) (f_fever f)\<rfloor> + (int (length body) - bf) * \<lfloor>mul64 (f_base f) (f_combo f)\<rfloor>
     - (bg - bfg) * max 0 (\<lfloor>mul64 (f_base f) (f_combo f)\<rfloor> - \<lfloor>mul64 (r64 (of_int (great_base f))) (f_combo f)\<rfloor>)
     - bfg * max 0 (\<lfloor>mul64 (mul64 (f_base f) (f_combo f)) (f_fever f)\<rfloor>
                    - \<lfloor>mul64 (mul64 (r64 (of_int (great_base f))) (f_combo f)) (f_fever f)\<rfloor>)"
  unfolding bf_def bg_def bfg_def
proof (induction body)
  case (Cons x body)
  then show ?case
    by (cases x) (auto simp: note_value_def Let_def sub_loss [symmetric] algebra_simps)
qed simp

lemma body_counts: "length (filter (\<lambda>x. fst x \<and> snd x) body) \<le> length (filter fst body)
    \<and> length (filter (\<lambda>x. fst x \<and> snd x) body) \<le> length (filter snd body)
    \<and> length (filter fst body) + length (filter snd body) \<le> length body + length (filter (\<lambda>x. fst x \<and> snd x) body)"
  by (induction body) auto

lemma map_nth_upt: "map ((!) xs) [m..<length xs] = drop m xs"
  by (rule nth_equalityI) simp_all

lemma play_score_split:
  "play_score f play = (\<Sum>k\<leftarrow>[0..<min (length play) HEAD_NOTES]. note_value f (f_ramp f ! k) (fst (play ! k)) (snd (play ! k)))
     + (\<Sum>x\<leftarrow>drop HEAD_NOTES play. note_value f (f_combo f) (fst x) (snd x))"
proof -
  let ?n = "length play" and ?h = "min (length play) HEAD_NOTES"
  let ?v = "\<lambda>k. note_value f (note_scaling f k) (fst (play ! k)) (snd (play ! k))"
  have "[0..<?n] = [0..<?h] @ [?h..<?n]" using upt_add_eq_append [of 0 ?h "?n - ?h"] by simp
  then have "play_score f play = sum_list (map ?v [0..<?h]) + sum_list (map ?v [?h..<?n])"
    unfolding play_score_def by (simp only: map_append sum_list_append)
  also have "map ?v [0..<?h] = map (\<lambda>k. note_value f (f_ramp f ! k) (fst (play ! k)) (snd (play ! k))) [0..<?h]"
    by (auto simp: note_scaling_def)
  also have "map ?v [?h..<?n] = map (\<lambda>x. note_value f (f_combo f) (fst x) (snd x)) (map ((!) play) [?h..<?n])"
    by (auto simp: note_scaling_def)
  also have "map ((!) play) [?h..<?n] = drop ?h play" by (rule map_nth_upt)
  also have "drop ?h play = drop HEAD_NOTES play" by (simp add: min_def)
  finally show ?thesis .
qed

lemma play_surface_valid: "valid_counts (play_surface play) (length play)"
  using body_counts [of "drop HEAD_NOTES play"] by (auto simp: valid_counts_def play_surface_def Let_def)

lemma fg_surface_score_play_value: "fg_score_value f (play_surface play) (length play) = play_score f play"
proof -
  have "(\<Sum>k\<leftarrow>[0..<min (length play) HEAD_NOTES]. fg_note_value f (play_surface play) k)
    = (\<Sum>k\<leftarrow>[0..<min (length play) HEAD_NOTES]. note_value f (f_ramp f ! k) (fst (play ! k)) (snd (play ! k)))"
    by (rule arg_cong [of _ _ sum_list], rule map_cong [OF refl]) (simp add: fg_note_value_note play_surface_bits)
  then show ?thesis
    unfolding fg_score_value_def Let_def play_score_split body_score by (simp add: play_surface_def Let_def)
qed

text \<open>C6: \<open>fg_surface_score\<close> of score.py on the surface of any play is the game's score of the play: the
  masks and body counts lose nothing, whatever the play's length and wherever its fever and Great
  notes are.\<close>

theorem fg_surface_score_play:
  "fg_surface_score f (play_surface play) (length play) = Inr (play_score f play)"
  by (simp add: fg_surface_score_eq play_surface_valid fg_surface_score_play_value)

section \<open>The best surface of a timing cell\<close>

text \<open>A timing surface read as a Force Great surface without Greats.\<close>

definition timeline_fg :: "timeline_surface \<Rightarrow> fg_surface" where
  "timeline_fg s = \<lparr>fever0 = uint (head_words s ! 0), fever1 = uint (head_words s ! 1),
     fever2 = uint (head_words s ! 2), fever3 = uint (head_words s ! 3),
     great0 = 0, great1 = 0, great2 = 0, great3 = 0,
     body_fever = ts_body_fever s, body_great = 0, body_fever_great = 0\<rparr>"

definition valid_timeline :: "timeline_surface \<Rightarrow> nat \<Rightarrow> bool" where
  "valid_timeline s total_notes \<longleftrightarrow> 0 \<le> ts_body_fever s \<and> 0 \<le> ts_body_normal s
     \<and> ts_body_fever s + ts_body_normal s = int (total_notes - HEAD_NOTES)"

definition timeline_row_score :: "factors \<Rightarrow> timeline_surface \<Rightarrow> nat \<Rightarrow> int" where
  "timeline_row_score f s total_notes = fg_score_value f (timeline_fg s) total_notes"

lemma timeline_fg_bits:
  "k < 128 \<Longrightarrow> bit (fever_words (timeline_fg s) ! (k div 32)) (k mod 32)
    = bit (head_words s ! (k div 32)) (k mod 32)"
  "k < 128 \<Longrightarrow> \<not> bit (great_words (timeline_fg s) ! (k div 32)) (k mod 32)"
proof -
  assume "k < 128"
  then have k: "k div 32 < 4" "k mod 32 < 64" by (simp_all add: order_less_trans [OF mod_less_divisor])
  show "bit (fever_words (timeline_fg s) ! (k div 32)) (k mod 32) = bit (head_words s ! (k div 32)) (k mod 32)"
    unfolding timeline_fg_def fever_words_def fg_surface.simps
      four_words [OF k(1), of "\<lambda>i. uint (head_words s ! i)"] using k(2) by (simp add: bit_uint_iff)
  show "\<not> bit (great_words (timeline_fg s) ! (k div 32)) (k mod 32)"
    unfolding timeline_fg_def great_words_def fg_surface.simps four_words [OF k(1), of "\<lambda>i. 0"] by simp
qed

lemma timeline_head_score:
  fixes f s total_notes
  defines "h \<equiv> min total_notes HEAD_NOTES"
  defines "perfect \<equiv> map (mul64 (f_base f)) (take h (f_ramp f))"
  defines "normal \<equiv> map floor perfect" and "fever \<equiv> map (\<lambda>p. \<lfloor>mul64 p (f_fever f)\<rfloor>) perfect"
  assumes "length (f_ramp f) = HEAD_NOTES"
  shows "sum_list normal + (\<Sum>note\<leftarrow>[0..<h]. word_bit (head_words s) note * (fever ! note - normal ! note))
    = (\<Sum>note\<leftarrow>[0..<h]. fg_note_value f (timeline_fg s) note)"
proof -
  have len: "length normal = h" "length fever = h" "length perfect = h"
    using assms(5) by (simp_all add: normal_def fever_def perfect_def h_def)
  have "normal = map ((!) normal) [0..<h]" using map_nth [of normal] len by simp
  then have "sum_list normal = sum_list (map ((!) normal) [0..<h])" by simp
  then have "sum_list normal + (\<Sum>note\<leftarrow>[0..<h]. word_bit (head_words s) note * (fever ! note - normal ! note))
    = (\<Sum>note\<leftarrow>[0..<h]. normal ! note + word_bit (head_words s) note * (fever ! note - normal ! note))"
    by (simp add: sum_list_addf)
  also have "\<dots> = (\<Sum>note\<leftarrow>[0..<h]. fg_note_value f (timeline_fg s) note)"
  proof (rule arg_cong [of _ _ sum_list], rule map_cong [OF refl])
    fix k assume "k \<in> set [0..<h]"
    then have k: "k < h" "k < 128" by (auto simp: h_def HEAD_NOTES_def COMBO_RAMP_NOTES_def)
    have "perfect ! k = mul64 (f_base f) (f_ramp f ! k)"
      using k assms(5) by (simp add: perfect_def h_def)
    then have "normal ! k = \<lfloor>mul64 (f_base f) (f_ramp f ! k)\<rfloor>"
      "fever ! k = \<lfloor>mul64 (mul64 (f_base f) (f_ramp f ! k)) (f_fever f)\<rfloor>"
      using k(1) len by (simp_all add: normal_def fever_def)
    then show "normal ! k + word_bit (head_words s) k * (fever ! k - normal ! k) = fg_note_value f (timeline_fg s) k"
      using timeline_fg_bits [OF k(2), of s] by (simp add: fg_note_value_note note_value_def word_bit_bit)
  qed
  finally show ?thesis .
qed

lemma timeline_row:
  fixes f s total_notes
  defines "h \<equiv> min total_notes HEAD_NOTES"
  defines "perfect \<equiv> map (mul64 (f_base f)) (take h (f_ramp f))"
  assumes "length (f_ramp f) = HEAD_NOTES" "valid_timeline s total_notes"
  shows "ts_body_fever s * \<lfloor>mul64 (mul64 (f_base f) (f_combo f)) (f_fever f)\<rfloor>
     + ts_body_normal s * \<lfloor>mul64 (f_base f) (f_combo f)\<rfloor>
     + sum_list (map floor perfect)
     + (\<Sum>note\<leftarrow>[0..<h]. word_bit (head_words s) note
          * (map (\<lambda>p. \<lfloor>mul64 p (f_fever f)\<rfloor>) perfect ! note - map floor perfect ! note))
    = timeline_row_score f s total_notes"
proof -
  have normal: "int (total_notes - HEAD_NOTES) - ts_body_fever s = ts_body_normal s"
    using assms(4) by (simp add: valid_timeline_def)
  show ?thesis
    using timeline_head_score [OF assms(3), of total_notes s, folded h_def, folded perfect_def]
    unfolding timeline_row_score_def fg_score_value_def Let_def h_def [symmetric]
    by (simp add: timeline_fg_def normal)
qed

lemma best_timeline_score_eq:
  assumes "length (f_ramp f) = HEAD_NOTES" "cell \<noteq> []" "\<forall>s \<in> set cell. valid_timeline s total_notes"
  defines "scores \<equiv> map (\<lambda>s. timeline_row_score f s total_notes) cell"
  shows "best_timeline_score f cell total_notes = Inr (scores ! argmax scores, argmax scores)"
proof -
  have rows: "map (\<lambda>s. ts_body_fever s * \<lfloor>mul64 (mul64 (f_base f) (f_combo f)) (f_fever f)\<rfloor>
       + ts_body_normal s * \<lfloor>mul64 (f_base f) (f_combo f)\<rfloor>
       + sum_list (map floor (map (mul64 (f_base f)) (take (min total_notes HEAD_NOTES) (f_ramp f))))
       + (\<Sum>note\<leftarrow>[0..<min total_notes HEAD_NOTES]. word_bit (head_words s) note
            * (map (\<lambda>p. \<lfloor>mul64 p (f_fever f)\<rfloor>) (map (mul64 (f_base f)) (take (min total_notes HEAD_NOTES) (f_ramp f))) ! note
               - map floor (map (mul64 (f_base f)) (take (min total_notes HEAD_NOTES) (f_ramp f))) ! note))) cell = scores"
    unfolding scores_def using timeline_row [OF assms(1)] assms(3) by (intro map_cong refl) blast
  have "\<not> ((\<exists>s \<in> set cell. ts_body_fever s < 0) \<or> (\<exists>s \<in> set cell. ts_body_normal s < 0)
            \<or> (\<exists>s \<in> set cell. ts_body_fever s + ts_body_normal s \<noteq> int (total_notes - HEAD_NOTES)))"
    using assms(3) by (auto simp: valid_timeline_def)
  with assms(2) show ?thesis
    unfolding best_timeline_score_def Let_def rows by (simp only: if_False)
qed

lemma timeline_fg_score:
  "valid_timeline s total_notes \<Longrightarrow>
     fg_surface_score f (timeline_fg s) total_notes = Inr (timeline_row_score f s total_notes)"
  by (auto simp: fg_surface_score_eq timeline_row_score_def valid_counts_def valid_timeline_def timeline_fg_def)

text \<open>C18: on a timing cell whose body counts fit the song, \<open>best_timeline_score\<close> returns the greatest
  score over the cell's surfaces, each scored as \<open>fg_surface_score\<close> scores it without Greats, and
  the index of the first surface that reaches it.\<close>

theorem best_timeline_score_max:
  assumes "length (f_ramp f) = HEAD_NOTES" "cell \<noteq> []" "\<forall>s \<in> set cell. valid_timeline s total_notes"
  shows "\<exists>score i. best_timeline_score f cell total_notes = Inr (score, i) \<and> i < length cell
    \<and> fg_surface_score f (timeline_fg (cell ! i)) total_notes = Inr score
    \<and> (\<forall>j < length cell. \<exists>other. fg_surface_score f (timeline_fg (cell ! j)) total_notes = Inr other
         \<and> other \<le> score \<and> (j < i \<longrightarrow> other < score))"
proof -
  let ?scores = "map (\<lambda>s. timeline_row_score f s total_notes) cell"
  note spec = argmax_spec [of ?scores]
  have i: "argmax ?scores < length cell" using spec(1) assms(2) by simp
  have row: "fg_surface_score f (timeline_fg (cell ! j)) total_notes = Inr (?scores ! j)" if "j < length cell" for j
    using timeline_fg_score [of "cell ! j" total_notes f] assms(3) that by simp
  have max: "?scores ! j \<le> ?scores ! argmax ?scores" if "j < length cell" for j
    using spec(2) [of "?scores ! j"] assms(2) that by (metis length_map map_is_Nil_conv nth_mem)
  show ?thesis
    using best_timeline_score_eq [OF assms] i row max spec(3) assms(2) by fastforce
qed

section \<open>Fever raises a score, a Great never does\<close>

text \<open>The multipliers a song's factors have: no value is negative and fever multiplies by at least one.\<close>

definition valid_factors :: "factors \<Rightarrow> bool" where
  "valid_factors f \<longleftrightarrow> length (f_ramp f) = HEAD_NOTES \<and> 0 \<le> f_base f \<and> 0 \<le> f_combo f
     \<and> (\<forall>v \<in> set (f_ramp f). 0 \<le> v) \<and> 1 \<le> f_fever f \<and> 0 \<le> great_base f"

text \<open>The same Greats with at least the fever.\<close>

definition more_fever :: "fg_surface \<Rightarrow> fg_surface \<Rightarrow> bool" where
  "more_fever s t \<longleftrightarrow> great_words t = great_words s \<and> body_great t = body_great s
     \<and> body_fever_great s \<le> body_fever_great t
     \<and> body_fever s - body_fever_great s \<le> body_fever t - body_fever_great t
     \<and> (\<forall>k \<in> {0..<HEAD_NOTES}. bit (fever_words s ! (k div 32)) (k mod 32)
           \<longrightarrow> bit (fever_words t ! (k div 32)) (k mod 32))"

lemma floor_fever_ge:
  "valid_factors f \<Longrightarrow> 0 \<le> x \<Longrightarrow> 0 \<le> y \<Longrightarrow> \<lfloor>mul64 x y\<rfloor> \<le> \<lfloor>mul64 (mul64 x y) (f_fever f)\<rfloor>"
  by (rule floor_mono) (simp add: mul64_ge mul64_nonneg valid_factors_def is_f64_ops)

lemma note_value_fever_mono:
  assumes "valid_factors f" "0 \<le> scaling" "fever \<longrightarrow> fever'"
  shows "note_value f scaling fever great \<le> note_value f scaling fever' great"
proof -
  have "0 \<le> f_base f" "0 \<le> r64 (of_int (great_base f))"
    using assms(1) by (simp_all add: valid_factors_def r64_nonneg)
  then show ?thesis
    using assms floor_fever_ge [OF assms(1), of "f_base f" scaling]
      floor_fever_ge [OF assms(1), of "r64 (of_int (great_base f))" scaling]
    by (auto simp: note_value_def Let_def min_def)
qed

lemma body_fever_mono:
  fixes cv :: int
  assumes "cv \<le> fv" "gc \<le> gf" "bfg \<le> bfg'" "bf - bfg \<le> bf' - bfg'"
  shows "bf * fv + (n - bf) * cv - (bg - bfg) * max 0 (cv - gc) - bfg * max 0 (fv - gf)
       \<le> bf' * fv + (n - bf') * cv - (bg - bfg') * max 0 (cv - gc) - bfg' * max 0 (fv - gf)"
proof -
  have eq: "max 0 (cv - gc) = cv - min cv gc" "max 0 (fv - gf) = fv - min fv gf" by auto
  have "0 \<le> ((bf' - bfg') - (bf - bfg)) * (fv - cv)" "0 \<le> (bfg' - bfg) * (min fv gf - min cv gc)"
    using assms by (auto intro!: mult_nonneg_nonneg simp: min_def)
  then show ?thesis unfolding eq by (simp add: algebra_simps)
qed

lemma sum_list_mono_upt:
  "(\<And>k. k < n \<Longrightarrow> g k \<le> (h k :: int)) \<Longrightarrow> (\<Sum>k\<leftarrow>[0..<n]. g k) \<le> (\<Sum>k\<leftarrow>[0..<n]. h k)"
  by (rule sum_list_mono) simp

text \<open>C19: for the same Greats, a surface with more fever never scores lower under \<open>fg_surface_score\<close>,
  whatever the rounding of the note values: the reducers may drop a surface whose fever another
  contains.\<close>

theorem more_fever_scores_no_less:
  assumes "valid_factors f" "more_fever s t"
    and "fg_surface_score f s total_notes = Inr a" "fg_surface_score f t total_notes = Inr b"
  shows "a \<le> b"
proof -
  let ?great = "r64 (of_int (great_base f))"
  have pos: "0 \<le> f_base f" "0 \<le> ?great" "0 \<le> f_combo f"
    using assms(1) by (simp_all add: valid_factors_def r64_nonneg)
  have head: "fg_note_value f s k \<le> fg_note_value f t k" if "k < min total_notes HEAD_NOTES" for k
  proof -
    have "0 \<le> f_ramp f ! k" using assms(1) that by (simp add: valid_factors_def)
    then show ?thesis
      using assms(2) that by (simp add: fg_note_value_note more_fever_def note_value_fever_mono [OF assms(1)])
  qed
  note heads = sum_list_mono_upt [of "min total_notes HEAD_NOTES" "fg_note_value f s" "fg_note_value f t", OF head]
  have "fg_score_value f s total_notes \<le> fg_score_value f t total_notes"
    unfolding fg_score_value_def Let_def
    using assms(2) floor_fever_ge [OF assms(1) pos(1,3)] floor_fever_ge [OF assms(1) pos(2,3)]
    by (intro add_mono heads) (simp_all add: more_fever_def body_fever_mono)
  then show ?thesis using assms(3,4) by (simp add: fg_surface_score_eq split: if_splits)
qed

definition without_greats :: "fg_surface \<Rightarrow> fg_surface" where
  "without_greats s = s\<lparr>great0 := 0, great1 := 0, great2 := 0, great3 := 0, body_great := 0, body_fever_great := 0\<rparr>"

text \<open>Clearing a surface's Greats never lowers its \<open>fg_surface_score\<close>: Greats cost score, they only pay
  through the fever they open.\<close>

theorem greats_never_raise:
  assumes "fg_surface_score f s total_notes = Inr a"
  shows "\<exists>b. fg_surface_score f (without_greats s) total_notes = Inr b \<and> a \<le> b"
proof -
  have valid: "valid_counts s total_notes" and a: "a = fg_score_value f s total_notes"
    using assms by (simp_all add: fg_surface_score_eq split: if_splits)
  have "valid_counts (without_greats s) total_notes"
    using valid by (auto simp: valid_counts_def without_greats_def)
  moreover have "fg_score_value f s total_notes \<le> fg_score_value f (without_greats s) total_notes"
  proof -
    have words: "fever_words (without_greats s) = fever_words s" "great_words (without_greats s) = [0, 0, 0, 0]"
      by (simp_all add: fever_words_def great_words_def without_greats_def)
    have head: "fg_note_value f s k \<le> fg_note_value f (without_greats s) k" if "k < min total_notes HEAD_NOTES" for k
    proof -
      have "k < 100" using that by (simp add: HEAD_NOTES_def COMBO_RAMP_NOTES_def)
      then have k: "k div 32 < 4" by linarith
      have "\<not> bit ([0, 0, 0, 0 :: int] ! (k div 32)) (k mod 32)" using four_words [OF k, of "\<lambda>_. 0::int"] by simp
      then show ?thesis by (simp add: fg_note_value_note words note_value_def Let_def)
    qed
    note heads = sum_list_mono_upt [of "min total_notes HEAD_NOTES" "fg_note_value f s"
        "fg_note_value f (without_greats s)", OF head]
    have loss: "0 \<le> (body_great s - body_fever_great s) * max 0 x" "0 \<le> body_fever_great s * max 0 x" for x
      using valid by (auto simp: valid_counts_def)
    have body: "v - (body_great s - body_fever_great s) * max 0 x - body_fever_great s * max 0 y \<le> v" for v x y
      using loss(1) [of x] loss(2) [of y] by linarith
    have cleared: "body_fever (without_greats s) = body_fever s" "body_great (without_greats s) = 0"
      "body_fever_great (without_greats s) = 0"
      by (simp_all add: without_greats_def)
    show ?thesis
      unfolding fg_score_value_def Let_def
      by (intro add_mono heads) (simp only: cleared diff_zero mult_zero_left body)
  qed
  ultimately show ?thesis using a by (simp add: fg_surface_score_eq)
qed

section \<open>Concrete songs\<close>

definition example_curves :: stat_curves where
  "example_curves = \<lparr>curve_f64 = [(''Perfect Points'', replicate 161 350), (''Combo Multiplier'', replicate 161 2),
      (''Fever Multiplier'', replicate 161 4)], curve_f32 = [],
      combo_ramp = replicate 161 (replicate 100 (3 / 2))\<rparr>"

definition example_stats :: stats where
  "example_stats = [(''Perfect Points'', 10), (''Combo Multiplier'', 0), (''Fever Multiplier'', 0),
      (''Fever Time'', 5), (''Fever Fill Rate'', 5), (''Chill'', 30), (''Flow'', 20)]"

definition example_factors :: factors where
  "example_factors = \<lparr>f_base = 430, f_combo = 2, f_ramp = replicate 100 (3 / 2), f_fever = 4, great_base = 203,
      fever_time_row = 5, fever_fill_row = 5\<rparr>"

text \<open>Three notes: the first a fever Great, the second in fever, the third a Great.\<close>

definition example_surface :: fg_surface where
  "example_surface = \<lparr>fever0 = 3, fever1 = 0, fever2 = 0, fever3 = 0, great0 = 5, great1 = 0, great2 = 0, great3 = 0,
      body_fever = 0, body_great = 0, body_fever_great = 0\<rparr>"

lemma example_score: "fg_surface_score example_factors example_surface 3 = Inr 4102"
  by code_simp

lemma surface_score_exact_witness:
  "surface_score [3, 0, 0, 0, 5, 0, 0, 0] (0, 0, 0) (3, 0) 30 20 350 (2, replicate 100 (3 / 2), 4) False = 4102"
proof -
  have f: "factors_of example_stats example_curves ''Chill'' ''Flow'' = Inr example_factors" by code_simp
  have pp: "bind_res (lookup example_stats ''Perfect Points'') (factor example_curves ''Perfect Points'') = Inr 350"
    by code_simp
  show ?thesis
    using surface_score_exact [OF f pp example_score]
    by (simp add: example_factors_def example_surface_def fever_words_def great_words_def example_stats_def
        get_or_def HEAD_NOTES_def COMBO_RAMP_NOTES_def)
qed

lemma best_timeline_score_max_witness:
  "\<exists>score i. best_timeline_score example_factors
      [\<lparr>head_words = [1, 0, 0, 0], ts_body_fever = 0, ts_body_normal = 0\<rparr>,
       \<lparr>head_words = [6, 0, 0, 0], ts_body_fever = 0, ts_body_normal = 0\<rparr>] 3 = Inr (score, i) \<and> i < 2"
  using best_timeline_score_max [of example_factors
      "[\<lparr>head_words = [1, 0, 0, 0], ts_body_fever = 0, ts_body_normal = 0\<rparr>,
        \<lparr>head_words = [6, 0, 0, 0], ts_body_fever = 0, ts_body_normal = 0\<rparr>]" 3]
  by (auto simp: example_factors_def valid_timeline_def HEAD_NOTES_def COMBO_RAMP_NOTES_def)

lemma more_fever_scores_no_less_witness:
  "fg_surface_score example_factors example_surface 3 = Inr 4102
    \<and> fg_surface_score example_factors (example_surface\<lparr>fever0 := 7\<rparr>) 3 = Inr 5016 \<and> (4102 :: int) \<le> 5016"
proof -
  let ?t = "example_surface\<lparr>fever0 := 7\<rparr>"
  have valid: "valid_factors example_factors"
    by (simp add: valid_factors_def example_factors_def HEAD_NOTES_def COMBO_RAMP_NOTES_def)
  have more: "more_fever example_surface ?t" by code_simp
  have t: "fg_surface_score example_factors ?t 3 = Inr 5016" by code_simp
  from more_fever_scores_no_less [OF valid more example_score t] example_score t show ?thesis by blast
qed

lemma greats_never_raise_witness:
  "\<exists>b. fg_surface_score example_factors (without_greats example_surface) 3 = Inr b \<and> 4102 \<le> b"
  using greats_never_raise [OF example_score] .

end
