(* ===== verification/FeverTimeline.thy ===== *)
theory FeverTimeline
  imports Score
begin

text \<open>
  solver/fever_timeline.py: the fever windows of play at fixed hit times. The kernel jumps from
  window to window; the reference here walks the notes one by one with the fever bar, as the
  module's documentation describes the game. Hit times are binary32 seconds, the fever duration
  is binary64.
\<close>

section \<open>The kernel\<close>

record fever_state =
  current_note_idx :: int
  fever_section :: nat
  fever_activations :: nat
  last_fever_end_idx :: int
  is_fever :: "bool list"

text \<open>\<open>mask[lo:hi] = True\<close>\<close>

definition set_range :: "nat \<Rightarrow> nat \<Rightarrow> bool list \<Rightarrow> bool list" where
  "set_range lo hi flags = map (\<lambda>(i, b). b \<or> lo \<le> i \<and> i < hi) (enumerate 0 flags)"

text \<open>The while loop; a value of None is a loop that does not end.\<close>

partial_function (option) fever_loop :: "f32 list \<Rightarrow> int \<Rightarrow> int \<Rightarrow> f64 \<Rightarrow> fever_state \<Rightarrow> fever_state option" where
  "fever_loop ts total_notes fill_notes duration s =
     (if current_note_idx s < total_notes then
        (let section = Suc (fever_section s);
             notes_to_fill = (if section = 1 then fill_notes - 1 else fill_notes);
             cur = min (current_note_idx s + notes_to_fill) total_notes;
             s' = s\<lparr>fever_section := section, current_note_idx := cur\<rparr>
         in if cur \<ge> total_notes then Some s'
            else if cur > 0 then
              (let end_time = add64 (ts ! nat cur) duration;
                   fever_end = searchsorted_left ts (r32 end_time)
               in fever_loop ts total_notes fill_notes duration
                    (s'\<lparr>fever_activations := Suc (fever_activations s),
                        is_fever := set_range (nat cur) fever_end (is_fever s),
                        current_note_idx := int fever_end,
                        last_fever_end_idx := int fever_end\<rparr>))
            else Some s')
      else Some s)"

definition fever_start :: "nat \<Rightarrow> fever_state" where
  "fever_start n = \<lparr>current_note_idx = 0, fever_section = 0, fever_activations = 0, last_fever_end_idx = 0,
     is_fever = replicate n False\<rparr>"

text \<open>The head mask, the body counts, the activations and where the last window ends.\<close>

definition calculate_fever_timeline_indices ::
    "f32 list \<Rightarrow> int \<Rightarrow> f64 \<Rightarrow> (bool list \<times> int \<times> int \<times> nat \<times> int) option" where
  "calculate_fever_timeline_indices ts fill_notes duration =
     (let total_notes = length ts
      in map_option (\<lambda>s.
           (take (min total_notes 100) (is_fever s),
            int (length (filter id (drop 100 (is_fever s)))),
            int (length (filter Not (drop 100 (is_fever s)))),
            fever_activations s, last_fever_end_idx s))
         (fever_loop ts (int total_notes) fill_notes duration (fever_start total_notes)))"

definition fixed_timeline_cell :: "f32 list \<Rightarrow> int \<Rightarrow> f64 \<Rightarrow> timeline_cell res option" where
  "fixed_timeline_cell hit_times fill_notes duration =
     map_option (\<lambda>(head, bf, bn, activations, fever_end). single_surface_cell head bf bn)
       (calculate_fever_timeline_indices hit_times fill_notes duration)"

text \<open>The surface grid: one kernel run per cell of the duration and fill axes, its head mask packed
  into words of 32 notes.\<close>

definition pack_head :: "nat \<Rightarrow> bool list \<Rightarrow> 32 word list" where
  "pack_head words head =
     fold (\<lambda>note ws. ws[note div 32 := ws ! (note div 32) OR push_bit (note mod 32) 1])
       (filter (\<lambda>i. head ! i) [0..<length head]) (replicate words 0)"

definition grid_cell :: "nat \<Rightarrow> f32 list \<Rightarrow> int \<Rightarrow> f64 \<Rightarrow> (int \<times> int \<times> 32 word list \<times> nat \<times> int) option" where
  "grid_cell words ts fill_notes duration =
     map_option (\<lambda>(head, bf, bn, activations, fever_end). (bf, bn, pack_head words head, activations, fever_end))
       (calculate_fever_timeline_indices ts fill_notes duration)"

definition calculate_fever_timeline_surface_grid :: "nat \<Rightarrow> f32 list \<Rightarrow> f64 list \<Rightarrow> int list \<Rightarrow>
    (int \<times> int \<times> 32 word list \<times> nat \<times> int) option list list" where
  "calculate_fever_timeline_surface_grid words ts durations fills =
     map (\<lambda>duration. map (\<lambda>fill_notes. grid_cell words ts fill_notes duration) fills) durations"

section \<open>The fever bar note by note\<close>

text \<open>The bar holds how many notes have filled it, or a fever runs until a hit time. A note that fills
  the bar is already in fever; the note at which a fever ends is outside it and adds no fill.\<close>

datatype bar = Filling nat | In_Fever f32

fun bar_walk :: "nat \<Rightarrow> f64 \<Rightarrow> bar \<Rightarrow> f32 list \<Rightarrow> bool list" where
  "bar_walk fill duration b [] = []"
| "bar_walk fill duration (Filling c) (t # ts) =
     (if fill \<le> Suc c then True # bar_walk fill duration (In_Fever (r32 (add64 t duration))) ts
      else False # bar_walk fill duration (Filling (Suc c)) ts)"
| "bar_walk fill duration (In_Fever e) (t # ts) =
     (if t < e then True # bar_walk fill duration (In_Fever e) ts
      else False # bar_walk fill duration (Filling 0) ts)"

lemma bar_walk_length [simp]: "length (bar_walk fill duration b ts) = length ts"
  by (induction fill duration b ts rule: bar_walk.induct) auto

lemma bar_walk_short:
  "c + length ts < fill \<Longrightarrow> bar_walk fill duration (Filling c) ts = replicate (length ts) False"
  by (induction ts arbitrary: c) auto

lemma bar_walk_fill:
  "c + n + 1 = fill \<Longrightarrow> n < length ts \<Longrightarrow> bar_walk fill duration (Filling c) ts =
     replicate n False @ True # bar_walk fill duration (In_Fever (r32 (add64 (ts ! n) duration))) (drop (Suc n) ts)"
proof (induction n arbitrary: c ts)
  case 0
  then show ?case by (cases ts) auto
next
  case (Suc n)
  obtain t ts' where ts: "ts = t # ts'" using Suc.prems(2) by (cases ts) auto
  have "c + Suc n + 1 = fill" "Suc c + n + 1 = fill" "n < length ts'" "\<not> fill \<le> Suc c"
    using Suc.prems by (auto simp: ts)
  then show ?case using Suc.IH [of "Suc c" ts'] by (simp add: ts)
qed

text \<open>What follows the note at which a fever ends.\<close>

definition after_fever :: "nat \<Rightarrow> f64 \<Rightarrow> f32 list \<Rightarrow> bool list" where
  "after_fever fill duration ts = (case ts of [] \<Rightarrow> [] | t # ts' \<Rightarrow> False # bar_walk fill duration (Filling 0) ts')"

lemma bar_walk_fever:
  "bar_walk fill duration (In_Fever e) ts =
     replicate (length (takeWhile (\<lambda>t. t < e) ts)) True
     @ after_fever fill duration (dropWhile (\<lambda>t. t < e) ts)"
  by (induction ts) (auto simp: after_fever_def)

lemma searchsorted_left_from:
  assumes "sorted ts" "k < length ts" "ts ! k < e"
  shows "searchsorted_left ts e = Suc k + length (takeWhile (\<lambda>t. t < e) (drop (Suc k) ts))"
    and "drop (searchsorted_left ts e) ts = dropWhile (\<lambda>t. t < e) (drop (Suc k) ts)"
proof -
  have below: "t < e" if "t \<in> set (take (Suc k) ts)" for t
  proof -
    from that obtain i where "i \<le> k" "t = ts ! i" by (auto simp: in_set_conv_nth less_Suc_eq_le)
    then have "t \<le> ts ! k" using sorted_nth_mono [OF assms(1), of i k] assms(2) by simp
    then show ?thesis using assms(3) by simp
  qed
  have "takeWhile (\<lambda>t. t < e) (take (Suc k) ts @ drop (Suc k) ts)
      = take (Suc k) ts @ takeWhile (\<lambda>t. t < e) (drop (Suc k) ts)"
    by (rule takeWhile_append2) (rule below)
  then have tw: "takeWhile (\<lambda>t. t < e) ts = take (Suc k) ts @ takeWhile (\<lambda>t. t < e) (drop (Suc k) ts)"
    by (simp only: append_take_drop_id)
  then show len: "searchsorted_left ts e = Suc k + length (takeWhile (\<lambda>t. t < e) (drop (Suc k) ts))"
    using assms(2) by (simp add: searchsorted_left_def)
  show "drop (searchsorted_left ts e) ts = dropWhile (\<lambda>t. t < e) (drop (Suc k) ts)"
    unfolding len by (simp add: dropWhile_eq_drop add.commute)
qed

section \<open>The kernel is the walk\<close>

lemma set_range_length [simp]: "length (set_range lo hi flags) = length flags"
  by (simp add: set_range_def)

lemma set_range_nth: "i < length flags \<Longrightarrow> set_range lo hi flags ! i \<longleftrightarrow> flags ! i \<or> lo \<le> i \<and> i < hi"
  by (simp add: set_range_def nth_enumerate_eq)

text \<open>Flags decided up to \<open>cur\<close> and clear from there on.\<close>

definition clear_from :: "nat \<Rightarrow> bool list \<Rightarrow> bool" where
  "clear_from cur flags \<longleftrightarrow> (\<forall>i. cur \<le> i \<and> i < length flags \<longrightarrow> \<not> flags ! i)"

lemma clear_tail: "clear_from cur flags \<Longrightarrow> flags = take cur flags @ replicate (length flags - cur) False"
  by (rule nth_equalityI) (auto simp: clear_from_def nth_append min_def)

lemma set_range_window:
  assumes "clear_from cur flags" "cur \<le> k" "k \<le> e" "e \<le> length flags"
  shows "take e (set_range k e flags) = take cur flags @ replicate (k - cur) False @ replicate (e - k) True"
    and "clear_from e (set_range k e flags)"
proof -
  show "take e (set_range k e flags) = take cur flags @ replicate (k - cur) False @ replicate (e - k) True"
    using assms by (intro nth_equalityI) (auto simp: set_range_nth nth_append clear_from_def)
  show "clear_from e (set_range k e flags)"
    using assms by (auto simp: clear_from_def set_range_nth)
qed

text \<open>Hit times the kernel is given: sorted, each before the end of a fever it starts.\<close>

definition playable :: "f32 list \<Rightarrow> f64 \<Rightarrow> bool" where
  "playable ts duration \<longleftrightarrow> sorted ts \<and> (\<forall>t \<in> set ts. t < r32 (add64 t duration))"

text \<open>The window that opens at note \<open>k\<close>, by the binary search and by the walk.\<close>

lemma fever_window:
  assumes "playable ts duration" "k < length ts"
  defines "e \<equiv> r32 (add64 (ts ! k) duration)"
  defines "fe \<equiv> searchsorted_left ts e"
  shows "k < fe" "fe \<le> length ts"
    and "True # bar_walk fill duration (In_Fever e) (drop (Suc k) ts)
       = replicate (fe - k) True @ after_fever fill duration (drop fe ts)"
proof -
  have "ts ! k < e" "sorted ts" using assms(1,2) by (simp_all add: playable_def e_def)
  note win = searchsorted_left_from [OF this(2) assms(2) this(1), folded fe_def]
  show "k < fe" "fe \<le> length ts" using win(1) searchsorted_left_le [of ts e] by (simp_all add: fe_def)
  have m: "length (takeWhile (\<lambda>t. t < e) (drop (Suc k) ts)) = fe - Suc k" using win(1) by linarith
  have "fe - k = Suc (fe - Suc k)" using \<open>k < fe\<close> by linarith
  then show "True # bar_walk fill duration (In_Fever e) (drop (Suc k) ts)
       = replicate (fe - k) True @ after_fever fill duration (drop fe ts)"
    unfolding bar_walk_fever m win(2) by simp
qed

lemma fever_loop_later:
  assumes "playable ts duration" "1 \<le> fill"
    and "fever_section s \<noteq> 0" "current_note_idx s = int c" "c \<le> length ts"
    and "length (is_fever s) = length ts" "clear_from c (is_fever s)"
  shows "\<exists>s'. fever_loop ts (int (length ts)) (int fill) duration s = Some s'
    \<and> is_fever s' = take c (is_fever s) @ after_fever fill duration (drop c ts)"
  using assms(3-)
proof (induction "length ts - c" arbitrary: s c rule: less_induct)
  case less
  let ?n = "length ts"
  consider "c = ?n" | "c < ?n" "?n \<le> c + fill" | "c + fill < ?n" using less.prems(3) by linarith
  then show ?case
  proof cases
    case 1
    then show ?thesis using less.prems
      by (subst fever_loop.simps) (simp add: after_fever_def)
  next
    case 2
    obtain t ts' where ts: "drop c ts = t # ts'" using 2(1) by (cases "drop c ts") auto
    then have "length ts' = ?n - Suc c" by (metis length_drop length_Cons diff_Suc_1 diff_Suc_eq_diff_pred diff_commute Suc_eq_plus1 add_diff_cancel_right')
    then have "after_fever fill duration (drop c ts) = replicate (?n - c) False"
      using 2 ts bar_walk_short [of 0 ts' fill duration]
      by (simp add: after_fever_def flip: replicate_Suc)
    then show ?thesis using 2 less.prems clear_tail [OF less.prems(5)]
      by (subst fever_loop.simps) (simp add: Let_def)
  next
    case 3
    define k where "k = c + fill"
    define fe where "fe = searchsorted_left ts (r32 (add64 (ts ! k) duration))"
    have k: "k < ?n" "c < k" using 3 assms(2) by (simp_all add: k_def)
    note win = fever_window [OF assms(1) k(1), folded fe_def]
    let ?s = "s\<lparr>fever_section := Suc (fever_section s), current_note_idx := int fe,
        fever_activations := Suc (fever_activations s), is_fever := set_range k fe (is_fever s),
        last_fever_end_idx := int fe\<rparr>"
    have "min (int c + int fill) (int ?n) = int k" using 3 by (simp add: k_def)
    then have step: "fever_loop ts (int ?n) (int fill) duration s = fever_loop ts (int ?n) (int fill) duration ?s"
      using less.prems k 3 by (cases s) (subst fever_loop.simps, simp add: Let_def fe_def)
    have window: "take fe (set_range k fe (is_fever s)) = take c (is_fever s) @ replicate fill False @ replicate (fe - k) True"
      "clear_from fe (set_range k fe (is_fever s))"
      using set_range_window [OF less.prems(5), of k fe] win(1,2) k less.prems(4) by (simp_all add: k_def)
    have "?n - fe < ?n - c" using win(1) k by linarith
    then obtain s' where s': "fever_loop ts (int ?n) (int fill) duration ?s = Some s'"
      "is_fever s' = take fe (set_range k fe (is_fever s)) @ after_fever fill duration (drop fe ts)"
      using less.hyps [of fe ?s] win(1,2) k window(2) less.prems(4) by auto
    obtain t where t: "drop c ts = t # drop (Suc c) ts" using k by (metis Cons_nth_drop_Suc order_less_trans)
    have "bar_walk fill duration (Filling 0) (drop (Suc c) ts)
        = replicate (fill - 1) False @ True # bar_walk fill duration (In_Fever (r32 (add64 (ts ! k) duration))) (drop (Suc k) ts)"
      using bar_walk_fill [of 0 "fill - 1" fill "drop (Suc c) ts" duration] assms(2) k
      by (simp add: k_def add.commute)
    then have "after_fever fill duration (drop c ts)
        = replicate fill False @ replicate (fe - k) True @ after_fever fill duration (drop fe ts)"
      using assms(2) unfolding win(3) by (cases fill) (simp_all add: after_fever_def t)
    then show ?thesis using step s' window(1) by simp
  qed
qed

text \<open>The first section needs one note less: its bar starts with no note wasted.\<close>

lemma fever_loop_start:
  assumes "playable ts duration" "2 \<le> fill"
  shows "\<exists>s'. fever_loop ts (int (length ts)) (int fill) duration (fever_start (length ts)) = Some s'
    \<and> is_fever s' = bar_walk fill duration (Filling 0) ts"
proof (cases "length ts < fill")
  case True
  then show ?thesis using bar_walk_short [of 0 ts fill duration] assms(2)
    by (subst fever_loop.simps) (auto simp: fever_start_def Let_def min_def)
next
  case False
  let ?n = "length ts"
  define k where "k = fill - 1"
  define fe where "fe = searchsorted_left ts (r32 (add64 (ts ! k) duration))"
  have k: "k < ?n" "0 < k" using False assms(2) by (simp_all add: k_def)
  note win = fever_window [OF assms(1) k(1), folded fe_def]
  let ?flags = "replicate ?n False"
  let ?s = "\<lparr>current_note_idx = int fe, fever_section = 1, fever_activations = 1, last_fever_end_idx = int fe,
      is_fever = set_range k fe ?flags\<rparr>"
  have "min (int fill - 1) (int ?n) = int k" using k assms(2) by (simp add: k_def)
  then have step: "fever_loop ts (int ?n) (int fill) duration (fever_start ?n)
      = fever_loop ts (int ?n) (int fill) duration ?s"
    using k False by (subst fever_loop.simps) (auto simp: Let_def fe_def fever_start_def)
  have clear: "clear_from 0 ?flags" by (simp add: clear_from_def)
  have window: "take fe (set_range k fe ?flags) = replicate k False @ replicate (fe - k) True"
    "clear_from fe (set_range k fe ?flags)"
    using set_range_window [OF clear, of k fe] win(1,2) k by simp_all
  obtain s' where s': "fever_loop ts (int ?n) (int fill) duration ?s = Some s'"
    "is_fever s' = take fe (set_range k fe ?flags) @ after_fever fill duration (drop fe ts)"
    using fever_loop_later [OF assms(1), of fill ?s fe] win(1,2) window(2) assms(2) by auto
  have "bar_walk fill duration (Filling 0) ts = replicate k False
      @ True # bar_walk fill duration (In_Fever (r32 (add64 (ts ! k) duration))) (drop (Suc k) ts)"
    using bar_walk_fill [of 0 k fill ts duration] assms(2) k by (simp add: k_def)
  then show ?thesis using step s' window(1) unfolding win(3) by simp
qed

text \<open>C17: for sorted hit times and a fill of at least two notes the kernel's loop ends, and the flags it
  sets, which it cuts into the head mask and the two body counts, are those of the game's bar walked
  note by note.\<close>

theorem fever_timeline_is_walk:
  assumes "playable ts duration" "2 \<le> fill"
  shows "\<exists>activations fever_end. calculate_fever_timeline_indices ts (int fill) duration =
    (let flags = bar_walk fill duration (Filling 0) ts
     in Some (take 100 flags, int (length (filter id (drop 100 flags))),
              int (length (filter Not (drop 100 flags))), activations, fever_end))"
proof -
  obtain s where "fever_loop ts (int (length ts)) (int fill) duration (fever_start (length ts)) = Some s"
    "is_fever s = bar_walk fill duration (Filling 0) ts"
    using fever_loop_start [OF assms] by blast
  moreover have "take (min (length ts) 100) (bar_walk fill duration (Filling 0) ts)
      = take 100 (bar_walk fill duration (Filling 0) ts)"
    by (simp add: min_def)
  ultimately show ?thesis
    by (simp add: calculate_fever_timeline_indices_def Let_def)
qed

section \<open>The fixed timing cell scores the walk\<close>

lemma same_note: "k div 32 = n div 32 \<Longrightarrow> k mod 32 = n mod 32 \<Longrightarrow> k = n" for k n :: nat
  by (metis div_mult_mod_eq)

lemma mark_bit:
  fixes ws :: "'a::len word list"
  assumes "n div 32 < length ws" "32 \<le> LENGTH('a)"
  shows "bit (ws[n div 32 := ws ! (n div 32) OR push_bit (n mod 32) 1] ! (k div 32)) (k mod 32)
    \<longleftrightarrow> bit (ws ! (k div 32)) (k mod 32) \<or> k = n"
proof (cases "k div 32 = n div 32")
  case True
  have "k mod 32 < LENGTH('a)" using assms(2) mod_less_divisor [of 32 k] by linarith
  then show ?thesis using True assms(1) same_note [OF True]
    by (auto simp: bit_simps nth_list_update)
next
  case False
  then show ?thesis by (auto simp: nth_list_update)
qed

lemma mark_head_bits:
  assumes "length ws = 4" "\<forall>n \<in> set heads. n < 128"
  shows "\<exists>ws'. fold_res mark_head heads ws = Inr ws' \<and> length ws' = 4
    \<and> (\<forall>k. bit (ws' ! (k div 32)) (k mod 32) \<longleftrightarrow> bit (ws ! (k div 32)) (k mod 32) \<or> k \<in> set heads)"
  using assms
proof (induction heads arbitrary: ws)
  case (Cons n heads)
  have n: "n div 32 < length ws" using Cons.prems by auto
  let ?ws = "ws[n div 32 := ws ! (n div 32) OR push_bit (n mod 32) 1]"
  have "mark_head n ws = Inr ?ws" using n by (simp add: mark_head_def)
  then show ?case using Cons.IH [of ?ws] Cons.prems mark_bit [OF n] by auto
qed simp

lemma single_surface_cell_bits:
  assumes "length heads \<le> 128"
  shows "\<exists>ws. single_surface_cell heads bf bn = Inr [\<lparr>head_words = ws, ts_body_fever = bf, ts_body_normal = bn\<rparr>]
    \<and> (\<forall>k < 128. bit (ws ! (k div 32)) (k mod 32) \<longleftrightarrow> k < length heads \<and> heads ! k)"
proof -
  have len: "length (replicate 4 (0 :: 64 word)) = 4" by simp
  have "\<forall>n \<in> set (flatnonzero heads). n < 128" using assms by (auto simp: flatnonzero_def)
  from mark_head_bits [OF len this] obtain ws where ws:
    "fold_res mark_head (flatnonzero heads) (replicate 4 0) = Inr ws"
    "\<forall>k. bit (ws ! (k div 32)) (k mod 32)
        \<longleftrightarrow> bit (replicate 4 (0 :: 64 word) ! (k div 32)) (k mod 32) \<or> k \<in> set (flatnonzero heads)"
    by blast
  have zero: "\<not> bit (replicate 4 (0 :: 64 word) ! (k div 32)) (k mod 32)" if "k < 128" for k
  proof -
    have "k div 32 < 4" using that by linarith
    then show ?thesis by simp
  qed
  show ?thesis using ws zero by (auto simp: single_surface_cell_def flatnonzero_def)
qed

text \<open>A surface's score depends only on the head bits and the body counts.\<close>

lemma fg_score_value_cong:
  assumes "\<And>k. k < HEAD_NOTES \<Longrightarrow> k < n \<Longrightarrow>
        bit (fever_words s ! (k div 32)) (k mod 32) = bit (fever_words t ! (k div 32)) (k mod 32)
        \<and> bit (great_words s ! (k div 32)) (k mod 32) = bit (great_words t ! (k div 32)) (k mod 32)"
    and "body_fever s = body_fever t" "body_great s = body_great t" "body_fever_great s = body_fever_great t"
  shows "fg_score_value f s n = fg_score_value f t n"
proof -
  have heads: "map (fg_note_value f s) [0..<min n HEAD_NOTES] = map (fg_note_value f t) [0..<min n HEAD_NOTES]"
    using assms(1) by (intro map_cong) (simp_all add: fg_note_value_note)
  show ?thesis unfolding fg_score_value_def Let_def heads assms(2-) ..
qed

lemma fixed_cell_score:
  assumes "playable ts duration" "2 \<le> fill" "length (f_ramp f) = HEAD_NOTES"
  shows "\<exists>cell. fixed_timeline_cell ts (int fill) duration = Some (Inr cell)
    \<and> best_timeline_score f cell (length ts)
        = Inr (play_score f (map (\<lambda>b. (b, False)) (bar_walk fill duration (Filling 0) ts)), 0)"
proof -
  let ?flags = "bar_walk fill duration (Filling 0) ts"
  let ?play = "map (\<lambda>b. (b, False)) ?flags"
  let ?bf = "int (length (filter id (drop 100 ?flags)))" and ?bn = "int (length (filter Not (drop 100 ?flags)))"
  obtain activations fever_end where run: "calculate_fever_timeline_indices ts (int fill) duration
      = Some (take 100 ?flags, ?bf, ?bn, activations, fever_end)"
    using fever_timeline_is_walk [OF assms(1,2)] by (auto simp: Let_def)
  have "length (take 100 ?flags) \<le> 128" by simp
  from single_surface_cell_bits [OF this, of ?bf ?bn] obtain ws where cell: "single_surface_cell (take 100 ?flags) ?bf ?bn
      = Inr [\<lparr>head_words = ws, ts_body_fever = ?bf, ts_body_normal = ?bn\<rparr>]"
    and bits: "\<forall>k < 128. bit (ws ! (k div 32)) (k mod 32) \<longleftrightarrow> k < length (take 100 ?flags) \<and> take 100 ?flags ! k"
    by blast
  let ?s = "\<lparr>head_words = ws, ts_body_fever = ?bf, ts_body_normal = ?bn\<rparr>"
  have "int (length (filter id bs)) + int (length (filter Not bs)) = int (length bs)" for bs
    by (induction bs) auto
  from this [of "drop 100 ?flags"] have valid: "valid_timeline ?s (length ts)"
    by (simp add: valid_timeline_def HEAD_NOTES_def COMBO_RAMP_NOTES_def)
  have "timeline_row_score f ?s (length ts) = fg_score_value f (play_surface ?play) (length ts)"
    unfolding timeline_row_score_def
  proof (rule fg_score_value_cong)
    fix k assume k: "k < HEAD_NOTES" "k < length ts"
    then have "k < 128" "k < 100" by (simp_all add: HEAD_NOTES_def COMBO_RAMP_NOTES_def)
    then show "bit (fever_words (timeline_fg ?s) ! (k div 32)) (k mod 32)
          = bit (fever_words (play_surface ?play) ! (k div 32)) (k mod 32)
        \<and> bit (great_words (timeline_fg ?s) ! (k div 32)) (k mod 32)
          = bit (great_words (play_surface ?play) ! (k div 32)) (k mod 32)"
      using k bits timeline_fg_bits [of k ?s] play_surface_bits [of k ?play] by simp
  next
    show "body_fever (timeline_fg ?s) = body_fever (play_surface ?play)"
      "body_great (timeline_fg ?s) = body_great (play_surface ?play)"
      "body_fever_great (timeline_fg ?s) = body_fever_great (play_surface ?play)"
      by (simp_all add: timeline_fg_def play_surface_def Let_def HEAD_NOTES_def COMBO_RAMP_NOTES_def
          drop_map comp_def id_def)
  qed
  also have "\<dots> = play_score f ?play"
    using fg_surface_score_play_value [of f ?play] by simp
  finally have score: "timeline_row_score f ?s (length ts) = play_score f ?play" .
  have "best_timeline_score f [?s] (length ts) = Inr (timeline_row_score f ?s (length ts), 0)"
    using best_timeline_score_eq [OF assms(3), of "[?s]" "length ts"] valid by (simp add: argmax_def)
  then show ?thesis
    unfolding fixed_timeline_cell_def run option.map split_conv cell score by blast
qed

text \<open>C8: play at fixed hit times scores what the game gives: the timing cell the kernel builds,
  scored by \<open>best_timeline_score\<close>, is the note-by-note score of the walked fever.\<close>

theorem fixed_timeline_score:
  assumes "playable ts duration" "2 \<le> fill" "length (f_ramp f) = HEAD_NOTES"
  shows "\<exists>cell. fixed_timeline_cell ts (int fill) duration = Some (Inr cell)
    \<and> best_timeline_score f cell (length ts)
        = Inr (play_score f (map (\<lambda>b. (b, False)) (bar_walk fill duration (Filling 0) ts)), 0)"
  by (rule fixed_cell_score [OF assms])

section \<open>Concrete play\<close>

lemma fever_timeline_is_walk_witness:
  "\<exists>activations fever_end. calculate_fever_timeline_indices [0, 1, 2, 3, 4, 5] 2 (3 / 2)
     = Some ([False, True, True, False, False, True], 0, 0, activations, fever_end)"
proof -
  have playable: "playable [0, 1, 2, 3, 4, 5] (3 / 2)" by code_simp
  have flags: "bar_walk 2 (3 / 2) (Filling 0) [0, 1, 2, 3, 4, 5] = [False, True, True, False, False, True]"
    by code_simp
  show ?thesis using fever_timeline_is_walk [OF playable, of 2, unfolded flags] by (simp add: Let_def)
qed

lemma fixed_timeline_score_witness:
  "\<exists>cell. fixed_timeline_cell [0, 1, 2, 3] 2 (3 / 2) = Some (Inr cell)
    \<and> best_timeline_score example_factors cell 4 = Inr (6450, 0)"
proof -
  have playable: "playable [0, 1, 2, 3] (3 / 2)" by code_simp
  have score: "play_score example_factors
      (map (\<lambda>b. (b, False)) (bar_walk 2 (3 / 2) (Filling 0) [0, 1, 2, 3])) = 6450"
    by code_simp
  have ramp: "length (f_ramp example_factors) = HEAD_NOTES"
    by (simp add: example_factors_def HEAD_NOTES_def COMBO_RAMP_NOTES_def)
  have four: "length [0 :: rat, 1, 2, 3] = 4" by simp
  show ?thesis using fixed_timeline_score [OF playable _ ramp, of 2, unfolded score four] by simp
qed

text \<open>C20: a fill of one note is the kernel's corner: the bar walked note by note is full on the first note
  and starts fever there, while the kernel leaves its loop before the first note and sets no fever
  at all.\<close>

theorem fill_of_one_never_fevers:
  assumes "ts \<noteq> []"
  shows "calculate_fever_timeline_indices ts 1 duration
      = Some (replicate (min (length ts) 100) False, 0, int (length ts - 100), 0, 0)
    \<and> hd (bar_walk 1 duration (Filling 0) ts)"
proof -
  have "fever_loop ts (int (length ts)) 1 duration (fever_start (length ts))
      = Some ((fever_start (length ts))\<lparr>fever_section := 1\<rparr>)"
    using assms by (subst fever_loop.simps) (simp add: fever_start_def Let_def)
  moreover have "hd (bar_walk 1 duration (Filling 0) ts)" using assms by (cases ts) auto
  ultimately show ?thesis
    by (simp add: calculate_fever_timeline_indices_def fever_start_def Let_def)
qed

lemma fill_of_one_never_fevers_witness:
  "calculate_fever_timeline_indices [0, 1, 2] 1 1 = Some ([False, False, False], 0, 0, 0, 0)"
  using fill_of_one_never_fevers [of "[0, 1, 2]" 1] by (simp add: numeral_eq_Suc)

end
