(* ===== verification/Timing.thy ===== *)
theory Timing
  imports Chart FillCrossing FeverTimeline
begin

text \<open>
  solver/timing_envelope.py, core/time_quantize.py and core/timing_modes.py: the judgment windows of a
  Perfect Time stat, the hit envelopes of a chart under Precise timing, and the axes of the fever:
  its durations and its fill thresholds. Milliseconds are unbounded integers here (the source keeps
  them in 32 bits, and a chart lasts minutes).
\<close>

section \<open>Time quantization\<close>

definition snap_near_int_ms :: "f32 \<Rightarrow> f32 \<Rightarrow> f32" where
  "snap_near_int_ms tol ms =
     (let rounded = of_int (rne ms) in if \<bar>sub32 ms rounded\<bar> \<le> tol then rounded else ms)"

definition SNAP_TOL_MS :: f32 where "SNAP_TOL_MS = r32 (r64 (1 / 10))"

definition quantize_to_int_ms :: "f32 \<Rightarrow> int" where
  "quantize_to_int_ms t = \<lfloor>snap_near_int_ms SNAP_TOL_MS (mul32 t 1000)\<rfloor>"

section \<open>Judgment windows\<close>

definition NON_PRECISE :: string where "NON_PRECISE = ''non-precise''"
definition PRECISE :: string where "PRECISE = ''precise''"
definition TIMING_MODES :: "string list" where "TIMING_MODES = [NON_PRECISE, PRECISE]"

definition NOTE_REMOVE_LATE_CAP_MS :: int where "NOTE_REMOVE_LATE_CAP_MS = 200"
definition GREAT_LOWER_EXTRA_MS :: f64 where "GREAT_LOWER_EXTRA_MS = - 75"
definition GREAT_UPPER_EXTRA_MS :: f64 where "GREAT_UPPER_EXTRA_MS = 150"
definition OKAY_LOWER_EXTRA_MS :: f64 where "OKAY_LOWER_EXTRA_MS = - 140"
definition OKAY_UPPER_EXTRA_MS :: f64 where "OKAY_UPPER_EXTRA_MS = 240"
definition HELD_TAIL_TYPE :: int where "HELD_TAIL_TYPE = 3"
definition HELD_TAIL_WINDOW_SCALE :: int where "HELD_TAIL_WINDOW_SCALE = 2"
definition FRAME_MARGIN_MS :: f64 where "FRAME_MARGIN_MS = add64 (div64 1000 60) 1"

record band =
  earliest :: int
  latest :: int

record judgment_bounds =
  perfect_band :: band
  early_great_band :: band
  late_great_band :: band

text \<open>Late Okay, late Great, late Perfect, early Perfect, early Great, early Okay.\<close>

definition judgment_edges :: "int \<Rightarrow> f64 list" where
  "judgment_edges stat =
     (let perfect_lower = signed_stat_curve 0 (- 5) (- 20) (- 60) (- 80) stat;
          perfect_upper = signed_stat_curve 0 10 40 120 140 stat;
          great_lower = add64 perfect_lower GREAT_LOWER_EXTRA_MS;
          great_upper = add64 perfect_upper GREAT_UPPER_EXTRA_MS
      in [add64 great_upper OKAY_UPPER_EXTRA_MS, great_upper, perfect_upper,
          perfect_lower, great_lower, add64 great_lower OKAY_LOWER_EXTRA_MS])"

definition judgment_bounds_of :: "int \<Rightarrow> int \<Rightarrow> judgment_bounds" where
  "judgment_bounds_of scale stat =
     (let edge = (\<lambda>i. \<lfloor>mul64 (judgment_edges stat ! i) (of_int scale)\<rfloor>);
          late_great = edge 1; late_perfect = edge 2; early_perfect = edge 3; early_great = edge 4
      in \<lparr>perfect_band = \<lparr>earliest = early_perfect + 1, latest = late_perfect\<rparr>,
          early_great_band = \<lparr>earliest = early_great + 1, latest = early_perfect\<rparr>,
          late_great_band = \<lparr>earliest = late_perfect + 1, latest = min late_great NOTE_REMOVE_LATE_CAP_MS\<rparr>\<rparr>)"

text \<open>Per note: earliest Perfect, latest Perfect, earliest early Great, latest and earliest late Great.\<close>

record note_window =
  w_perfect_low :: int
  w_perfect_high :: int
  w_great_low :: int
  w_great_high :: int
  w_late_great_low :: int

definition window_of :: "judgment_bounds \<Rightarrow> note_window" where
  "window_of b = \<lparr>w_perfect_low = earliest (perfect_band b), w_perfect_high = latest (perfect_band b),
     w_great_low = earliest (early_great_band b), w_great_high = latest (late_great_band b),
     w_late_great_low = earliest (late_great_band b)\<rparr>"

definition judgment_windows_ms :: "int list \<Rightarrow> note_window list" where
  "judgment_windows_ms types =
     (let tap = window_of (judgment_bounds_of 1 0); tail = window_of (judgment_bounds_of HELD_TAIL_WINDOW_SCALE 0)
      in map (\<lambda>ty. if ty = HELD_TAIL_TYPE then tail else tap) types)"

section \<open>Hit envelopes\<close>

record envelopes =
  perfect_candidates :: "f32 list"
  perfect_floor :: "f32 list"
  great_floor :: "f32 list"
  great_candidates :: "f32 list"
  late_great_floor :: "f32 list"
  exit_ceiling :: "f32 list"

text \<open>\<open>np.maximum.accumulate\<close> and \<open>np.minimum.accumulate\<close>.\<close>

fun accumulate :: "('a \<Rightarrow> 'a \<Rightarrow> 'a) \<Rightarrow> 'a list \<Rightarrow> 'a list" where
  "accumulate f [] = []"
| "accumulate f [x] = [x]"
| "accumulate f (x # y # ys) = x # accumulate f (f x y # ys)"

definition ms_to_seconds :: "int \<Rightarrow> f32" where
  "ms_to_seconds ms = mul32 (r32 (of_int ms)) (r32 (r64 (1 / 1000)))"

definition envelope_ms :: "f32 list \<Rightarrow> int list \<Rightarrow> int list" where
  "envelope_ms ts offsets = map2 (\<lambda>t offset. quantize_to_int_ms t + offset) ts offsets"

definition envelope_sec :: "f32 list \<Rightarrow> int list \<Rightarrow> bool \<Rightarrow> f32 list" where
  "envelope_sec ts offsets prefix_max =
     (let event_ms = envelope_ms ts offsets
      in map ms_to_seconds (if prefix_max then accumulate max event_ms else event_ms))"

definition hard_high :: "f32 \<Rightarrow> int \<Rightarrow> f64" where
  "hard_high t perfect_high = add64 t (mul64 (of_int perfect_high) (r64 (1 / 1000)))"

definition safe_high :: "f32 \<Rightarrow> int \<Rightarrow> f32" where
  "safe_high t perfect_high =
     (let hard = hard_high t perfect_high; safe = r32 hard
      in if safe > hard then next_down32 safe else safe)"

definition precise_envelopes :: "f32 list \<Rightarrow> int list \<Rightarrow> envelopes" where
  "precise_envelopes ts types =
     (let windows = judgment_windows_ms types;
          highs = map w_perfect_high windows;
          candidates = map2 min (envelope_sec ts highs False) (map2 safe_high ts highs)
      in \<lparr>perfect_candidates = candidates,
          perfect_floor = envelope_sec ts (map w_perfect_low windows) True,
          great_floor = envelope_sec ts (map w_great_low windows) True,
          great_candidates = envelope_sec ts (map w_great_high windows) False,
          late_great_floor = map (\<lambda>c. add32 c (r32 (r64 (1 / 1000)))) candidates,
          exit_ceiling = rev (accumulate min (rev candidates))\<rparr>)"

section \<open>The fever's axes\<close>

definition fever_durations :: "f64 \<Rightarrow> f64 list \<Rightarrow> f64 list" where
  "fever_durations last_note decay_rates =
     (let length_ms = rne (mul64 last_note 1000) + 1000;
          approx_length_ms = mul64 (r64 (of_int length_ms / 1000)) 1000
      in map (\<lambda>rate. mul64 (div64 approx_length_ms 1000) rate) decay_rates)"

definition fever_fill_denominators :: "int \<Rightarrow> f64 list \<Rightarrow> f64 list" where
  "fever_fill_denominators hit_objects fill_bases = map (mul64 (r64 (of_int hit_objects))) fill_bases"

text \<open>The game's bar under Perfects; None is a loop that never fills it.\<close>

partial_function (option) fill_loop :: "f64 \<Rightarrow> f64 \<Rightarrow> nat \<Rightarrow> nat option" where
  "fill_loop fill bar perfects =
     (if bar < 1 then fill_loop fill (min (add64 bar fill) 1) (Suc perfects) else Some perfects)"

definition perfects_to_fill :: "f64 \<Rightarrow> nat res option" where
  "perfects_to_fill denominator =
     (if denominator = 0 then Some (Inl ZeroDivisionError)
      else map_option Inr (fill_loop (div64 1 denominator) 0 0))"

definition near_half_note :: "f64 \<Rightarrow> bool" where
  "near_half_note d \<longleftrightarrow> \<bar>sub64 (mul64 2 d) (of_int (rne (mul64 2 d)))\<bar> < r64 (1 / 1000000)"

definition fill_threshold :: "f64 \<Rightarrow> f64 res option" where
  "fill_threshold d =
     (let threshold = div64 (of_int \<lceil>mul64 2 d\<rceil>) 2
      in if near_half_note d
         then map_option (map_sum id (\<lambda>n.
                min (max threshold (sub64 (of_nat n) (1 / 2))) (of_nat n))) (perfects_to_fill d)
         else Some (Inr threshold))"

definition fever_fill_thresholds :: "f64 list \<Rightarrow> f64 list res option" where
  "fever_fill_thresholds denominators =
     map_option (map_res id) (those (map fill_threshold denominators))"

definition fever_axes :: "int \<Rightarrow> int \<Rightarrow> f64 \<Rightarrow> stat_curves \<Rightarrow> (f64 list \<times> f64 list) res option" where
  "fever_axes note_count long last_note curves =
     (case (lookup (curve_f64 curves) ''Fever Time'', lookup (curve_f64 curves) ''Fever Fill Rate'') of
        (Inr rates, Inr bases) \<Rightarrow>
          map_option (\<lambda>r. bind_res r (\<lambda>thresholds. Inr (fever_durations last_note rates, thresholds)))
            (fever_fill_thresholds (fever_fill_denominators (note_count - long) bases))
      | _ \<Rightarrow> Some (Inl KeyError))"

section \<open>Timed songs\<close>

text \<open>\<open>digest\<close> stands for the hash of a custom offset's whole milliseconds.\<close>

definition baseline_hit_timeline :: "(int list \<Rightarrow> string) \<Rightarrow> f32 list \<Rightarrow> f32 list option \<Rightarrow> (f32 list \<times> string) res" where
  "baseline_hit_timeline digest ts offset =
     (case offset of None \<Rightarrow> Inr (ts, [])
      | Some os \<Rightarrow>
          if length os \<noteq> length ts then Inl ValueError
          else if \<forall>x \<in> set os. x = 0 then Inr (ts, [])
          else let hit = map2 add32 ts os
               in if \<not> sorted hit then Inl ValueError
                  else Inr (hit, digest (map (\<lambda>x. rne (mul64 x 1000)) os)))"

record timed_song =
  song_chart :: chart
  song_mode :: string
  baseline_hash :: string
  hit_timestamps :: "f32 list"
  song_envelopes :: "envelopes option"

text \<open>Apart from its cache of prepared songs.\<close>

definition time_song :: "(int list \<Rightarrow> string) \<Rightarrow> chart \<Rightarrow> string \<Rightarrow> f32 list option \<Rightarrow> timed_song res" where
  "time_song digest c mode offset =
     (let custom = (case offset of None \<Rightarrow> False | Some os \<Rightarrow> \<exists>x \<in> set os. x \<noteq> 0)
      in if mode \<notin> set TIMING_MODES then Inl ValueError
         else if custom \<and> mode \<noteq> NON_PRECISE then Inl ValueError
         else if custom then
           bind_res (baseline_hit_timeline digest (timestamps c) offset) (\<lambda>(hit, hash).
             Inr \<lparr>song_chart = c, song_mode = NON_PRECISE, baseline_hash = hash, hit_timestamps = hit,
                  song_envelopes = None\<rparr>)
         else Inr \<lparr>song_chart = c, song_mode = mode, baseline_hash = [], hit_timestamps = timestamps c,
                   song_envelopes = (if mode = NON_PRECISE then None
                                     else Some (precise_envelopes (timestamps c) (note_types c)))\<rparr>)"

section \<open>The envelopes are what their readers search\<close>

lemma accumulate_length [simp]: "length (accumulate f xs) = length xs"
  by (induction f xs rule: accumulate.induct) simp_all

lemma accumulate_max_ge: "x \<in> set (accumulate max (y # ys)) \<Longrightarrow> y \<le> (x :: 'a::linorder)"
proof (induction ys arbitrary: y)
  case (Cons a ys)
  then show ?case using Cons.IH [of "max y a"] by auto
qed simp

lemma accumulate_max_sorted_Cons: "sorted (accumulate max (y # ys))" for y :: "'a::linorder"
proof (induction ys arbitrary: y)
  case (Cons a ys)
  have "y \<le> z" if "z \<in> set (accumulate max (max y a # ys))" for z
    using accumulate_max_ge [OF that] by simp
  then show ?case using Cons.IH [of "max y a"] by simp
qed simp

lemma accumulate_max_sorted: "sorted (accumulate max xs)" for xs :: "'a::linorder list"
  by (cases xs) (simp_all only: accumulate_max_sorted_Cons accumulate.simps sorted_wrt.simps)

lemma accumulate_min_le: "x \<in> set (accumulate min (y # ys)) \<Longrightarrow> (x :: 'a::linorder) \<le> y"
proof (induction ys arbitrary: y)
  case (Cons a ys)
  then show ?case using Cons.IH [of "min y a"] by auto
qed simp

lemma accumulate_min_sorted_Cons: "sorted_wrt (\<ge>) (accumulate min (y # ys))" for y :: "'a::linorder"
proof (induction ys arbitrary: y)
  case (Cons a ys)
  have "z \<le> y" if "z \<in> set (accumulate min (min y a # ys))" for z
    using accumulate_min_le [OF that] by simp
  then show ?case using Cons.IH [of "min y a"] by simp
qed simp

lemma accumulate_min_sorted: "sorted_wrt (\<ge>) (accumulate min xs)" for xs :: "'a::linorder list"
  by (cases xs) (simp_all only: accumulate_min_sorted_Cons accumulate.simps sorted_wrt.simps)

lemma accumulate_min_nth_Cons: "i < Suc (length ys) \<Longrightarrow> accumulate min (y # ys) ! i \<le> (y # ys) ! i" for y :: "'a::linorder"
proof (induction ys arbitrary: y i)
  case (Cons a ys)
  show ?case
  proof (cases i)
    case (Suc j)
    then have "accumulate min (min y a # ys) ! j \<le> (min y a # ys) ! j" using Cons by simp
    also have "\<dots> \<le> (a # ys) ! j" by (cases j) simp_all
    finally show ?thesis by (simp add: Suc)
  qed simp
qed simp

lemma accumulate_min_nth: "i < length xs \<Longrightarrow> accumulate min xs ! i \<le> xs ! i" for xs :: "'a::linorder list"
  by (cases xs) (simp_all del: accumulate.simps add: accumulate_min_nth_Cons)

lemma ms_to_seconds_mono: "a \<le> b \<Longrightarrow> ms_to_seconds a \<le> ms_to_seconds b"
  unfolding ms_to_seconds_def mul32_def
  by (intro r32_mono mult_right_mono) (simp_all add: r32_mono r32_nonneg r64_nonneg)

lemma sorted_envelope: "sorted (envelope_sec ts offsets True)"
proof -
  have "sorted (map ms_to_seconds (accumulate max ms))" for ms
    unfolding sorted_map
    by (rule sorted_wrt_mono_rel [OF _ accumulate_max_sorted [of ms]]) (rule ms_to_seconds_mono)
  then show ?thesis by (simp add: envelope_sec_def Let_def)
qed

lemma safe_high_within:
  assumes "0 < hard_high t high"
  shows "is_f32 (safe_high t high) \<and> safe_high t high \<le> hard_high t high
    \<and> (\<forall>v. is_f32 v \<and> v \<le> hard_high t high \<longrightarrow> v \<le> safe_high t high)"
proof -
  let ?hard = "hard_high t high"
  have fits: "is_f32 (r32 ?hard)" by (simp add: is_f32_def)
  show ?thesis
  proof (cases "r32 ?hard \<le> ?hard")
    case True
    then show ?thesis using fits le_r32 by (simp add: safe_high_def Let_def)
  next
    case False
    then have over: "?hard < r32 ?hard" by simp
    then have pos: "0 < r32 ?hard" using assms by linarith
    note down = next_down32_greatest [OF fits pos]
    have safe: "safe_high t high = next_down32 (r32 ?hard)" using over by (simp add: safe_high_def Let_def)
    have "next_down32 (r32 ?hard) \<le> ?hard"
    proof (rule ccontr)
      assume "\<not> next_down32 (r32 ?hard) \<le> ?hard"
      then have "r32 ?hard \<le> r32 (next_down32 (r32 ?hard))" by (intro r32_mono) simp
      then show False using down(1,2) by (simp add: is_f32_def)
    qed
    then show ?thesis unfolding safe using down over by auto
  qed
qed

lemma tap_window: "window_of (judgment_bounds_of 1 0)
    = \<lparr>w_perfect_low = - 19, w_perfect_high = 40, w_great_low = - 94, w_great_high = 190, w_late_great_low = 41\<rparr>"
  by code_simp

lemma tail_window: "window_of (judgment_bounds_of HELD_TAIL_WINDOW_SCALE 0)
    = \<lparr>w_perfect_low = - 39, w_perfect_high = 80, w_great_low = - 189, w_great_high = 200, w_late_great_low = 81\<rparr>"
  by code_simp

lemma windows_nth: "i < length types \<Longrightarrow> judgment_windows_ms types ! i =
    (if types ! i = 3
     then \<lparr>w_perfect_low = - 39, w_perfect_high = 80, w_great_low = - 189, w_great_high = 200, w_late_great_low = 81\<rparr>
     else \<lparr>w_perfect_low = - 19, w_perfect_high = 40, w_great_low = - 94, w_great_high = 190, w_late_great_low = 41\<rparr>)"
  unfolding judgment_windows_ms_def Let_def tap_window tail_window by (simp add: HELD_TAIL_TYPE_def)

lemma hard_high_pos: "0 \<le> t \<Longrightarrow> high = 40 \<or> high = 80 \<Longrightarrow> 0 < hard_high t high"
proof -
  assume t: "0 \<le> t" and high: "high = 40 \<or> high = 80"
  have "0 < mul64 40 (r64 (1 / 1000))" "0 < mul64 80 (r64 (1 / 1000))" by code_simp+
  then have pos: "0 < mul64 (of_int high) (r64 (1 / 1000))" using high by auto
  have "is_f64 (mul64 (of_int high) (r64 (1 / 1000)))" by simp
  then have "mul64 (of_int high) (r64 (1 / 1000)) \<le> hard_high t high"
    unfolding hard_high_def add64_def using t by (intro le_r64) simp_all
  then show ?thesis using pos by linarith
qed

text \<open>C27: under Precise timing every latest Perfect hit of \<open>precise_envelopes\<close> lies inside its judgment
  window as the game compares it (the binary32 hit against the window's binary64 edge), and it is
  the latest binary32 time that does and does not pass the whole-millisecond edge: the rounding of
  the edge to binary32 never pushes a planned Perfect out of the window.\<close>

theorem perfect_candidates_inside_window:
  assumes "length types = length ts" "i < length ts" "0 \<le> ts ! i"
  defines "high \<equiv> w_perfect_high (judgment_windows_ms types ! i)"
    and "edge \<equiv> ms_to_seconds (quantize_to_int_ms (ts ! i) + w_perfect_high (judgment_windows_ms types ! i))"
    and "candidate \<equiv> perfect_candidates (precise_envelopes ts types) ! i"
  shows "candidate \<le> hard_high (ts ! i) high \<and> candidate \<le> edge
    \<and> (\<forall>v. is_f32 v \<and> v \<le> hard_high (ts ! i) high \<and> v \<le> edge \<longrightarrow> v \<le> candidate)"
proof -
  have len: "length (judgment_windows_ms types) = length ts"
    using assms(1) by (simp add: judgment_windows_ms_def Let_def)
  have "candidate = min edge (safe_high (ts ! i) high)"
    using assms(1,2) len
    by (simp add: candidate_def precise_envelopes_def Let_def envelope_sec_def envelope_ms_def edge_def high_def)
  moreover have "high = 40 \<or> high = 80" using windows_nth [of i types] assms(1,2) by (simp add: high_def)
  then have "0 < hard_high (ts ! i) high" using hard_high_pos assms(3) by blast
  ultimately show ?thesis using safe_high_within [of "ts ! i" high] by auto
qed

text \<open>C28: the floors of \<open>precise_envelopes\<close> never fall and its exit ceiling never falls and never passes
  the latest Perfect hit, so the frontier's binary searches over them read sorted times.\<close>

theorem envelopes_sorted:
  assumes "length types = length ts"
  defines "env \<equiv> precise_envelopes ts types"
  shows "sorted (perfect_floor env) \<and> sorted (great_floor env) \<and> sorted (exit_ceiling env)
    \<and> length (exit_ceiling env) = length ts
    \<and> (\<forall>i < length ts. exit_ceiling env ! i \<le> perfect_candidates env ! i)"
proof -
  let ?cs = "perfect_candidates env"
  have len: "length ?cs = length ts"
    using assms(1) by (simp add: env_def precise_envelopes_def Let_def envelope_sec_def envelope_ms_def
        judgment_windows_ms_def)
  have exit: "exit_ceiling env = rev (accumulate min (rev ?cs))"
    by (simp add: env_def precise_envelopes_def Let_def)
  have "sorted (exit_ceiling env)"
    unfolding exit sorted_wrt_rev by (rule accumulate_min_sorted)
  moreover have "exit_ceiling env ! i \<le> ?cs ! i" if "i < length ts" for i
  proof -
    have "accumulate min (rev ?cs) ! (length ts - Suc i) \<le> rev ?cs ! (length ts - Suc i)"
      using that len by (intro accumulate_min_nth) simp
    then show ?thesis using that len by (simp add: exit rev_nth)
  qed
  ultimately show ?thesis using len
    by (simp add: exit sorted_envelope env_def precise_envelopes_def Let_def)
qed

section \<open>The fill threshold counts the game's bar\<close>

definition bar_after :: "f64 \<Rightarrow> nat \<Rightarrow> f64" where
  "bar_after fill j = ((\<lambda>b. min (add64 b fill) 1) ^^ j) 0"

lemma bar_after_simps [simp]:
  "bar_after fill 0 = 0" "bar_after fill (Suc j) = min (add64 (bar_after fill j) fill) 1"
  by (simp_all add: bar_after_def)

lemma bar_after_le_1: "bar_after fill j \<le> 1"
  by (cases j) simp_all

lemma fill_loop_after:
  assumes "\<forall>i < n. bar_after fill i < 1" "1 \<le> bar_after fill n" "k \<le> n"
  shows "fill_loop fill (bar_after fill k) k = Some n"
  using assms(3)
proof (induction "n - k" arbitrary: k)
  case 0
  then show ?case using assms(2) by (subst fill_loop.simps) simp
next
  case (Suc m)
  then have "k < n" by simp
  then have "bar_after fill k < 1" using assms(1) by blast
  then show ?case using Suc.hyps(1) [of "Suc k"] Suc.hyps(2) \<open>k < n\<close>
    by (subst fill_loop.simps) simp
qed

lemma fill_of_bounds:
  assumes "1 < d" "d \<le> 4096"
  shows "\<bar>div64 1 d - 1 / d\<bar> \<le> 2 powi (- 53)" "0 \<le> div64 1 d" "div64 1 d \<le> 1"
proof -
  have "\<bar>1 / d\<bar> \<le> 2 powi 0" using assms by simp
  then have "\<bar>r64 (1 / d) - 1 / d\<bar> \<le> 2 powi (0 - 53)" by (rule r64_error_abs) simp
  then show "\<bar>div64 1 d - 1 / d\<bar> \<le> 2 powi (- 53)" by (simp add: div64_def)
  show "0 \<le> div64 1 d" using assms by (simp add: div64_def r64_nonneg)
  have "r64 (1 / d) \<le> r64 1" using assms by (intro r64_mono) simp
  then show "div64 1 d \<le> 1" using r64_of_int [of 1] by (simp add: div64_def)
qed

lemma bar_after_nonneg: "0 \<le> fill \<Longrightarrow> 0 \<le> bar_after fill j"
  by (induction j) (simp_all add: add64_def r64_nonneg)

text \<open>A bar step's rounding, with the sum below two.\<close>

lemma bar_step_error:
  assumes "0 \<le> b" "b \<le> 1" "0 \<le> fill" "fill \<le> 1"
  shows "\<bar>add64 b fill - (b + fill)\<bar> \<le> 2 powi (- 52)"
proof -
  have "\<bar>b + fill\<bar> \<le> 2 powi 1" using assms by simp
  then have "\<bar>r64 (b + fill) - (b + fill)\<bar> \<le> 2 powi (1 - 53)" by (rule r64_error_abs) simp
  then show ?thesis by (simp add: add64_def)
qed

lemma eps_sum: "2 powi (- 53) + 2 powi (- 52) \<le> (2 powi (- 51) :: rat)"
  by simp

lemma bar_after_error:
  assumes "1 < d" "d \<le> 4096"
  shows "of_nat j / d + of_nat j * 2 powi (- 51) < 1 \<Longrightarrow>
    \<bar>bar_after (div64 1 d) j - of_nat j / d\<bar> \<le> of_nat j * 2 powi (- 51)"
proof (induction j)
  case 0
  then show ?case by simp
next
  case (Suc j)
  let ?e = "2 powi (- 51) :: rat" and ?fill = "div64 1 d"
  let ?b = "bar_after ?fill j"
  have next_sum: "of_nat (Suc j) / d = of_nat j / d + 1 / d" "of_nat (Suc j) * ?e = of_nat j * ?e + ?e"
    by (simp_all add: add_divide_distrib algebra_simps)
  have "0 \<le> 1 / d" "0 \<le> ?e" using assms by simp_all
  then have "of_nat j / d + of_nat j * ?e < 1" using Suc.prems next_sum by linarith
  from Suc.IH [OF this] have IH: "\<bar>?b - of_nat j / d\<bar> \<le> of_nat j * ?e" .
  note fill = fill_of_bounds [OF assms]
  note step = bar_step_error [OF bar_after_nonneg [OF fill(2)] bar_after_le_1 fill(2,3), of j]
  have "\<bar>add64 ?b ?fill - of_nat (Suc j) / d\<bar> \<le> of_nat (Suc j) * ?e"
    using IH step fill(1) next_sum eps_sum by linarith
  moreover from this have "add64 ?b ?fill < 1" using Suc.prems by linarith
  ultimately show ?case by (simp add: min_def)
qed

lemma fill_count_far:
  assumes "1 < d" "d \<le> 4096" "of_int (\<lceil>d\<rceil> - 1) + 4 / 10 ^ 7 \<le> d" "d + 4 / 10 ^ 7 \<le> of_int \<lceil>d\<rceil>"
  shows "fill_loop (div64 1 d) 0 0 = Some (nat \<lceil>d\<rceil>)"
proof -
  define N where "N = nat \<lceil>d\<rceil>"
  have N: "of_int \<lceil>d\<rceil> = rat_of_nat N" "1 \<le> N" "rat_of_nat N \<le> 4097"
  proof -
    have "0 < \<lceil>d\<rceil>" using assms(1) by simp
    then show "of_int \<lceil>d\<rceil> = rat_of_nat N" "1 \<le> N" unfolding N_def by (simp, linarith)
    have "of_int \<lceil>d\<rceil> < d + 1" by linarith
    then show "rat_of_nat N \<le> 4097" using \<open>of_int \<lceil>d\<rceil> = rat_of_nat N\<close> assms(2) by linarith
  qed
  let ?e = "2 powi (- 51) :: rat" and ?fill = "div64 1 d"
  have small: "rat_of_nat N * ?e * d < 4 / 10 ^ 7"
  proof -
    have "rat_of_nat N * ?e * d \<le> 4097 * ?e * 4096"
      using N(3) assms(1,2) by (intro mult_mono) simp_all
    also have "\<dots> < 4 / 10 ^ 7" by simp
    finally show ?thesis .
  qed
  have below: "of_nat j / d + of_nat j * ?e < 1" if "j < N" for j
  proof -
    have "j \<le> N - 1" using that by simp
    then have j: "rat_of_nat j \<le> of_nat N - 1" using N(2) by (metis of_nat_le_iff of_nat_1 of_nat_diff)
    have "rat_of_nat j * ?e * d \<le> of_nat N * ?e * d" using j assms(1) by (intro mult_right_mono) simp_all
    moreover have "of_nat N - 1 + 4 / 10 ^ 7 \<le> d" using assms(3) N(1) by simp
    ultimately have "rat_of_nat j + rat_of_nat j * ?e * d < d" using j small by linarith
    then have "(rat_of_nat j + rat_of_nat j * ?e * d) / d < 1" using assms(1) by (simp add: divide_less_eq)
    then show ?thesis using assms(1) by (simp add: add_divide_distrib)
  qed
  have under: "bar_after ?fill j < 1" if "j < N" for j
    using bar_after_error [OF assms(1,2) below [OF that]] below [OF that] by linarith
  have full: "1 \<le> bar_after ?fill N"
  proof -
    obtain M where M: "N = Suc M" using N(2) by (cases N) auto
    let ?b = "bar_after ?fill M"
    note fill = fill_of_bounds [OF assms(1,2)]
    note step = bar_step_error [OF bar_after_nonneg [OF fill(2)] bar_after_le_1 fill(2,3), of M]
    have "\<bar>?b - of_nat M / d\<bar> \<le> of_nat M * ?e"
      using bar_after_error [OF assms(1,2) below] M by simp
    moreover have "of_nat N / d = of_nat M / d + 1 / d" "of_nat N * ?e = of_nat M * ?e + ?e"
      by (simp_all add: M add_divide_distrib algebra_simps)
    ultimately have "of_nat N / d - of_nat N * ?e \<le> add64 ?b ?fill"
      using step fill(1) eps_sum by linarith
    moreover have "1 \<le> of_nat N / d - of_nat N * ?e"
    proof -
      have "d + of_nat N * ?e * d \<le> of_nat N" using small assms(4) N(1) by linarith
      then have "1 \<le> (of_nat N - of_nat N * ?e * d) / d" using assms(1) by (simp add: le_divide_eq)
      then show ?thesis using assms(1) by (simp add: diff_divide_distrib)
    qed
    ultimately show ?thesis by (simp add: M)
  qed
  show ?thesis using fill_loop_after [of N ?fill 0] under full by (simp add: N_def)
qed

text \<open>The bar of any denominator up to 4096 fills within \<open>2\<^sup>1\<^sup>4\<close> Perfects.\<close>

lemma bar_fills:
  assumes "0 < d" "d \<le> 4096"
  shows "\<exists>n. fill_loop (div64 1 d) 0 0 = Some n \<and> 1 \<le> n \<and> n \<le> 2 ^ 14"
proof -
  let ?fill = "div64 1 d"
  have "1 / 4096 \<le> 1 / d" using assms by (simp add: frac_le)
  then have "r64 (1 / 2 ^ 12) \<le> ?fill" unfolding div64_def by (intro r64_mono) simp
  then have fill: "1 / 4096 \<le> ?fill" using r64_dyadic [of 1 12] by simp
  have grow: "of_nat j / 2 ^ 13 \<le> bar_after ?fill j \<or> 1 \<le> bar_after ?fill j" for j
  proof (induction j)
    case (Suc j)
    show ?case
    proof (cases "1 \<le> bar_after ?fill (Suc j)")
      case False
      then have lt: "add64 (bar_after ?fill j) ?fill < 1" by simp
      have b: "0 \<le> bar_after ?fill j" using bar_after_nonneg fill by simp
      have "bar_after ?fill j < 1"
      proof (rule ccontr)
        assume "\<not> bar_after ?fill j < 1"
        then have "r64 1 \<le> add64 (bar_after ?fill j) ?fill" unfolding add64_def using fill by (intro r64_mono) simp
        then show False using lt r64_of_int [of 1] by simp
      qed
      then have IH: "of_nat j / 2 ^ 13 \<le> bar_after ?fill j" using Suc by simp
      have "?fill \<le> 1"
      proof (rule ccontr)
        assume "\<not> ?fill \<le> 1"
        then have "r64 1 \<le> add64 (bar_after ?fill j) ?fill" unfolding add64_def using b by (intro r64_mono) simp
        then show False using lt r64_of_int [of 1] by simp
      qed
      from bar_step_error [OF b bar_after_le_1 _ this] fill
      have "bar_after ?fill j + ?fill - 2 powi (- 52) \<le> add64 (bar_after ?fill j) ?fill" by linarith
      moreover have "(2 powi (- 52) :: rat) \<le> 1 / 2 ^ 13" by simp
      moreover have "rat_of_nat (Suc j) / 2 ^ 13 = of_nat j / 2 ^ 13 + 1 / 2 ^ 13" by (simp add: add_divide_distrib)
      moreover have "(1 / 4096 :: rat) = 1 / 2 ^ 13 + 1 / 2 ^ 13" by simp
      ultimately have "of_nat (Suc j) / 2 ^ 13 \<le> add64 (bar_after ?fill j) ?fill" using IH fill by linarith
      then show ?thesis using lt by simp
    qed simp
  qed simp
  have ex: "1 \<le> bar_after ?fill (2 ^ 14)" using grow [of "2 ^ 14"] by (rule disjE) simp_all
  define n where "n = (LEAST n. 1 \<le> bar_after ?fill n)"
  have "1 \<le> bar_after ?fill n" unfolding n_def by (rule LeastI) (rule ex)
  moreover have "\<forall>i < n. bar_after ?fill i < 1" using not_less_Least [of _ "\<lambda>n. 1 \<le> bar_after ?fill n"]
    unfolding n_def [symmetric] by (auto simp: not_le)
  moreover have "n \<le> 2 ^ 14" unfolding n_def by (rule Least_le) (rule ex)
  moreover have "1 \<le> n" using \<open>1 \<le> bar_after ?fill n\<close> by (cases n) auto
  ultimately show ?thesis using fill_loop_after [of n ?fill 0] by auto
qed
lemma fill_count_small:
  assumes "0 < d" "d \<le> 1"
  shows "fill_loop (div64 1 d) 0 0 = Some 1"
proof -
  have "r64 1 \<le> div64 1 d" unfolding div64_def using assms by (intro r64_mono) simp
  then have "1 \<le> div64 1 d" using r64_of_int [of 1] by simp
  then have "1 \<le> bar_after (div64 1 d) 1" by (simp add: add64_def div64_def)
  then show ?thesis using fill_loop_after [of 1 "div64 1 d" 0] by simp
qed

lemma double_exact:
  assumes "is_f64 d"
  shows "mul64 2 d = 2 * d"
proof -
  obtain m e where d: "d = of_int m * 2 powi e" "\<bar>m\<bar> \<le> 2 ^ nat 53" "- 1074 \<le> e"
    using assms unfolding is_f64_repr representable_def by blast
  have "2 * d = of_int m * 2 powi (e + 1)" by (simp add: d(1) power_int_add)
  moreover have "- 1074 \<le> e + 1" using d(3) by simp
  ultimately have "is_f64 (2 * d)" unfolding is_f64_repr representable_def using d(2) by blast
  then show ?thesis by (simp add: mul64_def is_f64_def)
qed

lemma rne_nearest: "\<bar>of_int (rne x) - x\<bar> \<le> \<bar>of_int n - x\<bar>"
proof (cases "n = rne x")
  case False
  then have "1 \<le> \<bar>rat_of_int n - of_int (rne x)\<bar>"
    using of_int_le_iff [of 1 "\<bar>n - rne x\<bar>", where 'a = rat] by simp
  then show ?thesis using rne_error [of x] by linarith
qed simp

text \<open>A denominator the code does not call near a half-note is well away from every one.\<close>

lemma far_from_halves:
  assumes "is_f64 d" "\<not> near_half_note d"
  shows "9 / 10 ^ 7 \<le> \<bar>of_int n - 2 * d\<bar>"
proof (rule ccontr)
  let ?y = "2 * d - of_int (rne (2 * d))"
  assume "\<not> 9 / 10 ^ 7 \<le> \<bar>of_int n - 2 * d\<bar>"
  then have y: "?y \<le> 9 / 10 ^ 7" "- ?y \<le> 9 / 10 ^ 7" using rne_nearest [of "2 * d" n] by linarith+
  have "\<bar>r64 ?y\<bar> \<le> r64 (9 / 10 ^ 7)" using r64_mono [OF y(1)] r64_mono [OF y(2)] by (simp only: r64_uminus abs_le_iff)
  also have "\<dots> < r64 (1 / 1000000)" by code_simp
  finally show False
    using assms(2) by (simp add: near_half_note_def double_exact [OF assms(1)] sub64_def)
qed

lemma ceiling_of_halves: "\<lceil>of_int \<lceil>2 * d\<rceil> / (2 :: rat)\<rceil> = \<lceil>d\<rceil>" for d :: rat
proof (rule ceiling_unique [symmetric, OF _ _, THEN sym])
  have h: "2 * d \<le> of_int \<lceil>2 * d\<rceil>" "of_int \<lceil>2 * d\<rceil> < 2 * d + 1" by linarith+
  let ?c = "\<lceil>d\<rceil>"
  have c: "d \<le> of_int ?c" "of_int ?c < d + 1" by linarith+
  have "rat_of_int \<lceil>2 * d\<rceil> \<le> of_int (2 * ?c)"
    using c by (simp only: of_int_le_iff) (simp add: ceiling_le_iff)
  then show "of_int \<lceil>2 * d\<rceil> / (2 :: rat) \<le> of_int ?c" by simp
  show "of_int ?c - 1 < of_int \<lceil>2 * d\<rceil> / (2 :: rat)" using h c by linarith
qed

text \<open>C29: for every fill denominator up to 4096 the threshold of \<open>fever_fill_thresholds\<close> is a positive
  whole number of half-notes, and rounded up to whole Perfects it is the number of Perfects after
  which the game's own binary64 bar reads full: the denominators on which the bar's rounding
  disagrees with the count are exactly those the code walks.\<close>

theorem threshold_counts_game_bar:
  assumes "is_f64 d" "2 powi (- 20) \<le> d" "d \<le> 4096"
  shows "\<exists>threshold n h. fill_threshold d = Some (Inr threshold) \<and> perfects_to_fill d = Some (Inr n)
    \<and> \<lceil>threshold\<rceil> = int n \<and> half_notes threshold h"
proof -
  have pos: "0 < d" using assms(2) powi_2_pos [of "- 20"] by linarith
  let ?h = "\<lceil>2 * d\<rceil>"
  have h: "1 \<le> ?h" "?h \<le> 8192" using pos assms(3) by (simp, simp add: ceiling_le_iff)
  have base: "div64 (of_int ?h) 2 = of_int ?h / 2"
    using r64_dyadic [of ?h 1] h by (simp add: div64_def)
  show ?thesis
  proof (cases "near_half_note d")
    case False
    have thr: "fill_threshold d = Some (Inr (of_int ?h / 2))"
      using False by (simp add: fill_threshold_def Let_def double_exact [OF assms(1)] base)
    have count: "fill_loop (div64 1 d) 0 0 = Some (nat \<lceil>d\<rceil>)"
    proof (cases "d \<le> 1")
      case True
      then have "\<lceil>d\<rceil> = 1" using pos by (simp add: ceiling_eq_iff)
      then show ?thesis using fill_count_small [OF pos True] by simp
    next
      case big: False
      have c: "d \<le> of_int \<lceil>d\<rceil>" "of_int \<lceil>d\<rceil> < d + 1" by linarith+
      have "9 / 10 ^ 7 \<le> \<bar>of_int (2 * \<lceil>d\<rceil>) - 2 * d\<bar>" "9 / 10 ^ 7 \<le> \<bar>of_int (2 * (\<lceil>d\<rceil> - 1)) - 2 * d\<bar>"
        by (rule far_from_halves [OF assms(1) False])+
      then have "of_int (\<lceil>d\<rceil> - 1) + 4 / 10 ^ 7 \<le> d" "d + 4 / 10 ^ 7 \<le> of_int \<lceil>d\<rceil>" using c by auto
      then show ?thesis using fill_count_far big assms(3) by simp
    qed
    have "0 < \<lceil>d\<rceil>" using pos by simp
    then have "\<lceil>rat_of_int ?h / 2\<rceil> = int (nat \<lceil>d\<rceil>)" by (simp add: ceiling_of_halves)
    moreover have "half_notes (of_int ?h / 2) ?h" using h by (simp add: half_notes_def)
    moreover have "perfects_to_fill d = Some (Inr (nat \<lceil>d\<rceil>))"
      using count pos by (simp add: perfects_to_fill_def)
    ultimately show ?thesis using thr by blast
  next
    case True
    obtain n where n: "fill_loop (div64 1 d) 0 0 = Some n" "1 \<le> n" "n \<le> 2 ^ 14"
      using bar_fills [OF pos assms(3)] by blast
    have "rat_of_nat n - 1 / 2 = of_int (2 * int n - 1) / 2 ^ 1" by (simp add: field_simps)
    moreover have "r64 (of_int (2 * int n - 1) / 2 ^ 1) = of_int (2 * int n - 1) / 2 ^ 1"
      using n by (intro r64_dyadic) auto
    ultimately have "sub64 (of_nat n) (1 / 2) = of_int (2 * int n - 1) / 2 ^ 1" by (simp only: sub64_def)
    then have half: "sub64 (of_nat n) (1 / 2) = of_int (2 * int n - 1) / 2" by simp
    let ?k = "min (max ?h (2 * int n - 1)) (2 * int n)"
    let ?thr = "min (max (of_int ?h / 2) (of_int (2 * int n - 1) / 2)) (of_nat n) :: rat"
    have thr: "fill_threshold d = Some (Inr ?thr)"
      using True n(1) pos unfolding fill_threshold_def Let_def double_exact [OF assms(1)] base
      by (simp add: perfects_to_fill_def half)
    have k: "?thr = of_int ?k / 2"
      by (simp add: min_def max_def)
    have "?k = 2 * int n - 1 \<or> ?k = 2 * int n" by linarith
    then have "\<lceil>?thr\<rceil> = int n" unfolding k by (auto simp: ceiling_eq_iff)
    moreover have "half_notes ?thr ?k" unfolding half_notes_def k using n(2,3) h by auto
    moreover have "perfects_to_fill d = Some (Inr n)" using n(1) pos by (simp add: perfects_to_fill_def)
    ultimately show ?thesis using thr by blast
  qed
qed

fun fills_in :: "f64 \<Rightarrow> nat \<Rightarrow> f64 \<Rightarrow> bool" where
  "fills_in fill 0 b \<longleftrightarrow> 1 \<le> b"
| "fills_in fill (Suc n) b \<longleftrightarrow> b < 1 \<and> fills_in fill n (min (add64 b fill) 1)"

lemma fill_loop_fills_in: "fills_in fill n b \<Longrightarrow> fill_loop fill b k = Some (k + n)"
  by (induction n arbitrary: b k) (subst fill_loop.simps, simp)+

text \<open>The smallest denominator on which the game's bar disagrees with the count: six Perfects leave the bar
  at 0.9999999999999999, and fever starts on the seventh (the code's documentation names 28).\<close>

lemma perfects_to_fill_6: "perfects_to_fill 6 = Some (Inr 7)"
proof -
  have "fills_in (div64 1 6) 7 0" by code_simp
  then show ?thesis by (simp add: perfects_to_fill_def fill_loop_fills_in)
qed

lemma threshold_counts_game_bar_witness:
  "\<exists>threshold. fill_threshold 6 = Some (Inr threshold) \<and> \<lceil>threshold\<rceil> = 7"
proof -
  have "is_f64 6" using is_f64_of_int [of 6] by simp
  from threshold_counts_game_bar [OF this] perfects_to_fill_6 show ?thesis by auto
qed

lemma perfect_candidates_inside_window_witness:
  "perfect_candidates (precise_envelopes [1 / 2, 2] [1, 3]) ! 1 \<le> hard_high 2 80"
proof -
  have "w_perfect_high (judgment_windows_ms [1, 3] ! 1) = 80" using windows_nth [of 1 "[1, 3]"] by simp
  then show ?thesis using perfect_candidates_inside_window [of "[1, 3]" "[1 / 2, 2]" 1] by simp
qed

lemma envelopes_sorted_witness: "sorted (exit_ceiling (precise_envelopes [1 / 2, 2] [3, 1]))"
  using envelopes_sorted [of "[3, 1]" "[1 / 2, 2]"] by simp

end
