(* ===== verification/ActivationWitness.thy ===== *)
theory ActivationWitness
  imports Timing Sorting
begin

text \<open>
  trace/activation_witness.py: whether a play can hit the notes before a fever activation, each inside
  its label's windows and in chart order on its lane, by the time of the activation's hit. Infinite
  bounds are absent values: no floor, a band that is empty, a hit that does not exist.
\<close>

section \<open>Label intervals\<close>

text \<open>A Perfect has one band, a Great its early and its late one.\<close>

record label_hit_intervals =
  label_great :: "bool list"
  primary_low :: "f32 list"
  primary_high :: "f32 list"
  secondary_band :: "(f32 \<times> f32) option list"

definition offsets_ms :: "int list \<Rightarrow> bool list \<Rightarrow> int \<Rightarrow> int \<Rightarrow> int list" where
  "offsets_ms chart_ms is_tail tap_ms tail_ms =
     map2 (\<lambda>ms tail. ms + (if tail then tail_ms else tap_ms)) chart_ms is_tail"

definition select :: "bool list \<Rightarrow> 'a list \<Rightarrow> 'a list \<Rightarrow> 'a list" where
  "select flags xs ys = map (\<lambda>(b, x, y). if b then x else y) (zip flags (zip xs ys))"

text \<open>\<open>np.rint(seconds * 1000)\<close> in binary64.\<close>

definition rint_ms :: "f32 \<Rightarrow> int" where
  "rint_ms seconds = rne (mul64 seconds 1000)"

definition exact_label_hit_intervals ::
    "bool list \<Rightarrow> f32 list \<Rightarrow> f32 list \<Rightarrow> f32 list \<Rightarrow> f32 list \<Rightarrow> f32 list \<Rightarrow> label_hit_intervals res" where
  "exact_label_hit_intervals labels chart_ts p_floor p_high g_floor g_high =
     (let n = length labels
      in if \<not> (\<forall>xs \<in> set [chart_ts, p_floor, p_high, g_floor, g_high]. length xs = n) then Inl ValueError
      else let chart_ms = map quantize_to_int_ms chart_ts
      in if p_floor = chart_ts \<and> p_high = chart_ts \<and> g_floor = chart_ts \<and> g_high = chart_ts
         then Inr \<lparr>label_great = labels, primary_low = chart_ts, primary_high = chart_ts,
                   secondary_band = replicate n None\<rparr>
      else let upper_ms = map2 (\<lambda>high ms. rint_ms high - ms) p_high chart_ms;
               tap = judgment_bounds_of 1 0; tail = judgment_bounds_of HELD_TAIL_WINDOW_SCALE 0;
               tap_latest = latest (perfect_band tap); tail_latest = latest (perfect_band tail)
      in if \<not> (\<forall>u \<in> set upper_ms. u = tap_latest \<or> u = tail_latest) then Inl ValueError
      else let is_tail = map (\<lambda>u. u = tail_latest) upper_ms;
               offset = (\<lambda>f. offsets_ms chart_ms is_tail (f tap) (f tail));
               raw_perfect_low = map ms_to_seconds (offset (earliest \<circ> perfect_band));
               raw_great_low = map ms_to_seconds (offset (earliest \<circ> early_great_band))
      in if map rint_ms g_high \<noteq> offset (latest \<circ> late_great_band) then Inl ValueError
      else if p_floor \<noteq> accumulate max raw_perfect_low then Inl ValueError
      else if g_floor \<noteq> accumulate max raw_great_low then Inl ValueError
      else let great_early_high = map ms_to_seconds (offset (latest \<circ> early_great_band));
               great_late_low = map ms_to_seconds (offset (earliest \<circ> late_great_band))
      in Inr \<lparr>label_great = labels,
              primary_low = select labels raw_great_low raw_perfect_low,
              primary_high = select labels great_early_high p_high,
              secondary_band = select labels (map Some (zip great_late_low g_high)) (replicate n None)\<rparr>)"

section \<open>The walk to an activation\<close>

type_synonym hit_bands = "f32 list \<times> f32 list \<times> (f32 \<times> f32) option list"

definition above_floor :: "rat option \<Rightarrow> rat \<Rightarrow> bool" where
  "above_floor lowest x \<longleftrightarrow> (case lowest of None \<Rightarrow> True | Some f \<Rightarrow> f \<le> x)"

definition from_floor :: "rat option \<Rightarrow> rat \<Rightarrow> rat" where
  "from_floor lowest low = (case lowest of None \<Rightarrow> low | Some f \<Rightarrow> max f low)"

definition earliest_hit :: "hit_bands \<Rightarrow> nat \<Rightarrow> rat option \<Rightarrow> rat option" where
  "earliest_hit bands note lowest =
     (case bands of (plow, phigh, secondary) \<Rightarrow>
      let best = (if above_floor lowest (phigh ! note) \<and> plow ! note \<le> phigh ! note
                  then Some (from_floor lowest (plow ! note)) else None)
      in case secondary ! note of
           None \<Rightarrow> best
         | Some (low, high) \<Rightarrow>
             if above_floor lowest high \<and> low \<le> high
             then Some (case best of None \<Rightarrow> from_floor lowest low | Some b \<Rightarrow> min b (from_floor lowest low))
             else best)"

text \<open>The head in chart order, then each lane by itself; None once a note cannot be hit in time.\<close>

fun head_walk :: "hit_bands \<Rightarrow> rat \<Rightarrow> nat list \<Rightarrow> rat option \<Rightarrow> rat option option" where
  "head_walk bands hit [] clock = Some clock"
| "head_walk bands hit (note # rest) clock =
     (case earliest_hit bands note clock of
        None \<Rightarrow> None
      | Some h \<Rightarrow> if h > hit then None else head_walk bands hit rest (Some h))"

fun body_walk :: "hit_bands \<Rightarrow> nat list \<Rightarrow> rat \<Rightarrow> nat list \<Rightarrow> rat option list \<Rightarrow> rat list option" where
  "body_walk bands ranks hit [] lane_clock = Some []"
| "body_walk bands ranks hit (note # rest) lane_clock =
     (let rank = ranks ! note
      in case earliest_hit bands note (lane_clock ! rank) of
           None \<Rightarrow> None
         | Some h \<Rightarrow> if h > hit then None
                    else map_option ((#) h) (body_walk bands ranks hit rest (lane_clock[rank := Some h])))"

definition opens_by :: "hit_bands \<Rightarrow> rat \<Rightarrow> nat \<Rightarrow> bool" where
  "opens_by bands hit note \<longleftrightarrow> (case bands of (plow, phigh, secondary) \<Rightarrow>
     plow ! note \<le> phigh ! note \<and> plow ! note \<le> hit
     \<or> (case secondary ! note of None \<Rightarrow> False | Some (low, high) \<Rightarrow> low \<le> high \<and> low \<le> hit))"

definition closes_after :: "hit_bands \<Rightarrow> rat \<Rightarrow> nat \<Rightarrow> bool" where
  "closes_after bands hit note \<longleftrightarrow> (case bands of (plow, phigh, secondary) \<Rightarrow>
     plow ! note \<le> phigh ! note \<and> phigh ! note \<ge> hit
     \<or> (case secondary ! note of None \<Rightarrow> False | Some (low, high) \<Rightarrow> low \<le> high \<and> high \<ge> hit))"

definition prefix_order :: "hit_bands \<Rightarrow> nat list \<Rightarrow> nat \<Rightarrow> nat \<Rightarrow> rat \<Rightarrow> rat option \<Rightarrow> nat list option" where
  "prefix_order bands ranks activation head_end hit first_clock =
     (if \<not> (\<forall>note < length (fst bands). (note < activation \<longrightarrow> opens_by bands hit note)
            \<and> (note > activation \<longrightarrow> closes_after bands hit note)) then None
      else case head_walk bands hit [0..<head_end] first_clock of
        None \<Rightarrow> None
      | Some clock \<Rightarrow>
        (case body_walk bands ranks hit [head_end..<activation] (replicate (Max (set ranks) + 1) clock) of
           None \<Rightarrow> None
         | Some hits \<Rightarrow>
             let by_lane = argsort (take (activation - head_end) (drop head_end ranks))
             in Some ([0..<head_end]
                  @ map (\<lambda>k. head_end + by_lane ! k) (argsort (map (\<lambda>p. hits ! p) by_lane)))))"

section \<open>The witness\<close>

record chart_prefix_witness =
  prefix_notes :: "nat list"
  lane_counts :: "(int \<times> nat) list"

text \<open>\<open>np.unique\<close> with its first indices and its inverse.\<close>

definition first_index :: "'a \<Rightarrow> 'a list \<Rightarrow> nat" where
  "first_index x xs = length (takeWhile (\<lambda>y. y \<noteq> x) xs)"

definition unique_lanes :: "int list \<Rightarrow> int list" where
  "unique_lanes xs = sorted_list_of_set (set xs)"

definition opens_after :: "label_hit_intervals \<Rightarrow> rat list" where
  "opens_after labels =
     rev (accumulate min (rev (map2 (\<lambda>low sec. case sec of None \<Rightarrow> low | Some (low2, _) \<Rightarrow> min low low2)
       (primary_low labels) (secondary_band labels))))"

definition in_bands :: "hit_bands \<Rightarrow> nat \<Rightarrow> rat \<Rightarrow> bool" where
  "in_bands bands note x \<longleftrightarrow> (case bands of (plow, phigh, secondary) \<Rightarrow>
     plow ! note \<le> x \<and> x \<le> phigh ! note
     \<or> (case secondary ! note of None \<Rightarrow> False | Some (low, high) \<Rightarrow> low \<le> x \<and> x \<le> high))"

text \<open>The dense lane ranks of a section.\<close>

definition section_ranks :: "int list \<Rightarrow> nat list" where
  "section_ranks ls =
     (let section_lanes = unique_lanes ls;
          lanes_in_order = argsort (map (\<lambda>l. first_index l ls) section_lanes);
          rank_of_lane = map (\<lambda>k. first_index k lanes_in_order) [0..<length lanes_in_order]
      in map (\<lambda>k. rank_of_lane ! k) (map (\<lambda>l. first_index l section_lanes) ls))"

text \<open>The notes the walk reads: the head stays whole, and past the end every note opens after the hit.\<close>

definition slice_end :: "label_hit_intervals \<Rightarrow> nat \<Rightarrow> rat \<Rightarrow> nat" where
  "slice_end labels a hit = max (a + 1) (max (min (length (label_great labels)) 100)
     (searchsorted_right (opens_after labels) hit))"

definition slice_bands :: "label_hit_intervals \<Rightarrow> nat \<Rightarrow> nat \<Rightarrow> hit_bands" where
  "slice_bands labels start stop =
     (take (stop - start) (drop start (primary_low labels)), take (stop - start) (drop start (primary_high labels)),
      take (stop - start) (drop start (secondary_band labels)))"

definition reaches_full :: "label_hit_intervals \<Rightarrow> nat \<Rightarrow> int \<Rightarrow> f64 \<Rightarrow> bool" where
  "reaches_full labels a fill denom \<longleftrightarrow> mul64 (1 / 2) (of_int fill) < denom
     \<and> denom \<le> mul64 (1 / 2) (of_int (fill + (if label_great labels ! a then 1 else 2)))"

definition chart_prefix_witness_of ::
    "label_hit_intervals \<Rightarrow> int list \<Rightarrow> nat \<Rightarrow> f64 \<Rightarrow> f64 \<Rightarrow> int \<Rightarrow> nat \<Rightarrow> f64 option \<Rightarrow> chart_prefix_witness option" where
  "chart_prefix_witness_of labels note_lanes a activation_hit denom preactivation_fill start predecessor_hit =
     (if \<not> reaches_full labels a preactivation_fill denom then None
      else let hit = r32 activation_hit
      in if \<not> above_floor predecessor_hit hit then None
      else let stop = slice_end labels a hit; bands = slice_bands labels start stop; i = a - start
      in if \<not> in_bands bands i hit then None
      else let ls = drop start note_lanes;
               section_lanes = unique_lanes ls;
               lane_of_note = map (\<lambda>l. first_index l section_lanes) ls;
               lanes_in_order = argsort (map (\<lambda>l. first_index l ls) section_lanes)
      in case prefix_order bands (take (stop - start) (section_ranks ls)) i (min a 100 - start) hit predecessor_hit of
           None \<Rightarrow> None
         | Some order \<Rightarrow>
             Some \<lparr>prefix_notes = map (\<lambda>k. k + start) order,
                   lane_counts = map (\<lambda>k. (section_lanes ! k, count_list (take i lane_of_note) k)) lanes_in_order\<rparr>)"

section \<open>The greedy walk finds a play whenever there is one\<close>

lemma above_floor_simps [simp]: "above_floor None x" "above_floor (Some f) x \<longleftrightarrow> f \<le> x"
  by (simp_all add: above_floor_def)

lemma from_floor_simps [simp]: "from_floor None low = low" "from_floor (Some f) low = max f low"
  by (simp_all add: from_floor_def)

lemma above_floor_mono: "above_floor c x \<Longrightarrow> x \<le> y \<Longrightarrow> above_floor c y"
  by (cases c) simp_all

lemma earliest_hit_Some:
  assumes "earliest_hit bands note c = Some h"
  shows "in_bands bands note h" "above_floor c h"
  using assms
  by (cases c; cases "snd (snd bands) ! note";
      auto simp: earliest_hit_def in_bands_def Let_def min_def max_def split: prod.splits if_splits)+

lemma earliest_hit_least:
  assumes "in_bands bands note x" "above_floor c x"
  obtains h where "earliest_hit bands note c = Some h" "h \<le> x"
proof -
  have "\<exists>h. earliest_hit bands note c = Some h \<and> h \<le> x"
    using assms
    by (cases c; cases "snd (snd bands) ! note";
        force simp: earliest_hit_def in_bands_def Let_def min_def max_def split: prod.splits)
  then show thesis using that by blast
qed

lemma head_walk_sound:
  "head_walk bands hit ns c = Some c' \<Longrightarrow> \<exists>xs. list_all2 (in_bands bands) ns xs \<and> sorted xs
     \<and> (\<forall>x \<in> set xs. x \<le> hit \<and> above_floor c x) \<and> c' = (if ns = [] then c else Some (last xs))"
proof (induction ns arbitrary: c)
  case (Cons m ns)
  obtain h where h: "earliest_hit bands m c = Some h" "h \<le> hit" "head_walk bands hit ns (Some h) = Some c'"
    using Cons.prems by (auto split: option.splits if_splits)
  obtain xs where xs: "list_all2 (in_bands bands) ns xs" "sorted xs"
    "\<forall>x \<in> set xs. x \<le> hit \<and> above_floor (Some h) x" "c' = (if ns = [] then Some h else Some (last xs))"
    using Cons.IH [OF h(3)] by auto
  have "above_floor c x" if "x \<in> set xs" for x
    using xs(3) that above_floor_mono [OF earliest_hit_Some(2) [OF h(1)]] by simp
  moreover have "ns = [] \<longleftrightarrow> xs = []" using xs(1) by auto
  ultimately show ?case using xs h(2) earliest_hit_Some [OF h(1)] by (intro exI [of _ "h # xs"]) auto
qed simp

lemma head_walk_complete:
  "list_all2 (in_bands bands) ns xs \<Longrightarrow> sorted xs \<Longrightarrow> \<forall>x \<in> set xs. x \<le> hit \<and> above_floor c x \<Longrightarrow>
     \<exists>c'. head_walk bands hit ns c = Some c' \<and> (\<forall>y. above_floor c y \<and> (\<forall>x \<in> set xs. x \<le> y) \<longrightarrow> above_floor c' y)"
proof (induction ns arbitrary: c xs)
  case (Cons m ns)
  obtain x xs' where xs: "xs = x # xs'" "in_bands bands m x" "list_all2 (in_bands bands) ns xs'"
    using Cons.prems(1) by (auto simp: list_all2_Cons1)
  obtain h where h: "earliest_hit bands m c = Some h" "h \<le> x"
    using earliest_hit_least [OF xs(2), of c] Cons.prems(3) by (auto simp: xs(1))
  have "\<forall>y \<in> set xs'. y \<le> hit \<and> above_floor (Some h) y" "sorted xs'"
    using Cons.prems(2,3) h(2) by (auto simp: xs(1))
  from Cons.IH [OF xs(3) this(2) this(1)] obtain c' where c': "head_walk bands hit ns (Some h) = Some c'"
    "\<forall>y. above_floor (Some h) y \<and> (\<forall>x \<in> set xs'. x \<le> y) \<longrightarrow> above_floor c' y" by blast
  have "h \<le> hit" using h(2) Cons.prems(3) by (force simp: xs(1))
  then show ?case using h c' by (auto simp: xs(1))
qed simp

lemma body_walk_sound:
  "body_walk bands ranks hit ns clocks = Some xs \<Longrightarrow> \<forall>k \<in> set ns. ranks ! k < length clocks \<Longrightarrow>
     list_all2 (in_bands bands) ns xs \<and> (\<forall>x \<in> set xs. x \<le> hit)
     \<and> (\<forall>p < length ns. above_floor (clocks ! (ranks ! (ns ! p))) (xs ! p))
     \<and> (\<forall>q < length ns. \<forall>p < q. ranks ! (ns ! p) = ranks ! (ns ! q) \<longrightarrow> xs ! p \<le> xs ! q)"
proof (induction ns arbitrary: clocks xs)
  case (Cons m ns)
  let ?r = "ranks ! m"
  obtain h ys where h: "earliest_hit bands m (clocks ! ?r) = Some h" "h \<le> hit"
    "body_walk bands ranks hit ns (clocks[?r := Some h]) = Some ys" "xs = h # ys"
    using Cons.prems(1) by (auto simp: Let_def split: option.splits if_splits)
  note e = earliest_hit_Some [OF h(1)]
  have IH: "list_all2 (in_bands bands) ns ys" "\<forall>x \<in> set ys. x \<le> hit"
    "\<forall>p < length ns. above_floor ((clocks[?r := Some h]) ! (ranks ! (ns ! p))) (ys ! p)"
    "\<forall>q < length ns. \<forall>p < q. ranks ! (ns ! p) = ranks ! (ns ! q) \<longrightarrow> ys ! p \<le> ys ! q"
    using Cons.IH [OF h(3)] Cons.prems(2) by auto
  have r: "?r < length clocks" using Cons.prems(2) by simp
  have same: "h \<le> ys ! p" if "p < length ns" "ranks ! (ns ! p) = ?r" for p
    using IH(3) that r by force
  have floor: "above_floor (clocks ! (ranks ! (ns ! p))) (ys ! p)" if "p < length ns" for p
  proof (cases "ranks ! (ns ! p) = ?r")
    case True
    then show ?thesis using above_floor_mono [OF e(2) same [OF that True]] by simp
  next
    case False
    then show ?thesis using IH(3) that by (metis nth_list_update_neq)
  qed
  have "above_floor (clocks ! (ranks ! ((m # ns) ! p))) (xs ! p)" if "p < length (m # ns)" for p
    using that floor e(2) by (cases p) (simp_all add: h(4))
  moreover have "xs ! p \<le> xs ! q"
    if "q < length (m # ns)" "p < q" "ranks ! ((m # ns) ! p) = ranks ! ((m # ns) ! q)" for p q
    using that same IH(4) by (cases q; cases p) (auto simp: h(4))
  ultimately show ?case using IH(1,2) e(1) h(2) by (simp add: h(4))
qed simp

lemma body_walk_complete:
  "list_all2 (in_bands bands) ns xs \<Longrightarrow> \<forall>x \<in> set xs. x \<le> hit \<Longrightarrow> \<forall>k \<in> set ns. ranks ! k < length clocks \<Longrightarrow>
   \<forall>p < length ns. above_floor (clocks ! (ranks ! (ns ! p))) (xs ! p) \<Longrightarrow>
   \<forall>q < length ns. \<forall>p < q. ranks ! (ns ! p) = ranks ! (ns ! q) \<longrightarrow> xs ! p \<le> xs ! q \<Longrightarrow>
   body_walk bands ranks hit ns clocks \<noteq> None"
proof (induction ns arbitrary: clocks xs)
  case (Cons m ns)
  let ?r = "ranks ! m"
  obtain x ys where xs: "xs = x # ys" "in_bands bands m x" "list_all2 (in_bands bands) ns ys"
    using Cons.prems(1) by (auto simp: list_all2_Cons1)
  have "above_floor (clocks ! ?r) x" using Cons.prems(4) by (force simp: xs(1))
  then obtain h where h: "earliest_hit bands m (clocks ! ?r) = Some h" "h \<le> x"
    using earliest_hit_least [OF xs(2)] by blast
  have later: "x \<le> ys ! p" if "p < length ns" "ranks ! (ns ! p) = ?r" for p
    using Cons.prems(5) [rule_format, of "Suc p" 0] that by (simp add: xs(1))
  have "above_floor ((clocks[?r := Some h]) ! (ranks ! (ns ! p))) (ys ! p)" if "p < length ns" for p
  proof (cases "ranks ! (ns ! p) = ?r")
    case True
    then show ?thesis using later [OF that True] h(2) Cons.prems(3) by simp
  next
    case False
    then show ?thesis using Cons.prems(4) [rule_format, of "Suc p"] that by (simp add: xs(1))
  qed
  moreover have "\<forall>q < length ns. \<forall>p < q. ranks ! (ns ! p) = ranks ! (ns ! q) \<longrightarrow> ys ! p \<le> ys ! q"
  proof (intro allI impI)
    fix q p assume "q < length ns" "p < q" "ranks ! (ns ! p) = ranks ! (ns ! q)"
    then show "ys ! p \<le> ys ! q" using Cons.prems(5) [rule_format, of "Suc q" "Suc p"] by (simp add: xs(1))
  qed
  ultimately have "body_walk bands ranks hit ns (clocks[?r := Some h]) \<noteq> None"
    using Cons.IH [OF xs(3), of "clocks[?r := Some h]"] Cons.prems(2,3) by (simp add: xs(1))
  moreover have "h \<le> hit" using h(2) Cons.prems(2) by (simp add: xs(1))
  ultimately show ?case using h(1) by (simp add: Let_def)
qed simp

section \<open>Merging the lanes\<close>

definition legal_hits :: "hit_bands \<Rightarrow> nat list \<Rightarrow> nat \<Rightarrow> nat \<Rightarrow> rat \<Rightarrow> rat option \<Rightarrow> (nat \<Rightarrow> rat) \<Rightarrow> bool" where
  "legal_hits bands ranks activation head_end hit clock h \<longleftrightarrow>
     (\<forall>k < activation. in_bands bands k (h k) \<and> h k \<le> hit \<and> above_floor clock (h k))
     \<and> (\<forall>l < activation. \<forall>k < l. (k < head_end \<or> ranks ! k = ranks ! l) \<longrightarrow> h k \<le> h l)"

definition others_fit :: "hit_bands \<Rightarrow> nat \<Rightarrow> rat \<Rightarrow> bool" where
  "others_fit bands activation hit \<longleftrightarrow> (\<forall>k < length (fst bands).
     (k < activation \<longrightarrow> opens_by bands hit k) \<and> (k > activation \<longrightarrow> closes_after bands hit k))"

lemma in_bands_opens: "in_bands bands k x \<Longrightarrow> x \<le> hit \<Longrightarrow> opens_by bands hit k"
  by (auto simp: in_bands_def opens_by_def split: prod.splits option.splits)

lemma prefix_order_complete:
  assumes "\<forall>k < activation. ranks ! k \<le> Max (set ranks)" "head_end \<le> activation"
    and "legal_hits bands ranks activation head_end hit clock h"
    and "\<forall>k < length (fst bands). k > activation \<longrightarrow> closes_after bands hit k"
  shows "prefix_order bands ranks activation head_end hit clock \<noteq> None"
proof -
  let ?top = "Max (set ranks) + 1"
  have legal: "in_bands bands k (h k)" "h k \<le> hit" "above_floor clock (h k)" if "k < activation" for k
    using assms(3) that by (simp_all add: legal_hits_def)
  have mono: "h k \<le> h l" if "l < activation" "k < l" "k < head_end \<or> ranks ! k = ranks ! l" for k l
    using assms(3) that unfolding legal_hits_def by blast
  have fits: "others_fit bands activation hit"
    unfolding others_fit_def using assms(4) in_bands_opens [OF legal(1) legal(2)] by blast
  have "list_all2 (in_bands bands) [0..<head_end] (map h [0..<head_end])" "sorted (map h [0..<head_end])"
    "\<forall>x \<in> set (map h [0..<head_end]). x \<le> hit \<and> above_floor clock x"
    using legal mono assms(2) by (auto simp: list_all2_conv_all_nth sorted_wrt_iff_nth_less)
  from head_walk_complete [OF this] obtain c where c: "head_walk bands hit [0..<head_end] clock = Some c"
    and least: "\<And>y. above_floor clock y \<Longrightarrow> (\<forall>k < head_end. h k \<le> y) \<Longrightarrow> above_floor c y" by auto
  have body: "above_floor c (h k)" if "head_end \<le> k" "k < activation" for k
    using least legal(3) [OF that(2)] mono [OF that(2)] that(1) by (metis less_le_trans)
  have "body_walk bands ranks hit [head_end..<activation] (replicate ?top c) \<noteq> None"
  proof (rule body_walk_complete)
    show "list_all2 (in_bands bands) [head_end..<activation] (map h [head_end..<activation])"
      using legal by (auto simp: list_all2_conv_all_nth)
    show "\<forall>x \<in> set (map h [head_end..<activation]). x \<le> hit" using legal by auto
    show "\<forall>k \<in> set [head_end..<activation]. ranks ! k < length (replicate ?top c)"
      using assms(1) by (auto simp: less_Suc_eq_le)
    show "\<forall>p < length [head_end..<activation].
        above_floor (replicate ?top c ! (ranks ! ([head_end..<activation] ! p))) (map h [head_end..<activation] ! p)"
      using assms(1) body by (auto simp: less_Suc_eq_le nth_replicate simp del: replicate_Suc)
    show "\<forall>q < length [head_end..<activation]. \<forall>p < q.
        ranks ! ([head_end..<activation] ! p) = ranks ! ([head_end..<activation] ! q)
          \<longrightarrow> map h [head_end..<activation] ! p \<le> map h [head_end..<activation] ! q"
      using mono by auto
  qed
  then show ?thesis using fits c by (auto simp: prefix_order_def others_fit_def Let_def)
qed

lemma prefix_order_sound:
  assumes "prefix_order bands ranks activation head_end hit clock = Some order"
    and "\<forall>k < activation. ranks ! k \<le> Max (set ranks)" "head_end \<le> activation" "activation \<le> length ranks"
  obtains h where "legal_hits bands ranks activation head_end hit clock h"
    "\<forall>k < length (fst bands). k > activation \<longrightarrow> closes_after bands hit k"
    "distinct order" "set order = {..<activation}" "sorted (map h order)"
    "\<And>r. filter (\<lambda>k. ranks ! k = r) order = filter (\<lambda>k. ranks ! k = r) [0..<activation]"
proof -
  let ?top = "Max (set ranks) + 1" and ?body = "[head_end..<activation]"
  let ?by_lane = "argsort (take (activation - head_end) (drop head_end ranks))"
  obtain c ys where c: "head_walk bands hit [0..<head_end] clock = Some c"
    and ys: "body_walk bands ranks hit ?body (replicate ?top c) = Some ys"
    and order: "order = [0..<head_end] @ map (\<lambda>k. head_end + ?by_lane ! k) (argsort (map (\<lambda>p. ys ! p) ?by_lane))"
    and fit: "\<forall>k < length (fst bands). k > activation \<longrightarrow> closes_after bands hit k"
    using assms(1) by (auto simp: prefix_order_def Let_def split: if_splits option.splits)
  obtain xs where xs: "list_all2 (in_bands bands) [0..<head_end] xs" "sorted xs"
    "\<forall>x \<in> set xs. x \<le> hit \<and> above_floor clock x" "c = (if head_end = 0 then clock else Some (last xs))"
    using head_walk_sound [OF c] by auto
  have lx: "length xs = head_end" using list_all2_lengthD [OF xs(1)] by simp
  have "\<forall>k \<in> set ?body. ranks ! k < length (replicate ?top c)" using assms(2) by (auto simp: less_Suc_eq_le)
  note ys' = body_walk_sound [OF ys this]
  have ly: "length ys = activation - head_end" using list_all2_lengthD [of "in_bands bands" ?body ys] ys' by simp
  have y_floor: "above_floor c (ys ! p)" if "p < activation - head_end" for p
    using ys' that assms(2) by (auto simp: less_Suc_eq_le nth_replicate simp del: replicate_Suc)
  have y_clock: "above_floor clock (ys ! p) \<and> (\<forall>k < head_end. xs ! k \<le> ys ! p)" if "p < activation - head_end" for p
  proof (cases "head_end = 0")
    case True
    then show ?thesis using y_floor [OF that] xs(4) by simp
  next
    case False
    have last: "last xs \<le> ys ! p" using y_floor [OF that] xs(4) False by simp
    have "xs ! k \<le> last xs" if "k < head_end" for k
      using that lx xs(2) False by (subst last_conv_nth) (auto intro: sorted_nth_mono)
    moreover have "above_floor clock (last xs)" using xs(3) False lx by (metis last_in_set list.size(3))
    ultimately show ?thesis using last above_floor_mono by fastforce
  qed
  define h where "h = (\<lambda>k. if k < head_end then xs ! k else ys ! (k - head_end))"
  have "legal_hits bands ranks activation head_end hit clock h"
    unfolding legal_hits_def
  proof (intro conjI allI impI)
    fix k assume k: "k < activation"
    show "in_bands bands k (h k)"
      using xs(1) ys' k lx ly by (auto simp: h_def list_all2_conv_all_nth dest: spec [where x = "k - head_end"])
    show "h k \<le> hit" using xs(3) ys' k lx ly by (auto simp: h_def)
    show "above_floor clock (h k)" using xs(3) y_clock k lx by (auto simp: h_def)
  next
    fix l k assume l: "l < activation" and kl: "k < l" and same: "k < head_end \<or> ranks ! k = ranks ! l"
    consider "l < head_end" | "k < head_end" "head_end \<le> l" | "head_end \<le> k" by linarith
    then show "h k \<le> h l"
    proof cases
      case 1
      then show ?thesis using xs(2) lx kl by (simp add: h_def sorted_nth_mono)
    next
      case 2
      then show ?thesis using y_clock [of "l - head_end"] l by (simp add: h_def)
    next
      case 3
      then show ?thesis using ys' same kl l by (auto simp: h_def)
    qed
  qed
  moreover note fit
  moreover
  have body: "map (\<lambda>k. head_end + ?by_lane ! k) (argsort (map (\<lambda>p. ys ! p) ?by_lane))
      = map ((+) head_end) (sort_key (\<lambda>p. ys ! p) ?by_lane)"
    unfolding argsort_map [symmetric] by simp
  have by_lane: "?by_lane = sort_key (\<lambda>p. ranks ! (head_end + p)) [0..<activation - head_end]"
  proof -
    have len: "length (take (activation - head_end) (drop head_end ranks)) = activation - head_end"
      using assms(4) by simp
    show ?thesis unfolding argsort_def len by (rule sort_key_same) (use assms(4) in auto)
  qed
  have image: "(+) head_end ` {..<activation - head_end} = {head_end..<activation}"
    using assms(3) by (simp add: lessThan_atLeast0)
  have order': "order = [0..<head_end] @ map ((+) head_end) (sort_key (\<lambda>p. ys ! p) ?by_lane)"
    unfolding order body ..
  have lanes: "set ?by_lane = {..<activation - head_end}" "distinct ?by_lane"
    unfolding by_lane by (simp_all add: lessThan_atLeast0)
  have set: "set order = {..<activation}"
    using assms(3) by (auto simp: order' lanes image)
  have dist: "distinct order"
    by (auto simp: order' lanes distinct_map)
  moreover note dist set
  moreover have "sorted (map h order)"
  proof -
    have "map h [0..<head_end] = xs" by (rule nth_equalityI) (simp_all add: lx h_def)
    moreover have "map h (map ((+) head_end) zs) = map (\<lambda>p. ys ! p) zs" for zs by (simp add: h_def)
    moreover have "x \<le> y" if x: "x \<in> set xs" and y: "y \<in> (\<lambda>p. ys ! p) ` {..<activation - head_end}" for x y
    proof -
      obtain k where "k < head_end" "x = xs ! k" using x lx by (auto simp: in_set_conv_nth)
      then show ?thesis using y_clock y by auto
    qed
    ultimately show ?thesis using xs(2)
      by (auto simp: order' lanes sorted_append simp del: map_map)
  qed
  moreover have "filter (\<lambda>k. ranks ! k = r) order = filter (\<lambda>k. ranks ! k = r) [0..<activation]" for r
  proof -
    let ?P = "\<lambda>p. ranks ! (head_end + p) = r"
    let ?f = "filter ?P [0..<activation - head_end]"
    have same: "map (\<lambda>p. ranks ! (head_end + p)) ?f = replicate (length ?f) r"
      by (rule replicate_eqI) auto
    have "sort_key (\<lambda>p. ranks ! (head_end + p)) ?f = ?f"
      by (rule sort_key_sorted) (simp only: same sorted_replicate)
    then have lane: "filter ?P ?by_lane = ?f" by (simp add: by_lane filter_sort)
    have "sorted_wrt (\<lambda>p q. ys ! p \<le> ys ! q) ?f"
      unfolding sorted_wrt_iff_nth_less
    proof (intro allI impI)
      fix m l assume ml: "m < l" "l < length ?f"
      have "sorted_wrt (<) ?f" by (simp add: sorted_wrt_filter)
      then have "?f ! m < ?f ! l" using ml by (simp add: sorted_wrt_iff_nth_less)
      moreover have "?f ! m \<in> set ?f" "?f ! l \<in> set ?f" using ml by (simp_all only: nth_mem less_trans)
      ultimately show "ys ! (?f ! m) \<le> ys ! (?f ! l)" using ys' by auto
    qed
    then have "sort_key (\<lambda>p. ys ! p) ?f = ?f" by (intro sort_key_sorted) (simp add: sorted_wrt_map)
    then have "filter ?P (sort_key (\<lambda>p. ys ! p) ?by_lane) = ?f" by (simp add: filter_sort lane)
    then have "filter (\<lambda>k. ranks ! k = r) (map ((+) head_end) (sort_key (\<lambda>p. ys ! p) ?by_lane)) = map ((+) head_end) ?f"
      by (simp add: filter_map comp_def)
    also have "\<dots> = filter (\<lambda>k. ranks ! k = r) (map ((+) head_end) [0..<activation - head_end])"
      by (simp add: filter_map comp_def)
    also have "map ((+) head_end) [0..<activation - head_end] = ?body"
      by (rule nth_equalityI) simp_all
    finally show ?thesis
      using upt_add_eq_append [of 0 head_end "activation - head_end"] assms(3) by (simp add: order')
  qed
  ultimately show thesis using that by blast
qed

section \<open>The witness is exact\<close>

definition label_bands :: "label_hit_intervals \<Rightarrow> hit_bands" where
  "label_bands labels = (primary_low labels, primary_high labels, secondary_band labels)"

text \<open>Hits for the notes before the activation: each in its label's band, none past the activation's hit
  or before the play's last hit, the ramp's notes in chart order ahead of the rest, and each lane in
  chart order.\<close>

definition playable_prefix :: "label_hit_intervals \<Rightarrow> int list \<Rightarrow> nat \<Rightarrow> nat \<Rightarrow> rat \<Rightarrow> rat option \<Rightarrow> (nat \<Rightarrow> rat) \<Rightarrow> bool" where
  "playable_prefix labels note_lanes start a hit clock h \<longleftrightarrow>
     (\<forall>i. start \<le> i \<and> i < a \<longrightarrow> in_bands (label_bands labels) i (h i) \<and> h i \<le> hit \<and> above_floor clock (h i))
     \<and> (\<forall>i j. start \<le> i \<and> i < j \<and> j < a \<and> (i < 100 \<or> note_lanes ! i = note_lanes ! j) \<longrightarrow> h i \<le> h j)"

definition well_labelled :: "label_hit_intervals \<Rightarrow> nat \<Rightarrow> bool" where
  "well_labelled labels n \<longleftrightarrow> length (label_great labels) = n \<and> length (primary_low labels) = n
     \<and> length (primary_high labels) = n \<and> length (secondary_band labels) = n
     \<and> (\<forall>i < n. primary_low labels ! i \<le> primary_high labels ! i)"

lemma first_index_nth: "x \<in> set xs \<Longrightarrow> first_index x xs < length xs \<and> xs ! first_index x xs = x"
  by (induction xs) (auto simp: first_index_def)

lemma first_index_inj: "x \<in> set xs \<Longrightarrow> y \<in> set xs \<Longrightarrow> first_index x xs = first_index y xs \<longleftrightarrow> x = y"
  using first_index_nth by metis

lemma set_unique_lanes [simp]: "set (unique_lanes ls) = set ls" "distinct (unique_lanes ls)"
  by (simp_all add: unique_lanes_def)

lemma section_ranks_eq:
  assumes "i < length ls" "j < length ls"
  shows "section_ranks ls ! i = section_ranks ls ! j \<longleftrightarrow> ls ! i = ls ! j"
proof -
  let ?u = "unique_lanes ls" and ?o = "argsort (map (\<lambda>l. first_index l ls) (unique_lanes ls))"
  have at: "section_ranks ls ! k = first_index (first_index (ls ! k) ?u) ?o" "first_index (ls ! k) ?u \<in> set ?o"
    if "k < length ls" for k
    using that first_index_nth [of "ls ! k" ?u] by (simp_all add: section_ranks_def Let_def set_argsort)
  show ?thesis
    using at [OF assms(1)] at [OF assms(2)] first_index_inj [of "ls ! i" ?u "ls ! j"] assms
    by (simp add: first_index_inj)
qed

lemma count_list_map: "count_list (map f xs) k = length (filter (\<lambda>x. f x = k) xs)"
  by (induction xs) auto

lemma length_section_ranks [simp]: "length (section_ranks ls) = length ls"
  by (simp add: section_ranks_def Let_def)

text \<open>Every note past the slice that the walk reads opens after the hit.\<close>

lemma opens_after_later:
  assumes "well_labelled labels n" "searchsorted_right (opens_after labels) hit \<le> j" "j < n"
  shows "hit < primary_low labels ! j"
proof -
  let ?xs = "map2 (\<lambda>low sec. case sec of None \<Rightarrow> low | Some (low2, _) \<Rightarrow> min low low2) (primary_low labels) (secondary_band labels)"
  have len: "length (opens_after labels) = n" "length ?xs = n"
    using assms(1) by (simp_all add: opens_after_def well_labelled_def)
  have "sorted (opens_after labels)" unfolding opens_after_def sorted_wrt_rev by (rule accumulate_min_sorted)
  have "opens_after labels ! j \<le> ?xs ! j"
  proof -
    have "accumulate min (rev ?xs) ! (n - Suc j) \<le> rev ?xs ! (n - Suc j)"
      using assms(3) len(2) by (intro accumulate_min_nth) simp
    then show ?thesis using assms(3) len by (simp add: opens_after_def rev_nth)
  qed
  also have "\<dots> \<le> primary_low labels ! j"
    using assms(1,3) by (simp add: well_labelled_def split: option.splits)
  finally have le: "opens_after labels ! j \<le> primary_low labels ! j" .
  let ?k = "searchsorted_right (opens_after labels) hit"
  have "?k < length (opens_after labels)" using assms(2,3) len by simp
  then have "\<not> opens_after labels ! ?k \<le> hit"
    unfolding searchsorted_right_def by (rule nth_length_takeWhile)
  moreover have "opens_after labels ! ?k \<le> opens_after labels ! j"
    using \<open>sorted (opens_after labels)\<close> assms(2,3) len by (intro sorted_nth_mono) simp_all
  ultimately show ?thesis using le by simp
qed

lemma slice_bands_nth:
  assumes "well_labelled labels n" "start + k < stop" "stop \<le> n"
  shows "in_bands (slice_bands labels start stop) k x = in_bands (label_bands labels) (start + k) x"
    "closes_after (slice_bands labels start stop) x k = closes_after (label_bands labels) x (start + k)"
  using assms by (simp_all add: slice_bands_def label_bands_def in_bands_def closes_after_def well_labelled_def)

lemma slice_end_le:
  assumes "well_labelled labels n" "a < n"
  shows "a < slice_end labels a hit" "slice_end labels a hit \<le> n"
proof -
  have len: "length (opens_after labels) = n" "length (label_great labels) = n"
    using assms(1) by (simp_all add: opens_after_def well_labelled_def)
  then have "searchsorted_right (opens_after labels) hit \<le> n"
    by (metis length_takeWhile_le searchsorted_right_def)
  then show "a < slice_end labels a hit" "slice_end labels a hit \<le> n" using assms(2) len by (simp_all add: slice_end_def)
qed

lemma closes_slice:
  fixes hit :: rat
  assumes "well_labelled labels n" "start \<le> a" "a < n"
  defines "stop \<equiv> slice_end labels a hit"
  shows "(\<forall>k < length (fst (slice_bands labels start stop)). k > a - start \<longrightarrow> closes_after (slice_bands labels start stop) hit k)
    \<longleftrightarrow> (\<forall>j. a < j \<and> j < n \<longrightarrow> closes_after (label_bands labels) hit j)" (is "?l \<longleftrightarrow> ?r")
proof
  have stop: "a < stop" "stop \<le> n" using slice_end_le [OF assms(1,3)] by (simp_all add: stop_def)
  have len: "length (fst (slice_bands labels start stop)) = stop - start"
    using assms(1) stop by (simp add: slice_bands_def well_labelled_def)
  show "?l \<Longrightarrow> ?r"
  proof (intro allI impI)
    fix j assume l: ?l and j: "a < j \<and> j < n"
    show "closes_after (label_bands labels) hit j"
    proof (cases "j < stop")
      case True
      then show ?thesis
        using l [rule_format, of "j - start"] j assms(2) len slice_bands_nth(2) [OF assms(1), of start "j - start" stop hit] stop
        by simp
    next
      case False
      then have "hit < primary_low labels ! j" using opens_after_later [OF assms(1)] j by (simp add: stop_def slice_end_def)
      moreover have "primary_low labels ! j \<le> primary_high labels ! j" using assms(1) j by (simp add: well_labelled_def)
      ultimately show ?thesis by (simp add: closes_after_def label_bands_def)
    qed
  qed
  show "?r \<Longrightarrow> ?l"
  proof (intro allI impI)
    fix k assume r: ?r and k: "k < length (fst (slice_bands labels start stop))" "k > a - start"
    then have "a < start + k" "start + k < stop" using len assms(2) by linarith+
    then show "closes_after (slice_bands labels start stop) hit k"
      using r slice_bands_nth(2) [OF assms(1), of start k stop hit] stop by simp
  qed
qed

lemma legal_hits_slice:
  assumes "well_labelled labels n" "start \<le> a" "a < n" "length note_lanes = n" "a < stop" "stop \<le> n"
  shows "legal_hits (slice_bands labels start stop) (take (stop - start) (section_ranks (drop start note_lanes)))
      (a - start) (min a 100 - start) hit clock (\<lambda>k. h (start + k))
    \<longleftrightarrow> playable_prefix labels note_lanes start a hit clock h" (is "?l \<longleftrightarrow> ?r")
proof
  have rank: "take (stop - start) (section_ranks (drop start note_lanes)) ! k
      = take (stop - start) (section_ranks (drop start note_lanes)) ! l
      \<longleftrightarrow> note_lanes ! (start + k) = note_lanes ! (start + l)" if "start + k < stop" "start + l < stop" for k l
    using that assms(4,6) section_ranks_eq [of k "drop start note_lanes" l] by simp
  note band = slice_bands_nth(1) [OF assms(1) _ assms(6)]
  show "?l \<Longrightarrow> ?r"
    unfolding playable_prefix_def
  proof (intro conjI allI impI)
    assume l: ?l
    fix i assume i: "start \<le> i \<and> i < a"
    have "in_bands (slice_bands labels start stop) (i - start) (h i) \<and> h i \<le> hit \<and> above_floor clock (h i)"
      using l [unfolded legal_hits_def, THEN conjunct1, rule_format, of "i - start"] i by (simp add: diff_less_mono)
    then show "in_bands (label_bands labels) i (h i)" "h i \<le> hit" "above_floor clock (h i)"
      using band [of start "i - start" "h i"] i assms(5) by simp_all
  next
    assume l: ?l
    fix i j assume ij: "start \<le> i \<and> i < j \<and> j < a \<and> (i < 100 \<or> note_lanes ! i = note_lanes ! j)"
    have "i - start < min a 100 - start
        \<or> take (stop - start) (section_ranks (drop start note_lanes)) ! (i - start)
          = take (stop - start) (section_ranks (drop start note_lanes)) ! (j - start)"
      using ij rank [of "i - start" "j - start"] assms(5) by auto
    then show "h i \<le> h j"
      using l [unfolded legal_hits_def, THEN conjunct2, rule_format, of "j - start" "i - start"] ij by (simp add: diff_less_mono)
  qed
  show "?r \<Longrightarrow> ?l"
    unfolding legal_hits_def
  proof (intro conjI allI impI)
    assume r: ?r
    fix k assume k: "k < a - start"
    have "in_bands (label_bands labels) (start + k) (h (start + k)) \<and> h (start + k) \<le> hit \<and> above_floor clock (h (start + k))"
      using r k by (simp add: playable_prefix_def)
    then show "in_bands (slice_bands labels start stop) k (h (start + k))" "h (start + k) \<le> hit"
      "above_floor clock (h (start + k))"
      using band [of start k] k assms(5) by simp_all
  next
    assume r: ?r
    fix l k assume kl: "l < a - start" "k < l" and same: "k < min a 100 - start
        \<or> take (stop - start) (section_ranks (drop start note_lanes)) ! k
          = take (stop - start) (section_ranks (drop start note_lanes)) ! l"
    have "start + k < 100 \<or> note_lanes ! (start + k) = note_lanes ! (start + l)"
      using same kl rank [of k l] assms(5) by auto
    then show "h (start + k) \<le> h (start + l)" using r kl by (simp add: playable_prefix_def)
  qed
qed

text \<open>C10: there is a witness exactly when the activation is the note that fills the bar, its hit is inside
  its label's window and not before the play's last hit, every later note can still be hit then or
  after, and some hits of the notes before it form a legal prefix. The greedy walk, which hits each
  lane as early as it can and reads only a slice of the notes, loses no play and invents none.\<close>

theorem chart_prefix_witness_exact:
  assumes "well_labelled labels n" "start \<le> a" "a < n" "length note_lanes = n"
  shows "chart_prefix_witness_of labels note_lanes a t denom fill start clock \<noteq> None
    \<longleftrightarrow> reaches_full labels a fill denom \<and> above_floor clock (r32 t) \<and> in_bands (label_bands labels) a (r32 t)
      \<and> (\<forall>j. a < j \<and> j < n \<longrightarrow> closes_after (label_bands labels) (r32 t) j)
      \<and> (\<exists>h. playable_prefix labels note_lanes start a (r32 t) clock h)"
proof -
  define hit where "hit = r32 t"
  define stop where "stop = slice_end labels a hit"
  let ?bands = "slice_bands labels start stop" and ?i = "a - start"
  let ?ranks = "take (stop - start) (section_ranks (drop start note_lanes))"
  let ?order = "prefix_order ?bands ?ranks ?i (min a 100 - start) hit clock"
  have stop: "a < stop" "stop \<le> n" using slice_end_le [OF assms(1,3)] by (simp_all add: stop_def)
  have band: "in_bands ?bands ?i hit \<longleftrightarrow> in_bands (label_bands labels) a hit"
    using slice_bands_nth(1) [OF assms(1), of start ?i stop hit] stop assms(2) by simp
  have len: "?i \<le> length ?ranks" using stop assms(4) by simp
  then have top: "\<forall>k < ?i. ?ranks ! k \<le> Max (set ?ranks)" by (intro allI impI Max_ge nth_mem) simp_all
  note legal = legal_hits_slice [OF assms stop, of hit clock]
  note closes = closes_slice [OF assms(1-3), of hit, folded stop_def]
  have "?order \<noteq> None \<longleftrightarrow> (\<forall>j. a < j \<and> j < n \<longrightarrow> closes_after (label_bands labels) hit j)
      \<and> (\<exists>h. playable_prefix labels note_lanes start a hit clock h)" (is "_ \<longleftrightarrow> ?r")
  proof
    assume "?order \<noteq> None"
    then obtain order where "?order = Some order" by blast
    then obtain h where h: "legal_hits ?bands ?ranks ?i (min a 100 - start) hit clock h"
      and later: "\<forall>k < length (fst ?bands). k > ?i \<longrightarrow> closes_after ?bands hit k"
      by (rule prefix_order_sound [OF _ top _ len]) auto
    have "legal_hits ?bands ?ranks ?i (min a 100 - start) hit clock (\<lambda>k. h (start + k - start))"
      using h by simp
    then have "playable_prefix labels note_lanes start a hit clock (\<lambda>i. h (i - start))"
      using legal [of "\<lambda>i. h (i - start)"] by blast
    then show ?r using closes later by blast
  next
    assume r: ?r
    then obtain h where "playable_prefix labels note_lanes start a hit clock h" by blast
    then have "legal_hits ?bands ?ranks ?i (min a 100 - start) hit clock (\<lambda>k. h (start + k))" using legal by blast
    then show "?order \<noteq> None" using r closes by (intro prefix_order_complete [OF top]) auto
  qed
  then show ?thesis
    unfolding chart_prefix_witness_of_def Let_def hit_def [symmetric] stop_def [symmetric] using band
    by (auto split: option.splits)
qed

text \<open>C37: the witness's input order plays exactly the section's notes before the activation, its lanes in
  chart order: some legal hits of theirs never go back in time along it, and the lane counts say how
  many notes each lane of the section plays.\<close>

theorem chart_prefix_witness_plays:
  assumes "well_labelled labels n" "start \<le> a" "a < n" "length note_lanes = n"
    and "chart_prefix_witness_of labels note_lanes a t denom fill start clock = Some w"
  shows "distinct (prefix_notes w) \<and> set (prefix_notes w) = {start..<a}
    \<and> (\<forall>l. filter (\<lambda>i. note_lanes ! i = l) (prefix_notes w) = filter (\<lambda>i. note_lanes ! i = l) [start..<a])
    \<and> (\<exists>h. playable_prefix labels note_lanes start a (r32 t) clock h \<and> sorted (map h (prefix_notes w)))
    \<and> distinct (map fst (lane_counts w)) \<and> set (map fst (lane_counts w)) = set (drop start note_lanes)
    \<and> (\<forall>(l, c) \<in> set (lane_counts w). c = length (filter (\<lambda>i. note_lanes ! i = l) [start..<a]))"
proof -
  define hit where "hit = r32 t"
  define stop where "stop = slice_end labels a hit"
  let ?bands = "slice_bands labels start stop" and ?i = "a - start" and ?ls = "drop start note_lanes"
  let ?ranks = "take (stop - start) (section_ranks ?ls)" and ?u = "unique_lanes (drop start note_lanes)"
  let ?lane_order = "argsort (map (\<lambda>l. first_index l ?ls) ?u)"
  let ?count = "\<lambda>k. count_list (take ?i (map (\<lambda>l. first_index l ?u) ?ls)) k"
  have stop: "a < stop" "stop \<le> n" using slice_end_le [OF assms(1,3)] by (simp_all add: stop_def)
  obtain order where order: "prefix_order ?bands ?ranks ?i (min a 100 - start) hit clock = Some order"
    and notes_eq: "prefix_notes w = map (\<lambda>k. k + start) order"
    and counts: "lane_counts w = map (\<lambda>k. (?u ! k, ?count k)) ?lane_order"
    using assms(5) unfolding chart_prefix_witness_of_def Let_def hit_def [symmetric] stop_def [symmetric]
    by (auto split: if_splits option.splits)
  have len: "?i \<le> length ?ranks" using stop assms(4) by simp
  then have top: "\<forall>k < ?i. ?ranks ! k \<le> Max (set ?ranks)" by (intro allI impI Max_ge nth_mem) simp_all
  obtain h where h: "legal_hits ?bands ?ranks ?i (min a 100 - start) hit clock h"
    and dist: "distinct order" and set: "set order = {..<?i}" and sorted: "sorted (map h order)"
    and lane: "\<And>r. filter (\<lambda>k. ?ranks ! k = r) order = filter (\<lambda>k. ?ranks ! k = r) [0..<?i]"
    by (rule prefix_order_sound [OF order top _ len]) auto
  have "legal_hits ?bands ?ranks ?i (min a 100 - start) hit clock (\<lambda>k. h (start + k - start))"
    using h by simp
  then have "playable_prefix labels note_lanes start a hit clock (\<lambda>i. h (i - start))"
    using legal_hits_slice [OF assms(1-4) stop, of hit clock "\<lambda>i. h (i - start)"] by blast
  moreover have "map (\<lambda>i. h (i - start)) (prefix_notes w) = map h order" by (simp add: notes_eq)
  ultimately have plays: "\<exists>h. playable_prefix labels note_lanes start a hit clock h \<and> sorted (map h (prefix_notes w))"
    using sorted by metis
  have shift: "map (\<lambda>k. k + start) [0..<?i] = [start..<a]"
    using assms(2) by (intro nth_equalityI) simp_all
  have lanes_eq: "filter (\<lambda>i. note_lanes ! i = l) (prefix_notes w) = filter (\<lambda>i. note_lanes ! i = l) [start..<a]" for l
  proof -
    have "filter (\<lambda>k. note_lanes ! (k + start) = l) order = filter (\<lambda>k. note_lanes ! (k + start) = l) [0..<?i]"
    proof (cases "\<exists>k < ?i. note_lanes ! (k + start) = l")
      case True
      then obtain k where k: "k < ?i" "note_lanes ! (k + start) = l" by blast
      have same: "note_lanes ! (m + start) = l \<longleftrightarrow> ?ranks ! m = ?ranks ! k" if "m < ?i" for m
        using that k section_ranks_eq [of m ?ls k] stop assms(4) by (simp add: add.commute)
      have "filter (\<lambda>k. note_lanes ! (k + start) = l) ks = filter (\<lambda>m. ?ranks ! m = ?ranks ! k) ks"
        if "List.set ks = {..<?i}" for ks
        by (rule filter_cong [OF refl]) (use same that in auto)
      from this [OF set] this [of "[0..<?i]"] show ?thesis
        using lane [of "?ranks ! k"] by (simp add: lessThan_atLeast0)
    next
      case False
      then show ?thesis using set by (auto simp: filter_empty_conv filter_False)
    qed
    then show ?thesis by (simp add: notes_eq filter_map comp_def flip: shift)
  qed
  have "distinct (map fst (lane_counts w))"
    by (simp add: counts comp_def distinct_map distinct_argsort inj_on_nth set_argsort inj_on_def nth_eq_iff_index_eq)
  moreover have "set (map fst (lane_counts w)) = set ?ls"
  proof -
    have "(!) ?u ` {..<length ?u} = List.set ?u" by (auto simp: set_conv_nth)
    then show ?thesis by (simp add: counts set_argsort)
  qed
  moreover have "c = length (filter (\<lambda>i. note_lanes ! i = l) [start..<a])" if lc: "(l, c) \<in> set (lane_counts w)" for l c
  proof -
    obtain k where k: "k < length ?u" "l = ?u ! k" "c = ?count k"
      using lc by (auto simp: counts set_argsort)
    have mem: "l \<in> List.set ?ls" using k(1,2) nth_mem [of k ?u] by simp
    have at: "first_index l ?u = k"
      using nth_eq_iff_index_eq [of ?u "first_index l ?u" k] first_index_nth [of l ?u] mem k by simp
    have same: "first_index x ?u = k \<longleftrightarrow> x = l" if x: "x \<in> List.set (take ?i ?ls)" for x
    proof -
      have "x \<in> List.set ?u" "l \<in> List.set ?u" using in_set_takeD [OF x] mem by simp_all
      from first_index_inj [OF this] show ?thesis unfolding at .
    qed
    have "c = length (filter (\<lambda>x. first_index x ?u = k) (take ?i ?ls))"
      unfolding k(3) take_map count_list_map ..
    also have "filter (\<lambda>x. first_index x ?u = k) (take ?i ?ls) = filter (\<lambda>x. x = l) (take ?i ?ls)"
      by (rule filter_cong [OF refl same])
    also have "take ?i ?ls = map (\<lambda>k. note_lanes ! (k + start)) [0..<?i]"
      using assms(3,4) by (intro nth_equalityI) (simp_all add: add.commute)
    finally show ?thesis by (simp add: filter_map comp_def flip: shift)
  qed
  moreover have "distinct (prefix_notes w)" using dist by (simp add: notes_eq distinct_map)
  moreover have "set (prefix_notes w) = {start..<a}"
  proof -
    have "set (prefix_notes w) = (\<lambda>k. k + start) ` List.set [0..<?i]" by (simp add: notes_eq set lessThan_atLeast0)
    also have "\<dots> = List.set (map (\<lambda>k. k + start) [0..<?i])" by (simp only: set_map)
    finally show ?thesis by (simp only: shift atLeastLessThan_upt)
  qed
  ultimately show ?thesis
    using plays lanes_eq unfolding hit_def by blast
qed

text \<open>Past the ramp, a Great on lane 2 played late is overtaken by the Perfect on lane 5 after it.\<close>

definition overtaken :: label_hit_intervals where
  "overtaken = \<lparr>label_great = replicate 100 False @ [True, False, False, False],
     primary_low = replicate 100 0 @ [9, 39 / 4, 11, 12], primary_high = replicate 100 0 @ [37 / 4, 10, 12, 13],
     secondary_band = replicate 100 None @ [Some (21 / 2, 11), None, None, None]\<rparr>"

definition overtaken_lanes :: "int list" where
  "overtaken_lanes = replicate 100 0 @ [2, 5, 2, 5]"

lemma overtaken_labels: "well_labelled overtaken 104"
  unfolding well_labelled_def overtaken_def by code_simp

lemma overtaken_witness:
  "chart_prefix_witness_of overtaken overtaken_lanes 102 11 (5 / 2) 3 100 (Some (19 / 2))
    = Some \<lparr>prefix_notes = [101, 100], lane_counts = [(2, 1), (5, 1)]\<rparr>"
  by code_simp

lemma chart_prefix_witness_exact_witness:
  "\<exists>h. playable_prefix overtaken overtaken_lanes 100 102 (r32 11) (Some (19 / 2)) h"
  using chart_prefix_witness_exact [of overtaken 104 100 102 overtaken_lanes 11 "5 / 2" 3 "Some (19 / 2)"]
    overtaken_labels overtaken_witness by (simp add: overtaken_lanes_def)

lemma chart_prefix_witness_plays_witness:
  "set [101, 100] = {100..<102::nat} \<and> (\<exists>h. playable_prefix overtaken overtaken_lanes 100 102 (r32 11) (Some (19 / 2)) h
      \<and> sorted (map h [101, 100]))"
  using chart_prefix_witness_plays [of overtaken 104 100 102 overtaken_lanes 11 "5 / 2" 3 "Some (19 / 2)", OF overtaken_labels
      _ _ _ overtaken_witness]
  by (simp add: overtaken_lanes_def)

end
