(* ===== verification/TraceSearch.thy ===== *)
theory TraceSearch
  imports SectionKernels ActivationWitness
begin

text \<open>
  trace/reconstruct.py: the fever sections whose edges add up to a Force Greats surface, searched section
  by section, with the hit of each accepted activation. The section tables are pure functions of the
  song, so the cache that shares them is left out. A hit is a binary32 number reached by its place on
  the number line; a bit pattern that is no finite number, which only hits on both sides of zero lead
  to, is outside the model (None).
\<close>

section \<open>Surfaces as edges\<close>

definition edge_of_surface :: "fg_surface \<Rightarrow> int list" where
  "edge_of_surface s =
     [fever0 s OR push_bit 32 (fever1 s), fever2 s OR push_bit 32 (fever3 s),
      great0 s OR push_bit 32 (great1 s), great2 s OR push_bit 32 (great3 s),
      body_fever s, body_great s, body_fever_great s]"

text \<open>An edge fits when its notes are in what remains and its counts are within it.\<close>

definition edge_fits :: "int list \<Rightarrow> 64 word list \<Rightarrow> bool" where
  "edge_fits remaining edge \<longleftrightarrow>
     (let left = map (word_of_int :: int \<Rightarrow> 64 word) remaining
      in list_all (\<lambda>c. edge ! c AND NOT (left ! c) = 0) [0..<4] \<and> list_all (\<lambda>c. edge ! c \<le> left ! c) [4..<7])"

definition subtract_edge :: "int list \<Rightarrow> 64 word list \<Rightarrow> int list" where
  "subtract_edge remaining edge =
     map (\<lambda>c. remaining ! c AND NOT (uint (edge ! c))) [0..<4] @ map (\<lambda>c. remaining ! c - uint (edge ! c)) [4..<7]"

section \<open>Binary32 numbers in order\<close>

text \<open>The bit pattern of a magnitude, and the number a pattern stands for.\<close>

definition magnitude_bits :: "f32 \<Rightarrow> int" where
  "magnitude_bits m =
     (if m = 0 then 0 else let e = max (ilog2 m) (- 126) in (e + 126) * 2 ^ 23 + \<lfloor>m / 2 powi (e - 23)\<rfloor>)"

definition float32_order :: "f64 \<Rightarrow> int" where
  "float32_order v =
     (let x = r32 v; bits = (if x < 0 then 0x80000000 + magnitude_bits (- x) else magnitude_bits x)
      in if bits \<ge> 0x80000000 then 0x80000000 - bits else bits + 0x80000000)"

definition magnitude_of_bits :: "int \<Rightarrow> f32 option" where
  "magnitude_of_bits bits =
     (let e = bits div 2 ^ 23; m = bits mod 2 ^ 23
      in if e \<ge> 255 then None
         else Some (if e = 0 then of_int m * 2 powi (- 149) else of_int (2 ^ 23 + m) * 2 powi (e - 150)))"

definition hit_from_order :: "int \<Rightarrow> f32 option" where
  "hit_from_order order =
     (let bits = (if order \<ge> 0x80000000 then order - 0x80000000 else 0x80000000 - order)
      in if bits < 0x80000000 then magnitude_of_bits bits else map_option uminus (magnitude_of_bits (bits - 0x80000000)))"

text \<open>The first place in a range whose hit has a property that only turns true once.\<close>

function first_order :: "(int \<Rightarrow> bool option) \<Rightarrow> int \<Rightarrow> int \<Rightarrow> int option" where
  "first_order holds first final =
     (if first \<le> final then
        (case holds ((first + final) div 2) of
           None \<Rightarrow> None
         | Some True \<Rightarrow> first_order holds first ((first + final) div 2 - 1)
         | Some False \<Rightarrow> first_order holds ((first + final) div 2 + 1) final)
      else Some first)"
  by auto
termination by (relation "measure (\<lambda>(_, first, final). nat (final - first + 1))") auto

declare first_order.simps [simp del]

section \<open>An activation's centered hit\<close>

definition next_up32 :: "f32 \<Rightarrow> f32" where "next_up32 x = - next_down32 (- x)"

definition reaches_target :: "nat \<Rightarrow> nat \<Rightarrow> f32 list \<Rightarrow> f64 \<Rightarrow> nat \<Rightarrow> f64 \<Rightarrow> bool" where
  "reaches_target n a floor_ts rft target hit \<longleftrightarrow> target \<le> fever_end hit a floor_ts rft n"

definition within_target :: "nat \<Rightarrow> nat \<Rightarrow> f32 list \<Rightarrow> f64 \<Rightarrow> nat \<Rightarrow> f32 option list option \<Rightarrow> f64 \<Rightarrow> bool" where
  "within_target n a floor_ts rft target exits hit \<longleftrightarrow>
     (case exits of
        None \<Rightarrow> fever_end hit a floor_ts rft n \<le> target
      | Some ceilings \<Rightarrow> (case ceilings ! target of None \<Rightarrow> False | Some c \<Rightarrow> r32 (add64 hit rft) \<le> c))"

definition centered_hit_window ::
    "nat \<Rightarrow> nat \<Rightarrow> f64 \<Rightarrow> f64 \<Rightarrow> f64 \<Rightarrow> nat \<Rightarrow> f32 list \<Rightarrow> f32 option list option \<Rightarrow> (f64 \<times> f64 \<times> f64) res option" where
  "centered_hit_window n a legal_lo legal_hi rft target_end floor_ts exits =
     (let target = min target_end n;
          reaches = reaches_target n a floor_ts rft target;
          inside = within_target n a floor_ts rft target exits;
          lowest = (let x = r32 legal_lo in if x < legal_lo then next_up32 x else x);
          highest = (let x = r32 legal_hi in if x > legal_hi then next_down32 x else x);
          min_order = float32_order lowest; max_order = float32_order highest
      in Option.bind (first_order (\<lambda>k. map_option reaches (hit_from_order k)) min_order max_order) (\<lambda>first.
         Option.bind (first_order (\<lambda>k. map_option (Not \<circ> inside) (hit_from_order k)) min_order max_order) (\<lambda>past.
           let final = past - 1
           in if first > final then Some (Inl UnplayableTrace)
              else Option.bind (hit_from_order first) (\<lambda>first_hit. Option.bind (hit_from_order final) (\<lambda>last_hit.
                let midpoint = float32_order (r32 (mul64 (add64 first_hit last_hit) (1 / 2)))
                in Option.bind (hit_from_order (min (max midpoint first) final)) (\<lambda>hit.
                   if reaches hit \<and> inside hit then Some (Inr (hit, first_hit, last_hit))
                   else Option.bind (hit_from_order ((first + final) div 2)) (\<lambda>hit.
                     if reaches hit \<and> inside hit then Some (Inr (hit, first_hit, last_hit))
                     else Some (Inl ValueError))))))))"

section \<open>A stored section\<close>

record stored_section =
  st_next_state :: nat
  st_activation :: nat
  st_activation_ms :: f64
  st_judgment :: string
  st_hit_ms :: f64
  st_hit_offset_ms :: f64
  st_window_lower_ms :: f64
  st_window_upper_ms :: f64
  st_offset_lower_ms :: f64
  st_offset_upper_ms :: f64
  st_window_width_ms :: f64
  st_forced_start :: nat
  st_run_start :: nat
  st_run_count :: nat
  st_fever_end :: nat
  st_fever_end_ms :: "f64 option"
  st_fever_duration_ms :: f64
  st_fever_window_end_ms :: f64
  st_fever_start_source :: string
  st_fever_start_note :: "nat option"
  st_fever_start_hit_ms :: f64
  st_early_start :: int
  st_early_end :: int
  st_preactivation_order :: "nat list"
  st_lane_prefixes :: "(int \<times> nat) list"
  st_fill_half_units :: int
  st_event_count :: int
  st_great_count :: int
  st_forced_count :: nat
  st_body_fever :: int
  st_body_great :: int
  st_body_fever_great :: int

definition fever_start_fields :: "f64 \<Rightarrow> f64 \<Rightarrow> nat \<Rightarrow> bool \<Rightarrow> string \<times> nat option \<times> f64" where
  "fever_start_fields start_time chart_time a late =
     (if late then (''activation_late_great'', Some a, mul64 start_time 1000)
      else if start_time \<noteq> chart_time then (''precise'', Some a, mul64 start_time 1000)
      else (''chart_perfect'', None, mul64 start_time 1000))"

definition stored_section_of :: "section_context \<Rightarrow> nat \<Rightarrow> section_option \<Rightarrow> stored_section res option" where
  "stored_section_of ctx section_start opt =
     (case opt of (row, edge, legal_lo, legal_hi) \<Rightarrow>
      let ts = sc_ts ctx; ht = sc_times ctx; n = length ts; a = sr_activation row; rft = sc_fever_time ctx
      in map_option (\<lambda>r. bind_res r (\<lambda>(hit, hit_lo, hit_hi).
           let run_end = min n (sr_run_start row + sr_run_count row);
               is_great = map (\<lambda>i. sr_run_start row \<le> i \<and> i < run_end \<or> sr_late row \<and> i = a) [0..<n]
           in bind_res (exact_label_hit_intervals is_great ts (ht_perfect_floor ht) (ht_perfect ht) (ht_great_floor ht) (ht_great ht)) (\<lambda>labels.
              let events = int a - int section_start;
                  greats = max 0 (int (min a run_end) - int (max section_start (sr_run_start row)));
                  fill = 2 * events - greats;
                  before = (if section_start = 0 then None else Some (ht_perfect_floor ht ! (section_start - 1)))
              in case chart_prefix_witness_of labels (sc_lanes ctx) a hit (sc_fill_denom ctx) fill section_start before of
                   None \<Rightarrow> Inl UnplayableTrace
                 | Some witness \<Rightarrow>
                     let chart_time = ts ! a; next = sr_next row;
                         (source, note_idx, start_ms) = fever_start_fields hit chart_time a (sr_late row)
                     in Inr \<lparr>st_next_state = next, st_activation = a, st_activation_ms = mul64 chart_time 1000,
                         st_judgment = (if sr_late row then ''late_great'' else ''perfect''),
                         st_hit_ms = mul64 hit 1000, st_hit_offset_ms = mul64 (sub64 hit chart_time) 1000,
                         st_window_lower_ms = mul64 hit_lo 1000, st_window_upper_ms = mul64 hit_hi 1000,
                         st_offset_lower_ms = mul64 (sub64 hit_lo chart_time) 1000,
                         st_offset_upper_ms = mul64 (sub64 hit_hi chart_time) 1000,
                         st_window_width_ms = max 0 (mul64 (sub64 hit_hi hit_lo) 1000),
                         st_forced_start = section_start, st_run_start = sr_run_start row, st_run_count = sr_run_count row,
                         st_fever_end = next, st_fever_end_ms = (if next \<ge> n then None else Some (mul64 (ts ! next) 1000)),
                         st_fever_duration_ms = mul64 rft 1000, st_fever_window_end_ms = mul64 (add64 hit rft) 1000,
                         st_fever_start_source = source, st_fever_start_note = note_idx, st_fever_start_hit_ms = start_ms,
                         st_early_start = sr_tail_start row, st_early_end = sr_tail_end row,
                         st_preactivation_order = prefix_notes witness, st_lane_prefixes = lane_counts witness,
                         st_fill_half_units = fill, st_event_count = events, st_great_count = greats,
                         st_forced_count = sr_forced row, st_body_fever = uint (edge ! 4), st_body_great = uint (edge ! 5),
                         st_body_fever_great = uint (edge ! 6)\<rparr>)))
         (centered_hit_window n a legal_lo legal_hi rft (sr_target_end row) (ht_perfect_floor ht)
            (if sr_early_exit row then Some (sc_exit_ceiling ctx) else None)))"

section \<open>The song's arrays and actions\<close>

definition EMPTY_SURFACE :: fg_surface where
  "EMPTY_SURFACE = \<lparr>fever0 = 0, fever1 = 0, fever2 = 0, fever3 = 0, great0 = 0, great1 = 0, great2 = 0, great3 = 0,
     body_fever = 0, body_great = 0, body_fever_great = 0\<rparr>"

record fg_song_inputs =
  fi_timestamps :: "f32 list"
  fi_perfect :: "f32 list"
  fi_great :: "f32 list"
  fi_perfect_floor :: "f32 list"
  fi_great_floor :: "f32 list"
  fi_late_great_floor :: "f32 list option"
  fi_exit_ceiling :: "f32 list option"
  fi_lanes :: "int list"
  fi_forced_great_timing :: bool

text \<open>The checked arrays; a missing late-Great floor is 1 ms past the latest Perfect, a missing exit ceiling the
  least latest Perfect from each note on.\<close>

definition song_arrays :: "fg_song_inputs \<Rightarrow> (f32 list \<times> hit_times \<times> f32 list \<times> int list) res" where
  "song_arrays inp =
     (let ts = fi_timestamps inp; n = length ts;
          late = (case fi_late_great_floor inp of None \<Rightarrow> map (\<lambda>t. add32 t (r32 (r64 (1 / 1000)))) (fi_perfect inp) | Some xs \<Rightarrow> xs);
          ceiling_ts = (case fi_exit_ceiling inp of None \<Rightarrow> rev (accumulate min (rev (fi_perfect inp))) | Some xs \<Rightarrow> xs)
      in if \<not> sorted ts \<or> \<not> list_all (\<lambda>xs. length xs = n)
              [fi_perfect inp, fi_great inp, fi_perfect_floor inp, fi_great_floor inp, late, ceiling_ts]
            \<or> length (fi_lanes inp) \<noteq> n
         then Inl ValueError
         else Inr (ts, \<lparr>ht_perfect_floor = fi_perfect_floor inp, ht_perfect = fi_perfect inp, ht_great_floor = fi_great_floor inp,
                ht_great = fi_great inp, ht_late_floor = late\<rparr>, ceiling_ts, fi_lanes inp))"

definition early_exit_min_fill :: "f32 list \<Rightarrow> f32 list \<Rightarrow> nat" where
  "early_exit_min_fill floor_ts latest_ts =
     (let n = length floor_ts;
          reach = map (\<lambda>t. add64 t (div64 (mul64 2 FRAME_MARGIN_MS) 1000)) (rev (accumulate min (rev latest_ts)))
      in lower_bound_go (\<lambda>mid. \<not> list_all2 (\<ge>) (drop mid floor_ts) (take (n - mid) reach)) 1 (max 1 n))"

text \<open>Per action its forced Greats, its fills and how many Greats they hold, in a later and in the first section.\<close>

fun action_rows :: "f64 \<Rightarrow> bool \<Rightarrow> nat list \<Rightarrow> int option \<Rightarrow> (nat \<times> int \<times> int) list" where
  "action_rows raw forced_timing [] last_fill = []"
| "action_rows raw forced_timing (k # ks) last_fill =
     (let fill = perfect_fill_crossing_offset raw (int k) False
      in (if forced_timing \<or> last_fill = None \<or> Some fill \<noteq> last_fill
          then [(k, fill, perfect_fill_crossing_offset raw (int k) True)] else [])
         @ action_rows raw forced_timing ks (Some fill))"

definition action_table :: "f64 \<Rightarrow> int \<Rightarrow> bool \<Rightarrow> (nat \<times> int \<times> int \<times> int \<times> int) list" where
  "action_table raw non_fever_base forced_timing =
     map (\<lambda>(k, later, first). (k, later, first, min (int k) later, min (int k) first))
       (action_rows raw forced_timing [0..<Suc (nat non_fever_base)] None)"

section \<open>The search\<close>

record section_table =
  tb_start :: nat
  tb_options :: "section_option list"

definition section_table_at :: "section_context \<Rightarrow> int \<Rightarrow> nat \<Rightarrow> bool \<Rightarrow> section_table res option" where
  "section_table_at ctx non_fever_base state first =
     (let table = action_table (sc_fill_denom ctx) non_fever_base (sc_forced_timing ctx);
          fills = map (\<lambda>(k, later, first_fill, lf, ff). nat (if first then first_fill else later)) table;
          forced = map (\<lambda>(k, later, first_fill, lf, ff). nat (if first then ff else lf)) table
      in map_option (map_sum id (\<lambda>rows. \<lparr>tb_start = (if first then 0 else state + 1), tb_options = rows\<rparr>))
           (section_rows ctx (map fst table) fills forced first state))"

definition fitting_options :: "section_table \<Rightarrow> int list \<Rightarrow> section_option list" where
  "fitting_options table remaining = filter (\<lambda>opt. edge_fits remaining (fst (snd opt))) (tb_options table)"

text \<open>No section past a state can take a head note up to it.\<close>

definition leaves_early_note :: "int list \<Rightarrow> nat \<Rightarrow> bool" where
  "leaves_early_note left next \<longleftrightarrow>
     ((left ! 0 OR left ! 2) OR push_bit 64 (left ! 1 OR left ! 3)) AND (push_bit next 2 - 1) \<noteq> 0"

text \<open>What the search remembers: the states and surfaces without a trace, and whether a section was refused.\<close>

type_synonym search_key = "nat \<times> bool \<times> int list"
type_synonym search_memo = "search_key list \<times> bool"
type_synonym search_result = "(stored_section list option \<times> search_memo) res option"

partial_function (option) try_options ::
    "(nat \<Rightarrow> section_table res option) \<Rightarrow> (nat \<Rightarrow> section_option \<Rightarrow> stored_section res option) \<Rightarrow> nat \<Rightarrow>
     nat \<Rightarrow> search_key \<Rightarrow> section_option list \<Rightarrow> search_memo \<Rightarrow> search_result" where
  "try_options table_at store n section_start key opts memo =
     (case opts of
        [] \<Rightarrow> Some (Inr (None, key # fst memo, snd memo))
      | opt # rest \<Rightarrow>
          let left = subtract_edge (snd (snd key)) (fst (snd opt)); next = sr_next (fst opt)
          in Option.bind
               (if list_all (\<lambda>x. x = 0) left then Some (Inr (Some [], memo))
                else if next \<ge> n \<or> leaves_early_note left next \<or> (next, False, left) \<in> set (fst memo) then Some (Inr (None, memo))
                else Option.bind (table_at next) (\<lambda>t. case t of
                       Inl e \<Rightarrow> Some (Inl e)
                     | Inr table \<Rightarrow> try_options table_at store n (tb_start table) (next, False, left)
                         (fitting_options table left) memo))
               (\<lambda>r. case r of
                  Inl e \<Rightarrow> Some (Inl e)
                | Inr (None, memo') \<Rightarrow> try_options table_at store n section_start key rest memo'
                | Inr (Some tail, memo') \<Rightarrow> Option.bind (store section_start opt) (\<lambda>s.
                    if s = Inl UnplayableTrace then try_options table_at store n section_start key rest (fst memo', True)
                    else Some (map_sum id (\<lambda>x. (Some (x # tail), memo')) s))))"

text \<open>What the tables read; there are no early exits when the bar takes too few notes to fill.\<close>

definition trace_context :: "fg_song_inputs \<Rightarrow> f64 \<Rightarrow> f64 \<Rightarrow> section_context res" where
  "trace_context inp raw_fever_fill real_fever_time =
     map_sum id (\<lambda>(ts, ht, ceiling_ts, note_lanes).
         \<lparr>sc_ts = ts, sc_times = ht,
          sc_exit_ceiling = (if max 1 \<lceil>raw_fever_fill\<rceil> < int (early_exit_min_fill (ht_perfect_floor ht) (ht_perfect ht))
            then map (\<lambda>_. None) ceiling_ts else map Some ceiling_ts),
          sc_lanes = note_lanes, sc_fill_denom = raw_fever_fill, sc_fever_time = real_fever_time,
          sc_forced_timing = fi_forced_great_timing inp\<rparr>)
       (song_arrays inp)"

text \<open>The search from the song's start.\<close>

definition search_trace :: "section_context \<Rightarrow> int \<Rightarrow> section_table \<Rightarrow> int list \<Rightarrow> search_result" where
  "search_trace ctx non_fever_base table remaining =
     try_options (\<lambda>state. section_table_at ctx non_fever_base state False) (stored_section_of ctx)
       (length (sc_ts ctx)) (tb_start table) (0, True, remaining) (fitting_options table remaining) ([], False)"

definition reconstruct_trace :: "fg_song_inputs \<Rightarrow> int \<Rightarrow> fg_surface \<Rightarrow> f64 \<Rightarrow> f64 \<Rightarrow> (stored_section \<times> nat) list res option" where
  "reconstruct_trace inp non_fever_base target raw_fever_fill real_fever_time =
     (if fi_timestamps inp = [] \<or> target = EMPTY_SURFACE then Some (Inr [])
      else case trace_context inp raw_fever_fill real_fever_time of
        Inl e \<Rightarrow> Some (Inl e)
      | Inr ctx \<Rightarrow>
          Option.bind (section_table_at ctx non_fever_base 0 True) (\<lambda>t. case t of
               Inl e \<Rightarrow> Some (Inl e)
             | Inr table \<Rightarrow>
                 map_option (\<lambda>r. bind_res r (\<lambda>(trace, memo). case trace of
                     Some sections \<Rightarrow> Inr (zip sections [1..<Suc (length sections)])
                   | None \<Rightarrow> Inl (if snd memo then UnplayableTrace else ValueError)))
                   (search_trace ctx non_fever_base table (edge_of_surface target))))"

definition reconstruct_base_trace :: "fg_song_inputs \<Rightarrow> int list \<Rightarrow> int \<Rightarrow> f64 \<Rightarrow> f64 \<Rightarrow> (stored_section \<times> nat) list res option" where
  "reconstruct_base_trace inp head_ws bf raw_fever_fill real_fever_time =
     reconstruct_trace (inp\<lparr>fi_late_great_floor := None, fi_forced_great_timing := False\<rparr>) 0
       \<lparr>fever0 = head_ws ! 0, fever1 = head_ws ! 1, fever2 = head_ws ! 2, fever3 = head_ws ! 3,
        great0 = 0, great1 = 0, great2 = 0, great3 = 0, body_fever = bf, body_great = 0, body_fever_great = 0\<rparr>
       raw_fever_fill real_fever_time"

section \<open>What a trace is\<close>

text \<open>The sections of a trace: each is an option of the table it starts at, fits in what remains, and the last
  leaves nothing. The search's order, its memory and its early refusals are not part of this.\<close>

definition edge_of :: "section_option \<Rightarrow> 64 word list" where "edge_of opt = fst (snd opt)"

inductive explains ::
    "(nat \<Rightarrow> section_table res option) \<Rightarrow> (nat \<Rightarrow> section_option \<Rightarrow> stored_section res option) \<Rightarrow>
     section_table \<Rightarrow> int list \<Rightarrow> section_option list \<Rightarrow> stored_section list \<Rightarrow> bool"
  for table_at and store where
  last_section:
    "opt \<in> set (tb_options table) \<Longrightarrow> edge_fits left (edge_of opt) \<Longrightarrow>
     list_all (\<lambda>x. x = 0) (subtract_edge left (edge_of opt)) \<Longrightarrow> store (tb_start table) opt = Some (Inr x) \<Longrightarrow>
     explains table_at store table left [opt] [x]"
| more_sections:
    "opt \<in> set (tb_options table) \<Longrightarrow> edge_fits left (edge_of opt) \<Longrightarrow> table_at (sr_next (fst opt)) = Some (Inr next_table) \<Longrightarrow>
     explains table_at store next_table (subtract_edge left (edge_of opt)) opts xs \<Longrightarrow>
     store (tb_start table) opt = Some (Inr x) \<Longrightarrow>
     explains table_at store table left (opt # opts) (x # xs)"

inductive_simps explains_Nil [simp]: "explains table_at store table left [] xs"

text \<open>A surface's columns: four head words and three counts, each within 64 bits.\<close>

definition columns_ok :: "int list \<Rightarrow> bool" where
  "columns_ok left \<longleftrightarrow> length left = 7 \<and> (\<forall>c < 7. 0 \<le> left ! c \<and> left ! c < 2 ^ 64)"

lemma less_7_cases: "c < 7 \<longleftrightarrow> c \<in> {0, 1, 2, 3, 4, 5, 6 :: nat}"
  by auto

lemma edge_fits_columns:
  assumes "edge_fits left edge" "columns_ok left"
  shows "c < 4 \<Longrightarrow> uint (edge ! c) AND NOT (left ! c) = 0" "4 \<le> c \<Longrightarrow> c < 7 \<Longrightarrow> uint (edge ! c) \<le> left ! c"
proof -
  have nth: "map (word_of_int :: int \<Rightarrow> 64 word) left ! c = word_of_int (left ! c)" if "c < 7"
    using assms(2) that by (simp add: columns_ok_def)
  have uint: "uint (word_of_int (left ! c) :: 64 word) = left ! c" if "c < 7"
    using assms(2) that by (simp add: columns_ok_def word_of_int_inverse)
  show "uint (edge ! c) AND NOT (left ! c) = 0" if "c < 4"
  proof -
    have "edge ! c AND NOT (map (word_of_int :: int \<Rightarrow> 64 word) left ! c) = 0"
      using assms(1) that by (simp only: edge_fits_def Let_def list_all_iff) simp
    then have "edge ! c AND NOT (word_of_int (left ! c) :: 64 word) = 0" using that nth by simp
    then have "\<not> (bit (edge ! c) k \<and> \<not> bit (word_of_int (left ! c) :: 64 word) k)" for k
      by (metis (no_types, lifting) bit_0_eq bit_and_iff bit_imp_le_length bit_not_iff bot_apply bot_bool_def linorder_not_le impossible_bit)
    then show ?thesis
      by (intro bit_eqI) (auto simp: bit_and_iff bit_not_iff bit_uint_iff bit_word_of_int_iff)
  qed
  show "uint (edge ! c) \<le> left ! c" if "4 \<le> c" "c < 7"
  proof -
    have "edge ! c \<le> word_of_int (left ! c)" using assms(1) that nth by (auto simp: edge_fits_def Let_def less_7_cases)
    then show ?thesis using uint that by (metis word_le_def)
  qed
qed

lemma subtract_edge_length [simp]: "length (subtract_edge left edge) = 7"
  by (simp add: subtract_edge_def)

lemma subtract_edge_nth:
  "c < 4 \<Longrightarrow> subtract_edge left edge ! c = left ! c AND NOT (uint (edge ! c))"
  "4 \<le> c \<Longrightarrow> c < 7 \<Longrightarrow> subtract_edge left edge ! c = left ! c - uint (edge ! c)"
  by (simp add: subtract_edge_def nth_append)
    (auto simp: subtract_edge_def nth_append less_7_cases)

lemma and_not_le:
  fixes x y :: int
  assumes "0 \<le> x"
  shows "0 \<le> x AND y" "x AND y \<le> x"
  using assms by (simp_all add: AND_upper1)

lemma columns_ok_subtract:
  assumes "columns_ok left" "edge_fits left edge"
  shows "columns_ok (subtract_edge left edge)"
  unfolding columns_ok_def
proof (intro conjI allI impI)
  fix c :: nat assume c: "c < 7"
  have left: "0 \<le> left ! c" "left ! c < 2 ^ 64" using assms(1) c by (auto simp: columns_ok_def)
  show "0 \<le> subtract_edge left edge ! c" "subtract_edge left edge ! c < 2 ^ 64"
  proof (atomize (full), cases "c < 4")
    case True
    then show "0 \<le> subtract_edge left edge ! c \<and> subtract_edge left edge ! c < 2 ^ 64"
      using and_not_le [OF left(1), of "NOT (uint (edge ! c))"] left(2) by (simp add: subtract_edge_nth)
  next
    case False
    then show "0 \<le> subtract_edge left edge ! c \<and> subtract_edge left edge ! c < 2 ^ 64"
      using edge_fits_columns(2) [OF assms(2,1), of c] c order_le_less_trans [OF _ left(2), of "left ! c - uint (edge ! c)"]
      by (simp add: subtract_edge_nth)
  qed
qed simp

text \<open>A note of what remains is in the edge or left after it, not both.\<close>

lemma subtract_edge_bit:
  assumes "columns_ok left" "edge_fits left edge" "c < 4"
  shows "bit (subtract_edge left edge ! c) k \<longleftrightarrow> bit (left ! c) k \<and> \<not> bit (edge ! c) k"
    and "bit (edge ! c) k \<Longrightarrow> bit (left ! c) k"
proof -
  have "\<not> bit (uint (edge ! c) AND NOT (left ! c)) k" using edge_fits_columns(1) [OF assms(2,1,3)] by simp
  then show "bit (subtract_edge left edge ! c) k \<longleftrightarrow> bit (left ! c) k \<and> \<not> bit (edge ! c) k"
    and "bit (edge ! c) k \<Longrightarrow> bit (left ! c) k"
    using assms(3) bit_imp_le_length [of "edge ! c" k]
    by (auto simp: subtract_edge_nth bit_and_iff bit_not_iff bit_uint_iff)
qed

lemma explains_bits:
  assumes "explains table_at store table left opts xs" "columns_ok left" "c < 4"
  shows "length (filter (\<lambda>opt. bit (edge_of opt ! c) k) opts) = of_bool (bit (left ! c) k)"
  using assms
proof (induction rule: explains.induct)
  case (last_section opt table left x)
  have "subtract_edge left (edge_of opt) ! c = 0"
    using last_section.hyps(3) \<open>c < 4\<close> by (simp add: list_all_length)
  then show ?case using subtract_edge_bit [OF last_section.prems(1) last_section.hyps(2) \<open>c < 4\<close>, of k] by auto
next
  case (more_sections opt table left next_table opts xs x)
  then show ?case
    using subtract_edge_bit [OF more_sections.prems(1) more_sections.hyps(2) \<open>c < 4\<close>, of k] columns_ok_subtract by auto
qed

lemma explains_counts:
  assumes "explains table_at store table left opts xs" "columns_ok left" "4 \<le> c" "c < 7"
  shows "(\<Sum>opt \<leftarrow> opts. uint (edge_of opt ! c)) = left ! c"
  using assms
proof (induction rule: explains.induct)
  case (last_section opt table left x)
  have "subtract_edge left (edge_of opt) ! c = 0"
    using last_section.hyps(3) \<open>c < 7\<close> by (simp add: list_all_length)
  then show ?case using \<open>4 \<le> c\<close> \<open>c < 7\<close> by (simp add: subtract_edge_nth)
next
  case (more_sections opt table left next_table opts xs x)
  then show ?case using columns_ok_subtract by (simp add: subtract_edge_nth)
qed

text \<open>Each section is stored from one of the tables.\<close>

lemma explains_stored:
  assumes "explains table_at store table left opts xs"
  shows "list_all2 (\<lambda>opt x. \<exists>t. (t = table \<or> (\<exists>state. table_at state = Some (Inr t))) \<and> opt \<in> set (tb_options t)
      \<and> store (tb_start t) opt = Some (Inr x)) opts xs"
  using assms
proof (induction rule: explains.induct)
  case (more_sections opt table left next_table opts xs x)
  show ?case
    using more_sections.hyps more_sections.IH
    by (auto elim!: list_all2_mono)
qed auto

section \<open>The search finds a trace when there is one\<close>

text \<open>A note up to a state that is left over when the next section starts past it.\<close>

definition head_note :: "int list \<Rightarrow> nat \<Rightarrow> bool" where
  "head_note left k \<longleftrightarrow> bit (left ! (k div 64)) (k mod 64) \<or> bit (left ! (2 + k div 64)) (k mod 64)"

lemma columns_ok_bit:
  assumes "columns_ok left" "c < 7" "bit (left ! c) k"
  shows "k < 64"
proof (rule ccontr)
  assume "\<not> k < 64"
  then have "left ! c < 2 ^ k" using assms(1,2) power_increasing [of 64 k "2 :: int"]
    by (fastforce simp: columns_ok_def)
  moreover have "0 \<le> left ! c" using assms(1,2) by (simp add: columns_ok_def)
  ultimately show False using assms(3) by (simp add: bit_iff_odd)
qed

lemma leaves_early_note_head:
  assumes "columns_ok left" "leaves_early_note left next"
  obtains k where "k \<le> next" "k < 128" "head_note left k"
proof -
  have early: "(push_bit next 2 - 1 :: int) = mask (next + 1)" by (simp add: mask_eq_exp_minus_1 push_bit_eq_mult)
  have "\<exists>k. bit (((left ! 0 OR left ! 2) OR push_bit 64 (left ! 1 OR left ! 3)) AND mask (next + 1)) k"
    using assms(2) unfolding leaves_early_note_def early by (metis bit_eqI bit_0_eq bot_apply bot_bool_def)
  then obtain k where k: "k < next + 1"
      "bit (left ! 0) k \<or> bit (left ! 2) k \<or> 64 \<le> k \<and> (bit (left ! 1) (k - 64) \<or> bit (left ! 3) (k - 64))"
    unfolding bit_and_iff bit_or_iff bit_push_bit_iff bit_mask_iff by blast
  then have le: "k \<le> next" by simp
  show thesis
  proof (cases "bit (left ! 0) k \<or> bit (left ! 2) k")
    case True
    then have "k < 64" using columns_ok_bit [OF assms(1), of 0 k] columns_ok_bit [OF assms(1), of 2 k] by auto
    then show thesis using True that [of k] le by (simp add: head_note_def)
  next
    case False
    then obtain j where j: "k = 64 + j" "bit (left ! 1) j \<or> bit (left ! 3) j" using k(2) le_Suc_ex by force
    then have "j < 64" using columns_ok_bit [OF assms(1), of 1 j] columns_ok_bit [OF assms(1), of 3 j] by auto
    moreover have "(64 + j) div 64 = 1" "(64 + j) mod 64 = j" using \<open>j < 64\<close> by simp_all
    ultimately show thesis using that [of k] le j by (simp add: head_note_def numeral_3_eq_3 numeral_2_eq_2)
  qed
qed

text \<open>What the search takes from the tables: none has an option past the last note, and an option's notes and
  its next state come after the table's state.\<close>

locale trace_tables =
  fixes table_at :: "nat \<Rightarrow> section_table res option"
    and store :: "nat \<Rightarrow> section_option \<Rightarrow> stored_section res option" and n :: nat
  assumes past: "n \<le> state \<Longrightarrow> table_at state = Some (Inr t) \<Longrightarrow> tb_options t = []"
    and later: "table_at state = Some (Inr t) \<Longrightarrow> opt \<in> set (tb_options t) \<Longrightarrow> state < sr_next (fst opt)"
    and later_bits: "table_at state = Some (Inr t) \<Longrightarrow> opt \<in> set (tb_options t) \<Longrightarrow> k < 128 \<Longrightarrow> k \<le> state \<Longrightarrow>
      \<not> bit (edge_of opt ! (k div 64)) (k mod 64) \<and> \<not> bit (edge_of opt ! (2 + k div 64)) (k mod 64)"
begin

abbreviation "has_trace table left \<equiv> \<exists>opts xs. explains table_at store table left opts xs"

lemma no_early_note:
  assumes "explains table_at store table left opts xs"
    and "columns_ok left" "head_note left k" "k < 128" "\<exists>state \<ge> k. table_at state = Some (Inr table)"
  shows False
proof -
  have bits: "bit (left ! c) j = bit (subtract_edge left (edge_of opt) ! c) j"
    if "columns_ok left" "edge_fits left (edge_of opt)" "c < 4" "\<not> bit (edge_of opt ! c) j" for left opt c j
    using subtract_edge_bit(1) [OF that(1-3)] that(4) by simp
  have c: "k div 64 < 4" "2 + k div 64 < 4" using \<open>k < 128\<close> by (simp_all add: less_mult_imp_div_less)
  have kept: "head_note (subtract_edge left (edge_of opt)) k"
    if "head_note left k" "columns_ok left" "edge_fits left (edge_of opt)" "opt \<in> set (tb_options table)"
      "\<exists>state \<ge> k. table_at state = Some (Inr table)" for left opt table
    using that later_bits [of _ table opt k] \<open>k < 128\<close> bits [OF that(2,3) c(1)] bits [OF that(2,3) c(2)]
    unfolding head_note_def by blast
  show False
    using assms
  proof (induction rule: explains.induct)
    case (last_section opt table left x)
    have "subtract_edge left (edge_of opt) ! j = 0" if "j < 7" for j
      using last_section.hyps(3) that by (simp add: list_all_length)
    then show False
      using kept [OF last_section.prems(2,1) last_section.hyps(2,1) last_section.prems(4)] c by (simp add: head_note_def)
  next
    case (more_sections opt table left next_table opts xs x)
    obtain state where "k \<le> state" "table_at state = Some (Inr table)" using more_sections.prems(4) by blast
    then have "k \<le> sr_next (fst opt)" using later [of state table opt] more_sections.hyps(1) by simp
    then show False
      using more_sections.IH columns_ok_subtract [OF more_sections.prems(1) more_sections.hyps(2)] \<open>k < 128\<close>
        kept [OF more_sections.prems(2,1) more_sections.hyps(2,1) more_sections.prems(4)] more_sections.hyps(3) by blast
  qed
qed

definition memo_sound :: "search_key list \<Rightarrow> bool" where
  "memo_sound memo \<longleftrightarrow> (\<forall>state left table. (state, False, left) \<in> set memo \<longrightarrow> table_at state = Some (Inr table) \<longrightarrow> \<not> has_trace table left)"

text \<open>An option that starts no trace of what remains.\<close>

definition ruled_out :: "section_table \<Rightarrow> int list \<Rightarrow> section_option \<Rightarrow> bool" where
  "ruled_out table left opt \<longleftrightarrow> \<not> (\<exists>opts xs. explains table_at store table left (opt # opts) xs)"

lemma refused_ruled_out:
  "store (tb_start table) opt = Some (Inl e) \<Longrightarrow> ruled_out table left opt"
  unfolding ruled_out_def by (auto elim: explains.cases)

lemma pruned_ruled_out:
  assumes "columns_ok left" "\<not> list_all (\<lambda>x. x = 0) (subtract_edge left (edge_of opt))"
    and "\<And>t. table_at (sr_next (fst opt)) = Some (Inr t) \<Longrightarrow> \<not> has_trace t (subtract_edge left (edge_of opt))"
  shows "ruled_out table left opt"
  unfolding ruled_out_def using assms(2,3) by (auto elim: explains.cases)

lemma all_ruled_out:
  assumes "\<forall>opt \<in> set (fitting_options table left). ruled_out table left opt"
  shows "\<not> has_trace table left"
proof (intro notI, elim exE)
  fix opts xs assume *: "explains table_at store table left opts xs"
  then obtain opt rest where "opts = opt # rest" "opt \<in> set (fitting_options table left)"
    by cases (auto simp: fitting_options_def edge_of_def)
  then show False using assms * by (auto simp: ruled_out_def)
qed

lemma early_no_trace:
  assumes "columns_ok left" "n \<le> next \<or> leaves_early_note left next" "table_at next = Some (Inr t)"
  shows "\<not> has_trace t left"
proof (intro notI, elim exE)
  fix opts xs assume *: "explains table_at store t left opts xs"
  show False
  proof (cases "n \<le> next")
    case True
    then show False using past [OF _ assms(3)] * by (auto elim: explains.cases)
  next
    case False
    then obtain k where "k \<le> next" "k < 128" "head_note left k" using leaves_early_note_head assms(1,2) by blast
    then show False using no_early_note [OF * assms(1)] assms(3) by blast
  qed
qed

definition search_correct :: "section_table \<Rightarrow> int list \<Rightarrow> py_error + stored_section list option \<times> search_memo \<Rightarrow> bool" where
  "search_correct table left r \<longleftrightarrow>
     (case r of
        Inl e \<Rightarrow> True
      | Inr (found, memo) \<Rightarrow> memo_sound (fst memo)
          \<and> (case found of None \<Rightarrow> \<not> has_trace table left | Some xs \<Rightarrow> \<exists>opts. explains table_at store table left opts xs))"

text \<open>One step of the search keeps this, when its calls do.\<close>

definition search_from :: "nat \<Rightarrow> search_key \<Rightarrow> section_option list \<Rightarrow> search_memo \<Rightarrow> py_error + stored_section list option \<times> search_memo \<Rightarrow> bool" where
  "search_from section_start key opts memo r \<longleftrightarrow>
     (\<forall>table. section_start = tb_start table \<longrightarrow> columns_ok (snd (snd key)) \<longrightarrow> memo_sound (fst memo) \<longrightarrow>
        (\<not> fst (snd key) \<longrightarrow> table_at (fst key) = Some (Inr table)) \<longrightarrow>
        set opts \<subseteq> set (fitting_options table (snd (snd key))) \<longrightarrow>
        (\<forall>opt \<in> set (fitting_options table (snd (snd key))) - set opts. ruled_out table (snd (snd key)) opt) \<longrightarrow>
        search_correct table (snd (snd key)) r)"

lemma search_end:
  "search_from section_start key [] memo (Inr (None, key # fst memo, snd memo))"
  using all_ruled_out [of _ "snd (snd key)"]
  by (cases key) (auto simp: search_from_def search_correct_def memo_sound_def)

text \<open>What is known once an option's rest has been searched.\<close>

definition rest_correct :: "section_option \<Rightarrow> int list \<Rightarrow> py_error + stored_section list option \<times> search_memo \<Rightarrow> bool" where
  "rest_correct opt left r \<longleftrightarrow>
     (case r of
        Inl e \<Rightarrow> True
      | Inr (found, memo) \<Rightarrow> memo_sound (fst memo)
          \<and> (case found of
               None \<Rightarrow> \<not> list_all (\<lambda>x. x = 0) left \<and> (\<forall>t. table_at (sr_next (fst opt)) = Some (Inr t) \<longrightarrow> \<not> has_trace t left)
             | Some tail \<Rightarrow> list_all (\<lambda>x. x = 0) left \<and> tail = []
                 \<or> (\<exists>t opts. table_at (sr_next (fst opt)) = Some (Inr t) \<and> explains table_at store t left opts tail)))"

lemma rest_search:
  assumes rec: "\<And>start key opts memo y. rec start key opts memo = Some y \<Longrightarrow> search_from start key opts memo y"
    and step: "(if list_all (\<lambda>x. x = 0) left then Some (Inr (Some [], memo))
          else if sr_next (fst opt) \<ge> n \<or> leaves_early_note left (sr_next (fst opt)) \<or> (sr_next (fst opt), False, left) \<in> set (fst memo)
          then Some (Inr (None, memo))
          else Option.bind (table_at (sr_next (fst opt))) (\<lambda>t. case t of
                 Inl e \<Rightarrow> Some (Inl e)
               | Inr table \<Rightarrow> rec (tb_start table) (sr_next (fst opt), False, left) (fitting_options table left) memo)) = Some r"
    and "columns_ok left" "memo_sound (fst memo)"
  shows "rest_correct opt left r"
proof -
  let ?next = "sr_next (fst opt)"
  consider (zero) "list_all (\<lambda>x. x = 0) left"
    | (pruned) "\<not> list_all (\<lambda>x. x = 0) left" "?next \<ge> n \<or> leaves_early_note left ?next \<or> (?next, False, left) \<in> set (fst memo)"
    | (deeper) "\<not> list_all (\<lambda>x. x = 0) left" "\<not> (?next \<ge> n \<or> leaves_early_note left ?next \<or> (?next, False, left) \<in> set (fst memo))"
    by blast
  then show ?thesis
  proof cases
    case zero
    then show ?thesis using step assms(4) by (auto simp: rest_correct_def)
  next
    case pruned
    then have "r = Inr (None, memo)" using step by simp
    moreover have "\<not> has_trace t left" if "table_at ?next = Some (Inr t)" for t
      using pruned(2) early_no_trace [OF assms(3) _ that] assms(4) that unfolding memo_sound_def by blast
    ultimately show ?thesis using pruned(1) assms(4) by (simp add: rest_correct_def)
  next
    case deeper
    note step = step [unfolded if_not_P [OF deeper(1)] if_not_P [OF deeper(2)]]
    then obtain t where t: "table_at ?next = Some t" by (cases "table_at ?next") auto
    show ?thesis
    proof (cases t)
      case (Inl e)
      then show ?thesis using step t by (auto simp: rest_correct_def)
    next
      case (Inr table)
      then have "rec (tb_start table) (?next, False, left) (fitting_options table left) memo = Some r" using step t by simp
      from rec [OF this] have "search_correct table left r"
        unfolding search_from_def using assms(3,4) t Inr by auto
      then show ?thesis
        using deeper(1) t Inr by (auto simp: rest_correct_def search_correct_def split: sum.splits prod.splits option.splits)
    qed
  qed
qed

lemma search_next:
  assumes "search_from section_start key rest memo' r" "memo_sound (fst memo')"
    and "\<And>table. section_start = tb_start table \<Longrightarrow> ruled_out table (snd (snd key)) opt"
  shows "search_from section_start key (opt # rest) memo r"
  using assms unfolding search_from_def by auto

lemma search_found:
  assumes "rest_correct opt (subtract_edge (snd (snd key)) (edge_of opt)) (Inr (Some tail, memo'))"
    and "store section_start opt = Some (Inr x)"
  shows "search_from section_start key (opt # rest) memo (Inr (Some (x # tail), memo'))"
  unfolding search_from_def
proof (intro allI impI)
  fix table assume start: "section_start = tb_start table" and "set (opt # rest) \<subseteq> set (fitting_options table (snd (snd key)))"
  then have opt: "opt \<in> set (tb_options table)" "edge_fits (snd (snd key)) (edge_of opt)"
    by (auto simp: fitting_options_def edge_of_def)
  have "\<exists>opts. explains table_at store table (snd (snd key)) opts (x # tail)"
  proof (cases "list_all (\<lambda>x. x = 0) (subtract_edge (snd (snd key)) (edge_of opt)) \<and> tail = []")
    case True
    then show ?thesis using explains.last_section [OF opt] assms(2) unfolding start by auto
  next
    case False
    then obtain t opts where "table_at (sr_next (fst opt)) = Some (Inr t)"
      "explains table_at store t (subtract_edge (snd (snd key)) (edge_of opt)) opts tail"
      using assms(1) by (auto simp: rest_correct_def)
    from explains.more_sections [OF opt this] show ?thesis using assms(2) unfolding start by blast
  qed
  then show "search_correct table (snd (snd key)) (Inr (Some (x # tail), memo'))"
    using assms(1) by (simp add: search_correct_def rest_correct_def)
qed

lemma search_step:
  assumes rec: "\<And>start key opts memo y. rec start key opts memo = Some y \<Longrightarrow> search_from start key opts memo y"
    and body: "Option.bind (if list_all (\<lambda>x. x = 0) left then Some (Inr (Some [], memo))
          else if sr_next (fst opt) \<ge> n \<or> leaves_early_note left (sr_next (fst opt)) \<or> (sr_next (fst opt), False, left) \<in> set (fst memo)
          then Some (Inr (None, memo))
          else Option.bind (table_at (sr_next (fst opt))) (\<lambda>t. case t of
                 Inl e \<Rightarrow> Some (Inl e)
               | Inr table \<Rightarrow> rec (tb_start table) (sr_next (fst opt), False, left) (fitting_options table left) memo))
        (\<lambda>r. case r of
           Inl e \<Rightarrow> Some (Inl e)
         | Inr (None, memo') \<Rightarrow> rec section_start key rest memo'
         | Inr (Some tail, memo') \<Rightarrow> Option.bind (store section_start opt) (\<lambda>s.
             if s = Inl UnplayableTrace then rec section_start key rest (fst memo', True)
             else Some (map_sum id (\<lambda>x. (Some (x # tail), memo')) s))) = Some y"
    and left: "left = subtract_edge (snd (snd key)) (edge_of opt)"
  shows "search_from section_start key (opt # rest) memo y"
proof (cases "columns_ok (snd (snd key)) \<and> memo_sound (fst memo) \<and> edge_fits (snd (snd key)) (edge_of opt)")
  case True
  then have ok: "columns_ok left" unfolding left by (simp add: columns_ok_subtract)
  from body obtain r where found: "(if list_all (\<lambda>x. x = 0) left then Some (Inr (Some [], memo))
          else if sr_next (fst opt) \<ge> n \<or> leaves_early_note left (sr_next (fst opt)) \<or> (sr_next (fst opt), False, left) \<in> set (fst memo)
          then Some (Inr (None, memo))
          else Option.bind (table_at (sr_next (fst opt))) (\<lambda>t. case t of
                 Inl e \<Rightarrow> Some (Inl e)
               | Inr table \<Rightarrow> rec (tb_start table) (sr_next (fst opt), False, left) (fitting_options table left) memo)) = Some r"
    and outer: "(case r of
           Inl e \<Rightarrow> Some (Inl e)
         | Inr (None, memo') \<Rightarrow> rec section_start key rest memo'
         | Inr (Some tail, memo') \<Rightarrow> Option.bind (store section_start opt) (\<lambda>s.
             if s = Inl UnplayableTrace then rec section_start key rest (fst memo', True)
             else Some (map_sum id (\<lambda>x. (Some (x # tail), memo')) s))) = Some y"
    unfolding bind_eq_Some_conv by blast
  have inner: "rest_correct opt left r" by (rule rest_search [where rec = rec, OF rec found ok]) (use True in simp_all)
  consider (error) e where "r = Inl e" | (none) memo' where "r = Inr (None, memo')" | (some) tail memo' where "r = Inr (Some tail, memo')"
    by (metis option.exhaust sumE surj_pair)
  then show ?thesis
  proof cases
    case error
    then show ?thesis using outer by (auto simp: search_from_def search_correct_def)
  next
    case none
    have "ruled_out table (snd (snd key)) opt" for table
      using inner pruned_ruled_out [of "snd (snd key)" opt table] True unfolding none left rest_correct_def by simp
    then show ?thesis
      using search_next [OF rec, of section_start key rest memo' y opt memo] outer inner unfolding none rest_correct_def by simp
  next
    case some
    then obtain s where s: "store section_start opt = Some s" using outer by (cases "store section_start opt") auto
    have memo': "memo_sound (fst memo')" using inner unfolding some rest_correct_def by simp
    show ?thesis
    proof (cases s)
      case (Inl e)
      show ?thesis
      proof (cases "e = UnplayableTrace")
        case True
        then have "rec section_start key rest (fst memo', True) = Some y" using outer s Inl some by simp
        then have "search_from section_start key rest (fst memo', True) y" by (rule rec)
        moreover have "ruled_out table (snd (snd key)) opt" if "section_start = tb_start table" for table
          using refused_ruled_out s Inl that by simp
        ultimately show ?thesis using search_next memo' by simp
      next
        case False
        then show ?thesis using outer s Inl some by (auto simp: search_from_def search_correct_def)
      qed
    next
      case (Inr x)
      then have "y = Inr (Some (x # tail), memo')" using outer s some by simp
      then show ?thesis using search_found inner s Inr unfolding some left by blast
    qed
  qed
next
  case False
  then show ?thesis by (auto simp: search_from_def fitting_options_def edge_of_def)
qed

lemma search_spec:
  assumes "try_options table_at store n section_start key opts memo = Some r"
  shows "search_from section_start key opts memo r"
proof -
  have "T = table_at \<and> S = store \<and> N = n \<longrightarrow> search_from start k os m y"
    if "try_options T S N start k os m = Some y" for T S N start k os m y
  proof (rule try_options.raw_induct [OF _ that])
    fix rec T S N start k os m y
    assume IH: "\<And>T S N start k os m y. rec T S N start k os m = Some y \<Longrightarrow> T = table_at \<and> S = store \<and> N = n \<longrightarrow> search_from start k os m y"
      and body: "(case os of [] \<Rightarrow> Some (Inr (None, k # fst m, snd m))
        | opt # rest \<Rightarrow>
            let left = subtract_edge (snd (snd k)) (fst (snd opt)); next = sr_next (fst opt)
            in Option.bind
                 (if list_all (\<lambda>x. x = 0) left then Some (Inr (Some [], m))
                  else if N \<le> next \<or> leaves_early_note left next \<or> (next, False, left) \<in> set (fst m) then Some (Inr (None, m))
                  else Option.bind (T next) (\<lambda>t. case t of
                         Inl e \<Rightarrow> Some (Inl e)
                       | Inr table \<Rightarrow> rec T S N (tb_start table) (next, False, left) (fitting_options table left) m))
                 (\<lambda>r. case r of
                    Inl e \<Rightarrow> Some (Inl e)
                  | Inr (None, memo') \<Rightarrow> rec T S N start k rest memo'
                  | Inr (Some tail, memo') \<Rightarrow> Option.bind (S start opt) (\<lambda>s.
                      if s = Inl UnplayableTrace then rec T S N start k rest (fst memo', True)
                      else Some (map_sum id (\<lambda>x. (Some (x # tail), memo')) s)))) = Some y"
    show "T = table_at \<and> S = store \<and> N = n \<longrightarrow> search_from start k os m y"
    proof (intro impI, elim conjE)
      assume eqs: "T = table_at" "S = store" "N = n"
      note body = body [unfolded eqs]
      have rec: "search_from start k os m y" if "rec table_at store n start k os m = Some y" for start k os m y
        using IH [OF that] by simp
      show "search_from start k os m y"
      proof (cases os)
        case Nil
        then show ?thesis using body search_end [of start k m] by simp
      next
        case (Cons opt rest)
        show ?thesis
          unfolding Cons
          by (rule search_step [where rec = "rec table_at store n", OF rec _ refl])
            (use body Cons in \<open>simp_all only: Let_def edge_of_def list.case\<close>)
      qed
    qed
  qed
  then show ?thesis using assms by blast
qed

lemma search_correct:
  assumes "try_options table_at store n (tb_start table) (state, True, left) (fitting_options table left) ([], False) = Some r"
    and "columns_ok left"
  shows "search_correct table left r"
  using search_spec [OF assms(1)] assms(2) unfolding search_from_def by (simp add: memo_sound_def)

end


text \<open>A song's own tables are such tables.\<close>

lemma section_table_rows:
  assumes "section_table_at ctx non_fever_base state first = Some (Inr table)"
  shows "tb_start table = (if first then 0 else state + 1)"
    and "opt \<in> set (tb_options table) \<Longrightarrow> option_wf (length (sc_ts ctx)) (tb_start table) opt"
proof -
  obtain actions fills forced rows where "section_rows ctx actions fills forced first state = Some (Inr rows)"
    "table = \<lparr>tb_start = (if first then 0 else state + 1), tb_options = rows\<rparr>"
    using assms by (auto simp: section_table_at_def Let_def)
  then show "tb_start table = (if first then 0 else state + 1)"
    and "opt \<in> set (tb_options table) \<Longrightarrow> option_wf (length (sc_ts ctx)) (tb_start table) opt"
    using section_rows_wf by auto
qed

interpretation song_tables:
    trace_tables "\<lambda>state. section_table_at ctx non_fever_base state False" "stored_section_of ctx" "length (sc_ts ctx)"
  for ctx non_fever_base
proof
  fix state table opt and k :: nat
  assume table: "section_table_at ctx non_fever_base state False = Some (Inr table)"
  show "tb_options table = []" if "length (sc_ts ctx) \<le> state"
    using table section_rows_past [OF that] by (auto simp: section_table_at_def Let_def)
  assume opt: "opt \<in> set (tb_options table)"
  have wf: "option_wf (length (sc_ts ctx)) (Suc state) opt"
    using section_table_rows [OF table] opt by simp
  then show "state < sr_next (fst opt)" by (auto simp: option_wf_def split: prod.splits)
  assume "k < 128" "k \<le> state"
  then show "\<not> bit (edge_of opt ! (k div 64)) (k mod 64) \<and> \<not> bit (edge_of opt ! (2 + k div 64)) (k mod 64)"
    using wf row_edge_bits [OF \<open>k < 128\<close>] by (auto simp: option_wf_def edge_of_def split: prod.splits)
qed

text \<open>A surface whose words are 32-bit and whose counts are 64-bit.\<close>

definition surface_ok :: "fg_surface \<Rightarrow> bool" where
  "surface_ok s \<longleftrightarrow> list_all (\<lambda>w. 0 \<le> w \<and> w < 2 ^ 32) (fever_words s @ great_words s)
     \<and> list_all (\<lambda>c. 0 \<le> c \<and> c < 2 ^ 64) [body_fever s, body_great s, body_fever_great s]"

lemma two_words:
  fixes lo hi :: int
  assumes "0 \<le> lo" "lo < 2 ^ 32" "0 \<le> hi" "hi < 2 ^ 32"
  shows "0 \<le> lo OR push_bit 32 hi" "lo OR push_bit 32 hi < 2 ^ 64"
    and "bit (lo OR push_bit 32 hi) k \<longleftrightarrow> (if k < 32 then bit lo k else bit hi (k - 32))"
proof -
  have "\<not> bit lo j" if "32 \<le> j" for j
  proof -
    have "lo < 2 ^ j" using assms(2) power_increasing [of 32 j "2 :: int"] that by simp
    then show ?thesis using assms(1) by (simp add: bit_iff_odd)
  qed
  then show bits: "bit (lo OR push_bit 32 hi) k \<longleftrightarrow> (if k < 32 then bit lo k else bit hi (k - 32))" for k
    by (auto simp: bit_or_iff bit_push_bit_iff)
  show "0 \<le> lo OR push_bit 32 hi" using assms by simp
  have "lo OR push_bit 32 hi = lo + push_bit 32 hi"
  proof (rule disjunctive_add [symmetric])
    fix j show "\<not> bit lo j \<or> \<not> bit (push_bit 32 hi) j"
      using \<open>\<And>j. 32 \<le> j \<Longrightarrow> \<not> bit lo j\<close> by (auto simp: bit_push_bit_iff)
  qed
  then show "lo OR push_bit 32 hi < 2 ^ 64" using assms by (simp add: push_bit_eq_mult)
qed

lemma word_places:
  fixes k :: nat
  assumes "k < 128"
  obtains (w0) j where "k = j" "j < 32" "k div 64 = 0" "k mod 64 = j" "k div 32 = 0" "k mod 32 = j"
    | (w1) j where "k = 32 + j" "j < 32" "k div 64 = 0" "k mod 64 = 32 + j" "k div 32 = 1" "k mod 32 = j"
    | (w2) j where "k = 64 + j" "j < 32" "k div 64 = 1" "k mod 64 = j" "k div 32 = 2" "k mod 32 = j"
    | (w3) j where "k = 96 + j" "j < 32" "k div 64 = 1" "k mod 64 = 32 + j" "k div 32 = 3" "k mod 32 = j"
proof -
  have split: "k div 64 = k div 32 div 2" "k mod 64 = 32 * (k div 32 mod 2) + k mod 32"
    by (simp_all add: div_mult2_eq [symmetric] mod_mult2_eq [of k 32 2, simplified])
  have k: "k = 32 * (k div 32) + k mod 32" "k mod 32 < 32" by simp_all
  have "k div 32 < 4" using assms by simp
  then consider "k div 32 = 0" | "k div 32 = 1" | "k div 32 = 2" | "k div 32 = 3" by linarith
  then show thesis
  proof cases
    case 1 then show thesis using w0 [of "k mod 32"] k split by simp
  next
    case 2 then show thesis using w1 [of "k mod 32"] k split by simp
  next
    case 3 then show thesis using w2 [of "k mod 32"] k split by simp
  next
    case 4 then show thesis using w3 [of "k mod 32"] k split by simp
  qed
qed

lemma edge_of_surface_columns:
  assumes "surface_ok s"
  shows "columns_ok (edge_of_surface s)"
    and "k < 128 \<Longrightarrow> bit (edge_of_surface s ! (k div 64)) (k mod 64) \<longleftrightarrow> surface_bit (fever_words s) k"
    and "k < 128 \<Longrightarrow> bit (edge_of_surface s ! (2 + k div 64)) (k mod 64) \<longleftrightarrow> surface_bit (great_words s) k"
proof -
  note ok = assms [unfolded surface_ok_def fever_words_def great_words_def, simplified]
  note words = two_words [of "fever0 s" "fever1 s"] two_words [of "fever2 s" "fever3 s"]
    two_words [of "great0 s" "great1 s"] two_words [of "great2 s" "great3 s"]
  have "0 \<le> edge_of_surface s ! c \<and> edge_of_surface s ! c < 2 ^ 64" if c: "c < 7" for c
  proof -
    consider "c = 0" | "c = 1" | "c = 2" | "c = 3" | "c = 4" | "c = 5" | "c = 6"
      using c unfolding less_7_cases by blast
    then show ?thesis
      using words(1,2,4,5,7,8,10,11) ok by cases (simp_all add: edge_of_surface_def)
  qed
  then show "columns_ok (edge_of_surface s)" by (simp add: columns_ok_def edge_of_surface_def)
  assume "k < 128"
  then have "(bit (edge_of_surface s ! (k div 64)) (k mod 64) \<longleftrightarrow> surface_bit (fever_words s) k)
    \<and> (bit (edge_of_surface s ! (2 + k div 64)) (k mod 64) \<longleftrightarrow> surface_bit (great_words s) k)"
    using words(3,6,9,12) ok
    by (cases rule: word_places) (simp_all add: edge_of_surface_def surface_bit_bit fever_words_def great_words_def)
  then show "bit (edge_of_surface s ! (k div 64)) (k mod 64) \<longleftrightarrow> surface_bit (fever_words s) k"
    "bit (edge_of_surface s ! (2 + k div 64)) (k mod 64) \<longleftrightarrow> surface_bit (great_words s) k" by simp_all
qed

section \<open>A returned trace\<close>

text \<open>The notes of a stored section: in its fever; played as Greats.\<close>

definition section_in_fever :: "stored_section \<Rightarrow> nat \<Rightarrow> bool" where
  "section_in_fever x k \<longleftrightarrow> st_activation x \<le> k \<and> k < st_fever_end x"

definition section_plays_great :: "stored_section \<Rightarrow> nat \<Rightarrow> bool" where
  "section_plays_great x k \<longleftrightarrow> st_run_start x \<le> k \<and> k < st_run_start x + st_run_count x
     \<or> st_judgment x = ''late_great'' \<and> k = st_activation x \<or> st_early_start x \<le> int k \<and> int k < st_early_end x"

lemma stored_section_row:
  assumes "stored_section_of ctx start (row, edge, hit_lo, hit_hi) = Some (Inr x)"
  shows "st_activation x = sr_activation row \<and> st_fever_end x = sr_next row \<and> st_run_start x = sr_run_start row
    \<and> st_run_count x = sr_run_count row \<and> (st_judgment x = ''late_great'' \<longleftrightarrow> sr_late row)
    \<and> st_early_start x = sr_tail_start row \<and> st_early_end x = sr_tail_end row
    \<and> st_body_fever x = uint (edge ! 4) \<and> st_body_great x = uint (edge ! 5) \<and> st_body_fever_great x = uint (edge ! 6)"
proof -
  let ?window = "centered_hit_window (length (sc_ts ctx)) (sr_activation row) hit_lo hit_hi (sc_fever_time ctx) (sr_target_end row)
    (ht_perfect_floor (sc_times ctx)) (if sr_early_exit row then Some (sc_exit_ceiling ctx) else None)"
  note stored = assms [unfolded stored_section_of_def prod.case Let_def]
  obtain r where "?window = Some r" using stored by (cases ?window) simp_all
  note stored = stored [unfolded this option.map option.inject]
  obtain hit hit_lo' hit_hi' where "r = Inr (hit, hit_lo', hit_hi')" using stored by (cases r) auto
  note stored = stored [unfolded this bind_res_simps prod.case]
  obtain source first_note start_ms
    where "fever_start_fields hit (sc_ts ctx ! sr_activation row) (sr_activation row) (sr_late row) = (source, first_note, start_ms)"
    by (rule prod_cases3)
  note stored = stored [unfolded this prod.case]
  show ?thesis
    using stored by (cases "sr_late row") (auto simp: bind_res_eq_Inr split: option.splits)
qed

lemma list_all2_map_eq: "list_all2 (\<lambda>x y. f x = g y) xs ys \<Longrightarrow> map f xs = map g ys"
  by (induction rule: list_all2_induct) auto

lemma length_filter_map_eq: "map P xs = map Q ys \<Longrightarrow> length (filter P xs) = length (filter Q ys)"
  by (induction xs arbitrary: ys) (auto simp: Cons_eq_map_conv split: if_splits)

text \<open>The trace the search returns is made of options of the song's tables.\<close>

abbreviation song_explains where
  "song_explains ctx non_fever_base \<equiv>
     explains (\<lambda>state. section_table_at ctx non_fever_base state False) (stored_section_of ctx)"

lemma reconstruct_trace_explains:
  assumes "reconstruct_trace inp non_fever_base s raw rft = Some (Inr trace)" "surface_ok s"
    and "fi_timestamps inp \<noteq> []" "s \<noteq> EMPTY_SURFACE"
  obtains ctx table opts xs where "trace = zip xs [1..<Suc (length xs)]"
    "section_table_at ctx non_fever_base 0 True = Some (Inr table)"
    "song_explains ctx non_fever_base table (edge_of_surface s) opts xs"
proof -
  obtain ctx where ctx: "trace_context inp raw rft = Inr ctx"
    using assms(1,3,4) by (auto simp: reconstruct_trace_def split: sum.splits)
  obtain t where t: "section_table_at ctx non_fever_base 0 True = Some t"
    using assms(1,3,4) by (auto simp: reconstruct_trace_def ctx bind_eq_Some_conv)
  then obtain table where table: "section_table_at ctx non_fever_base 0 True = Some (Inr table)"
    using assms(1,3,4) by (cases t) (auto simp: reconstruct_trace_def ctx)
  obtain r where r: "search_trace ctx non_fever_base table (edge_of_surface s) = Some r"
    and trace: "bind_res r (\<lambda>(trace, memo). case trace of
        Some sections \<Rightarrow> Inr (zip sections [1..<Suc (length sections)])
      | None \<Rightarrow> Inl (if snd memo then UnplayableTrace else ValueError)) = (Inr trace :: (stored_section \<times> nat) list res)"
    using assms(1,3,4) by (auto simp: reconstruct_trace_def ctx table)
  obtain xs memo where found: "r = Inr (Some xs, memo)" "trace = zip xs [1..<Suc (length xs)]"
    using trace by (auto simp: bind_res_eq_Inr split: option.splits prod.splits)
  have "song_tables.search_correct ctx non_fever_base table (edge_of_surface s) r"
    using r edge_of_surface_columns(1) [OF assms(2)] unfolding search_trace_def by (rule song_tables.search_correct)
  then show thesis using that [OF found(2) table] by (auto simp: found song_tables.search_correct_def)
qed

lemma trace_sections:
  assumes "section_table_at ctx non_fever_base 0 True = Some (Inr table)"
    and "song_explains ctx non_fever_base table left opts xs"
  shows "k < 128 \<Longrightarrow> map (\<lambda>opt. bit (edge_of opt ! (k div 64)) (k mod 64)) opts = map (\<lambda>x. k < 100 \<and> section_in_fever x k) xs"
    and "k < 128 \<Longrightarrow> map (\<lambda>opt. bit (edge_of opt ! (2 + k div 64)) (k mod 64)) opts = map (\<lambda>x. k < 100 \<and> section_plays_great x k) xs"
    and "map (\<lambda>opt. uint (edge_of opt ! 4)) opts = map st_body_fever xs"
    and "map (\<lambda>opt. uint (edge_of opt ! 5)) opts = map st_body_great xs"
    and "map (\<lambda>opt. uint (edge_of opt ! 6)) opts = map st_body_fever_great xs"
proof -
  let ?n = "length (sc_ts ctx)"
  have stored: "list_all2 (\<lambda>opt x. \<exists>start. option_wf ?n start opt \<and> stored_section_of ctx start opt = Some (Inr x)) opts xs"
    by (rule list_all2_mono [OF explains_stored [OF assms(2)]]) (use section_table_rows(2) assms(1) in blast)
  have marks: "bit (edge_of opt ! (k div 64)) (k mod 64) = (k < 100 \<and> section_in_fever x k)
      \<and> bit (edge_of opt ! (2 + k div 64)) (k mod 64) = (k < 100 \<and> section_plays_great x k)"
    if "k < 128" "option_wf ?n start opt" "stored_section_of ctx start opt = Some (Inr x)" for start opt x and k :: nat
  proof -
    obtain row edge lo hi where opt: "opt = (row, edge, lo, hi)" by (cases opt)
    have edge: "edge = row_edge ?n row" and wf: "sr_activation row < ?n" "sr_next row \<le> ?n" "sr_run_start row + sr_run_count row \<le> ?n"
        "sr_tail_start row < sr_tail_end row \<longrightarrow> sr_tail_end row = int (sr_next row)"
      using that(2) unfolding opt option_wf_def prod.case by linarith+
    note x = stored_section_row [OF that(3) [unfolded opt]]
    have "edge_of opt = row_edge ?n row" by (simp add: edge_of_def opt edge)
    moreover have "section_in_fever x k \<longleftrightarrow> sr_activation row \<le> k \<and> k < sr_next row" "section_in_fever x k \<Longrightarrow> k < ?n"
      using x wf by (simp_all add: section_in_fever_def)
    moreover have "section_plays_great x k \<longleftrightarrow> sr_run_start row \<le> k \<and> k < sr_run_start row + sr_run_count row
        \<or> sr_late row \<and> k = sr_activation row \<or> sr_tail_start row \<le> int k \<and> int k < sr_tail_end row"
      using x by (simp add: section_plays_great_def)
    moreover from this have "section_plays_great x k \<Longrightarrow> k < ?n" using wf by linarith
    ultimately show ?thesis using row_edge_bits [OF that(1), of ?n row] by (simp only:) blast
  qed
  have counts: "uint (edge_of opt ! 4) = st_body_fever x \<and> uint (edge_of opt ! 5) = st_body_great x
      \<and> uint (edge_of opt ! 6) = st_body_fever_great x"
    if "stored_section_of ctx start opt = Some (Inr x)" for start opt x
    using that stored_section_row [of ctx start "fst opt" "fst (snd opt)" "fst (snd (snd opt))" "snd (snd (snd opt))" x]
    by (simp add: edge_of_def)
  show "map (\<lambda>opt. bit (edge_of opt ! (k div 64)) (k mod 64)) opts = map (\<lambda>x. k < 100 \<and> section_in_fever x k) xs" if "k < 128"
    by (intro list_all2_map_eq list_all2_mono [OF stored]) (use marks that in blast)
  show "map (\<lambda>opt. bit (edge_of opt ! (2 + k div 64)) (k mod 64)) opts = map (\<lambda>x. k < 100 \<and> section_plays_great x k) xs" if "k < 128"
    by (intro list_all2_map_eq list_all2_mono [OF stored]) (use marks that in blast)
  show "map (\<lambda>opt. uint (edge_of opt ! 4)) opts = map st_body_fever xs"
    "map (\<lambda>opt. uint (edge_of opt ! 5)) opts = map st_body_great xs"
    "map (\<lambda>opt. uint (edge_of opt ! 6)) opts = map st_body_fever_great xs"
    by (intro list_all2_map_eq list_all2_mono [OF stored]; use counts in blast)+
qed

section \<open>A three-note song\<close>

text \<open>Notes on three lanes hit at their chart times; the bar fills on the second note.\<close>

definition steady_song :: fg_song_inputs where
  "steady_song = \<lparr>fi_timestamps = [1, 2, 3], fi_perfect = [1, 2, 3], fi_great = [1, 2, 3],
     fi_perfect_floor = [1, 2, 3], fi_great_floor = [1, 2, 3], fi_late_great_floor = None, fi_exit_ceiling = None,
     fi_lanes = [1, 2, 3], fi_forced_great_timing = False\<rparr>"

definition steady_context :: section_context where
  "steady_context = \<lparr>sc_ts = [1, 2, 3],
     sc_times = \<lparr>ht_perfect_floor = [1, 2, 3], ht_perfect = [1, 2, 3], ht_great_floor = [1, 2, 3], ht_great = [1, 2, 3],
       ht_late_floor = [8396997 / 8388608, 8392802 / 4194304, 12587106 / 4194304]\<rparr>,
     sc_exit_ceiling = [Some 1, Some 2, Some 3], sc_lanes = [1, 2, 3], sc_fill_denom = 2, sc_fever_time = 1 / 2,
     sc_forced_timing = False\<rparr>"

definition steady_option :: section_option where
  "steady_option = (\<lparr>sr_forced = 0, sr_next = 2, sr_activation = 1, sr_late = False, sr_run_start = 0, sr_run_count = 0,
     sr_tail_start = - 1, sr_tail_end = - 1, sr_target_end = 2, sr_early_exit = False\<rparr>, [2, 0, 0, 0, 0, 0, 0], 2, 2)"

definition steady_surface :: fg_surface where
  "steady_surface = EMPTY_SURFACE\<lparr>fever0 := 2\<rparr>"

lemma steady_context: "trace_context steady_song 2 (1 / 2) = Inr steady_context"
  by code_simp

lemma steady_table: "section_table_at steady_context 0 0 True = Some (Inr \<lparr>tb_start = 0, tb_options = [steady_option]\<rparr>)"
  by code_simp

lemma steady_fits: "fitting_options \<lparr>tb_start = 0, tb_options = [steady_option]\<rparr> (edge_of_surface steady_surface) = [steady_option]"
  "subtract_edge (edge_of_surface steady_surface) (fst (snd steady_option)) = [0, 0, 0, 0, 0, 0, 0]"
  by code_simp+

lemma steady_stored:
  "\<exists>x. stored_section_of steady_context 0 steady_option = Some (Inr x) \<and> st_activation x = 1 \<and> st_preactivation_order x = [0]"
proof -
  have "(case stored_section_of steady_context 0 steady_option of
      Some (Inr x) \<Rightarrow> st_activation x = 1 \<and> st_preactivation_order x = [0] | _ \<Rightarrow> False)" by code_simp
  then show ?thesis by (simp split: option.splits sum.splits)
qed

lemma steady_trace:
  "\<exists>x. search_trace steady_context 0 \<lparr>tb_start = 0, tb_options = [steady_option]\<rparr> (edge_of_surface steady_surface)
      = Some (Inr (Some [x], [], False)) \<and> st_activation x = 1
    \<and> reconstruct_trace steady_song 0 steady_surface 2 (1 / 2) = Some (Inr [(x, 1)])"
proof -
  obtain x where x: "stored_section_of steady_context 0 steady_option = Some (Inr x)" "st_activation x = 1"
    using steady_stored by blast
  have search: "search_trace steady_context 0 \<lparr>tb_start = 0, tb_options = [steady_option]\<rparr> (edge_of_surface steady_surface)
      = Some (Inr (Some [x], [], False))"
    unfolding search_trace_def steady_fits(1)
    by (subst try_options.simps) (simp add: steady_fits(2) x)
  moreover have "fi_timestamps steady_song \<noteq> [] \<and> steady_surface \<noteq> EMPTY_SURFACE" by code_simp
  ultimately have "reconstruct_trace steady_song 0 steady_surface 2 (1 / 2) = Some (Inr [(x, 1)])"
    by (simp add: reconstruct_trace_def steady_context steady_table)
  then show ?thesis using search x(2) by blast
qed
text \<open>C4: the sections of a returned trace mark exactly the surface they were searched for: each of the first
  hundred notes is in the fever of exactly one section when the surface has it in fever and of none
  otherwise, the same for its Greats, no note past them is marked in the head, and the sections' body
  counts add up to the surface's. The sections are numbered from one.\<close>

theorem reconstruct_trace_marks_surface:
  assumes "reconstruct_trace inp non_fever_base s raw rft = Some (Inr trace)" "surface_ok s" "fi_timestamps inp \<noteq> []"
  shows "map snd trace = [1..<Suc (length trace)]
    \<and> (\<forall>k < 128.
         length (filter (\<lambda>x. k < 100 \<and> section_in_fever x k) (map fst trace)) = of_bool (surface_bit (fever_words s) k)
         \<and> length (filter (\<lambda>x. k < 100 \<and> section_plays_great x k) (map fst trace)) = of_bool (surface_bit (great_words s) k))
    \<and> (\<Sum>x \<leftarrow> map fst trace. st_body_fever x) = body_fever s
    \<and> (\<Sum>x \<leftarrow> map fst trace. st_body_great x) = body_great s
    \<and> (\<Sum>x \<leftarrow> map fst trace. st_body_fever_great x) = body_fever_great s"
proof (cases "s = EMPTY_SURFACE")
  case True
  then have trace: "trace = []" using assms(1) by (simp add: reconstruct_trace_def)
  have bits: "\<not> surface_bit (fever_words s) k \<and> \<not> surface_bit (great_words s) k" if "k < 128" for k
    using that unfolding True
    by (cases rule: word_places) (simp_all add: EMPTY_SURFACE_def surface_bit_bit fever_words_def great_words_def)
  have body: "body_fever s = 0 \<and> body_great s = 0 \<and> body_fever_great s = 0" by (simp add: True EMPTY_SURFACE_def)
  show ?thesis
    unfolding trace
  proof (intro conjI allI impI)
    fix k :: nat assume "k < 128"
    from bits [OF this] have "surface_bit (fever_words s) k = False" "surface_bit (great_words s) k = False" by blast+
    then show "length (filter (\<lambda>x. k < 100 \<and> section_in_fever x k) (map fst [])) = of_bool (surface_bit (fever_words s) k)"
      "length (filter (\<lambda>x. k < 100 \<and> section_plays_great x k) (map fst [])) = of_bool (surface_bit (great_words s) k)"
      by (simp_all only: list.map filter.simps list.size of_bool_eq)
  next
    show "map snd ([] :: (stored_section \<times> nat) list) = [1..<Suc (length ([] :: (stored_section \<times> nat) list))]" by simp
  qed (simp_all only: body list.map sum_list.Nil)
next
  case False
  obtain ctx table opts xs
    where trace: "trace = zip xs [1..<Suc (length xs)]"
      and table: "section_table_at ctx non_fever_base 0 True = Some (Inr table)"
      and explains: "song_explains ctx non_fever_base table (edge_of_surface s) opts xs"
    by (rule reconstruct_trace_explains [OF assms False])
  have sections: "map fst trace = xs" "map snd trace = [1..<Suc (length xs)]" "length trace = length xs"
    unfolding trace by (simp_all del: upt_Suc)
  note columns = edge_of_surface_columns [OF assms(2)]
  have c: "k div 64 < 4" "2 + k div 64 < 4" if "k < 128" for k :: nat
    using that by (simp_all add: less_mult_imp_div_less)
  note bits = explains_bits [OF explains columns(1)] and counts = explains_counts [OF explains columns(1)]
  note rows = trace_sections [OF table explains]
  have "length (filter (\<lambda>x. k < 100 \<and> section_in_fever x k) xs) = of_bool (surface_bit (fever_words s) k)"
    and "length (filter (\<lambda>x. k < 100 \<and> section_plays_great x k) xs) = of_bool (surface_bit (great_words s) k)" if "k < 128" for k
    by (simp_all only: length_filter_map_eq [OF rows(1) [OF that], symmetric] length_filter_map_eq [OF rows(2) [OF that], symmetric]
        bits [OF c(1) [OF that]] bits [OF c(2) [OF that]] columns(2,3) [OF that])
  moreover have "(\<Sum>x \<leftarrow> xs. st_body_fever x) = body_fever s" "(\<Sum>x \<leftarrow> xs. st_body_great x) = body_great s"
    "(\<Sum>x \<leftarrow> xs. st_body_fever_great x) = body_fever_great s"
    using counts [of 4] counts [of 5] counts [of 6] by (simp_all add: rows(3-5) edge_of_surface_def)
  ultimately show ?thesis unfolding sections by blast
qed

lemma reconstruct_trace_marks_surface_witness:
  "\<exists>x. reconstruct_trace steady_song 0 steady_surface 2 (1 / 2) = Some (Inr [(x, 1)]) \<and> section_in_fever x 1
     \<and> \<not> section_in_fever x 2 \<and> st_body_fever x = 0"
proof -
  obtain x where trace: "reconstruct_trace steady_song 0 steady_surface 2 (1 / 2) = Some (Inr [(x, 1)])"
    using steady_trace by blast
  have ok: "surface_ok steady_surface" "fi_timestamps steady_song \<noteq> []" by code_simp+
  have bits: "surface_bit (fever_words steady_surface) 1" "\<not> surface_bit (fever_words steady_surface) 2" "body_fever steady_surface = 0"
    by code_simp+
  have fever: "length (filter (\<lambda>x. k < 100 \<and> section_in_fever x k) (map fst [(x, 1 :: nat)])) = of_bool (surface_bit (fever_words steady_surface) k)"
    if "k < 128" for k
    using reconstruct_trace_marks_surface [OF trace ok] that by blast
  have "section_in_fever x 1" using fever [of 1] bits(1) by (simp split: if_splits)
  moreover have "\<not> section_in_fever x 2" using fever [of 2] bits(2) by (simp split: if_splits)
  moreover have "(\<Sum>x \<leftarrow> map fst [(x, 1 :: nat)]. st_body_fever x) = body_fever steady_surface"
    using reconstruct_trace_marks_surface [OF trace ok] by blast
  then have "st_body_fever x = 0" using bits(3) by simp
  ultimately have "section_in_fever x 1 \<and> \<not> section_in_fever x 2 \<and> st_body_fever x = 0" by blast
  then show ?thesis using trace by blast
qed

text \<open>C5: the search is complete: whatever it remembers and refuses early, it comes back without a trace only when
  no sequence of sections of the song's tables adds up to the surface with every section playable.\<close>

theorem trace_search_complete:
  assumes "section_table_at ctx non_fever_base 0 True = Some (Inr table)" "surface_ok s"
    and "search_trace ctx non_fever_base table (edge_of_surface s) = Some (Inr (found, memo))"
  shows "(\<exists>xs. found = Some xs) \<longleftrightarrow> (\<exists>opts xs. song_explains ctx non_fever_base table (edge_of_surface s) opts xs)"
proof -
  have "song_tables.search_correct ctx non_fever_base table (edge_of_surface s) (Inr (found, memo))"
    using assms(3) edge_of_surface_columns(1) [OF assms(2)] unfolding search_trace_def by (rule song_tables.search_correct)
  then show ?thesis by (cases found) (auto simp: song_tables.search_correct_def)
qed

lemma trace_search_complete_witness:
  "\<exists>opts xs. song_explains steady_context 0 \<lparr>tb_start = 0, tb_options = [steady_option]\<rparr> (edge_of_surface steady_surface) opts xs"
proof -
  obtain x where "search_trace steady_context 0 \<lparr>tb_start = 0, tb_options = [steady_option]\<rparr> (edge_of_surface steady_surface)
      = Some (Inr (Some [x], [], False))" using steady_trace by blast
  moreover have "surface_ok steady_surface" by code_simp
  ultimately show ?thesis using trace_search_complete [OF steady_table] by blast
qed

end
