(* ===== verification/HitSchedule.thy ===== *)
theory HitSchedule
  imports Timing Sorting
begin

text \<open>
  trace/hit_schedule.py: the hit times of a plan whose judgments, order and fever are fixed. The order
  merges the lanes; the times solve a system of difference constraints in binary64, by passes that
  run until nothing moves. A loop that does not end is the value None. An absent early band stands
  for the bounds +inf, -inf, and an absent latest hit for +inf.
\<close>

section \<open>Constants and inputs\<close>

definition FASTEST_FRAME_MS :: f64 where "FASTEST_FRAME_MS = div64 1000 360"
definition PAIR_SPAN_MS :: f64 where "PAIR_SPAN_MS = add64 390 FRAME_MARGIN_MS"
definition STRICT_MS :: f64 where "STRICT_MS = r64 (1 / 10 ^ 6)"
definition SLACK_MS :: f64 where "SLACK_MS = r64 (1 / 10 ^ 9)"

record inputs =
  in_chart_ms :: "f64 list"
  in_low_ms :: "f64 list"
  in_high_ms :: "f64 list"
  in_reach_ms :: "f64 list"
  in_early_ms :: "(f64 \<times> f64) option list"
  in_lane :: "nat list"
  in_tail :: "bool list"
  in_great :: "bool list"
  in_fever :: "bool list"

record links =
  link_before :: "nat list"
  link_after :: "nat list"
  link_fixed :: "f64 list"
  link_into :: "nat list"
  link_into_start :: "nat list"
  link_back :: "nat list"

section \<open>The input order\<close>

text \<open>Each lane's notes wait in chart order. \<open>waits\<close> counts the links still holding a note; a link's
  notes are given in pairs (before, after).\<close>

record order_state =
  lane_queues :: "nat list list"
  waits :: "nat list"

definition lane_queue :: "nat list \<Rightarrow> nat \<Rightarrow> nat list" where
  "lane_queue lane_of col = filter (\<lambda>i. lane_of ! i = col) [0..<length lane_of]"

definition order_start :: "nat list \<Rightarrow> (nat \<times> nat) list \<Rightarrow> order_state" where
  "order_start lane_of pairs =
     \<lparr>lane_queues = map (lane_queue lane_of) [0..<(if lane_of = [] then 1 else Max (set lane_of) + 1)],
      waits = map (\<lambda>i. length (filter (\<lambda>p. snd p = i) pairs)) [0..<length lane_of]\<rparr>"

text \<open>The lowest-ranked lane head that waits for nothing.\<close>

definition better_head :: "nat list \<Rightarrow> nat list \<Rightarrow> nat list \<Rightarrow> nat option \<Rightarrow> nat option" where
  "better_head rank ws queue best =
     (case queue of [] \<Rightarrow> best
      | i # _ \<Rightarrow> if ws ! i = 0 \<and> (case best of None \<Rightarrow> True | Some b \<Rightarrow> rank ! i < rank ! b) then Some i else best)"

definition best_head :: "nat list \<Rightarrow> order_state \<Rightarrow> nat option" where
  "best_head rank s = fold (better_head rank (waits s)) (lane_queues s) None"

text \<open>The notes released by \<open>best\<close>, in the order of the links.\<close>

definition released :: "(nat \<times> nat) list \<Rightarrow> nat \<Rightarrow> nat list" where
  "released pairs best = map snd (filter (\<lambda>p. fst p = best) pairs)"

definition take_head :: "nat list \<Rightarrow> (nat \<times> nat) list \<Rightarrow> nat \<Rightarrow> order_state \<Rightarrow> order_state" where
  "take_head lane_of pairs best s =
     \<lparr>lane_queues = (lane_queues s)[lane_of ! best := tl (lane_queues s ! (lane_of ! best))],
      waits = fold (\<lambda>i ws. ws[i := ws ! i - 1]) (released pairs best) (waits s)\<rparr>"

fun order_from :: "nat list \<Rightarrow> nat list \<Rightarrow> (nat \<times> nat) list \<Rightarrow> nat \<Rightarrow> order_state \<Rightarrow> nat list option" where
  "order_from lane_of rank pairs 0 s = Some []"
| "order_from lane_of rank pairs (Suc k) s =
     (case best_head rank s of None \<Rightarrow> None
      | Some best \<Rightarrow> map_option ((#) best) (order_from lane_of rank pairs k (take_head lane_of pairs best s)))"

definition input_order_of :: "nat list \<Rightarrow> nat list \<Rightarrow> (nat \<times> nat) list \<Rightarrow> nat list" where
  "input_order_of lane_of rank pairs =
     (case order_from lane_of rank pairs (length rank) (order_start lane_of pairs) of None \<Rightarrow> [] | Some xs \<Rightarrow> xs)"

section \<open>The constraints\<close>

definition earliest_low :: "inputs \<Rightarrow> nat \<Rightarrow> f64" where
  "earliest_low inp k = (case in_early_ms inp ! k of None \<Rightarrow> in_low_ms inp ! k | Some (low, _) \<Rightarrow> min (in_low_ms inp ! k) low)"

definition pair_scores :: "inputs \<Rightarrow> bool list \<Rightarrow> bool list \<Rightarrow> nat \<Rightarrow> nat \<Rightarrow> bool" where
  "pair_scores inp activation wasted x y \<longleftrightarrow>
     \<not> (in_lane inp ! x = in_lane inp ! y \<or> in_great inp ! x = in_great inp ! y)
     \<and> \<not> earliest_low inp y \<ge> add64 (in_high_ms inp ! x) FRAME_MARGIN_MS
     \<and> \<not> (activation ! x \<and> in_great inp ! x \<and> x \<ge> 100)
     \<and> (y < 100 \<or> activation ! x \<or> activation ! y \<or> wasted ! x \<or> wasted ! y)"

definition scored_pairs :: "inputs \<Rightarrow> bool list \<Rightarrow> bool list \<Rightarrow> (nat \<times> nat) list" where
  "scored_pairs inp activation wasted =
     (let n = length (in_chart_ms inp)
      in concat (map (\<lambda>x. map (Pair x) (filter (pair_scores inp activation wasted x)
           (takeWhile (\<lambda>y. \<not> sub64 (in_chart_ms inp ! y) (in_chart_ms inp ! x) > PAIR_SPAN_MS) [x + 1..<n]))) [0..<n]))"

type_synonym schedule_section = "nat \<times> nat \<times> f64"

definition section_fever :: "inputs \<Rightarrow> schedule_section \<Rightarrow> nat option \<times> nat option" where
  "section_fever inp sec = (case sec of (first, stop, _) \<Rightarrow>
     fold (\<lambda>k (last_in, out). if in_fever inp ! k then (Some k, out) else (last_in, if out = None then Some k else out))
       [first + 1..<stop] (None, None))"

definition section_links :: "inputs \<Rightarrow> schedule_section \<Rightarrow> (nat \<times> nat \<times> f64) list" where
  "section_links inp sec = (case sec of (first, stop, duration) \<Rightarrow>
     case section_fever inp sec of (last_in, out) \<Rightarrow>
       (case out of None \<Rightarrow> [] | Some k \<Rightarrow> [(first, k, add64 duration STRICT_MS)])
       @ (case last_in of None \<Rightarrow> [] | Some k \<Rightarrow> [(k, first, sub64 STRICT_MS duration)]))"

fun lane_links :: "nat list \<Rightarrow> bool list \<Rightarrow> (nat \<Rightarrow> nat option) \<Rightarrow> nat \<Rightarrow> (nat \<times> nat \<times> f64) list" where
  "lane_links [] tails last_on k = []"
| "lane_links (l # ls) tails last_on k =
     (case last_on l of Some b \<Rightarrow> if tails ! k then [] else [(b, k, 0)] | None \<Rightarrow> [])
     @ lane_links ls tails (last_on(l := Some k)) (Suc k)"

definition all_links :: "inputs \<Rightarrow> schedule_section list \<Rightarrow> (nat \<times> nat \<times> f64) list" where
  "all_links inp sections =
     (let n = length (in_chart_ms inp);
          activation = fold (\<lambda>(first, _) fs. fs[first := True]) sections (replicate n False);
          wasted = fold (\<lambda>sec fs. case snd (section_fever inp sec) of None \<Rightarrow> fs | Some k \<Rightarrow> fs[k := True])
            sections (replicate n False)
      in concat (map (section_links inp) sections)
         @ lane_links (in_lane inp) (in_tail inp) (\<lambda>_. None) 0
         @ map (\<lambda>(x, y). (x, y, 0)) (scored_pairs inp activation wasted))"

definition links_of :: "inputs \<Rightarrow> schedule_section list \<Rightarrow> links" where
  "links_of inp sections =
     (let n = length (in_chart_ms inp); all = all_links inp sections;
          bef = map fst all; aft = map (fst \<circ> snd) all;
          forward = filter (\<lambda>i. bef ! i < aft ! i) [0..<length all];
          counts = map (\<lambda>k. length (filter (\<lambda>i. aft ! i < k) forward)) [0..<Suc n]
      in \<lparr>link_before = bef, link_after = aft, link_fixed = map (snd \<circ> snd) all,
          link_into = sort_key (\<lambda>i. aft ! i) forward, link_into_start = counts,
          link_back = filter (\<lambda>i. bef ! i > aft ! i) [0..<length all]\<rparr>)"

definition links_into :: "links \<Rightarrow> nat \<Rightarrow> nat list" where
  "links_into L k = map (\<lambda>c. link_into L ! c) [link_into_start L ! k..<link_into_start L ! Suc k]"

section \<open>Bands\<close>

definition relax_before :: "links \<Rightarrow> (f64 \<Rightarrow> nat \<Rightarrow> f64) \<Rightarrow> nat \<Rightarrow> f64 list \<Rightarrow> f64 list" where
  "relax_before L along k soonest =
     fold (\<lambda>link e. e[k := max (e ! k) (along (e ! (link_before L ! link)) link)]) (links_into L k) soonest"

text \<open>The earliest hits, Greats free to go early.\<close>

definition band_earliest :: "links \<Rightarrow> inputs \<Rightarrow> f64 list" where
  "band_earliest L inp =
     (let n = length (in_chart_ms inp)
      in fold (\<lambda>k e. relax_before L (\<lambda>t link. add64 t (link_fixed L ! link)) k
             (if k > 0 then e[k := max (e ! k) (e ! (k - 1))] else e))
           [0..<n] (map (earliest_low inp) [0..<n]))"

definition min_opt :: "f64 option \<Rightarrow> f64 \<Rightarrow> f64" where
  "min_opt x y = (case x of None \<Rightarrow> y | Some v \<Rightarrow> min v y)"

record band_state =
  band_low :: "f64 list"
  band_high :: "f64 list"
  band_latest :: "f64 option list"

definition pick_band :: "links \<Rightarrow> inputs \<Rightarrow> f64 \<Rightarrow> f64 list \<Rightarrow> nat \<Rightarrow> band_state \<Rightarrow> band_state" where
  "pick_band L inp clearance soonest k s =
     (let early = (case in_early_ms inp ! k of None \<Rightarrow> None
            | Some (low, high) \<Rightarrow>
                if (case band_latest s ! k of None \<Rightarrow> False | Some v \<Rightarrow> v < band_low s ! k) \<and> soonest ! k \<le> high
                then Some (low, high) else None);
          low = (case early of None \<Rightarrow> band_low s ! k | Some (l, _) \<Rightarrow> l);
          high = (case early of None \<Rightarrow> band_high s ! k | Some (_, h) \<Rightarrow> h);
          hit = min_opt (band_latest s ! k) (max (sub64 high clearance) low);
          cap = (if k > 0 then (band_latest s)[k - 1 := Some (min_opt (band_latest s ! (k - 1)) hit)] else band_latest s);
          cap' = fold (\<lambda>link c. c[link_before L ! link := Some (min_opt (c ! (link_before L ! link))
                   (sub64 (sub64 hit (link_fixed L ! link)) clearance))]) (links_into L k) cap
      in \<lparr>band_low = (band_low s)[k := low], band_high = (band_high s)[k := high], band_latest = cap'\<rparr>)"

definition pick_bands :: "links \<Rightarrow> inputs \<Rightarrow> f64 \<Rightarrow> f64 list \<times> f64 list" where
  "pick_bands L inp clearance =
     (let n = length (in_chart_ms inp);
          s = fold (pick_band L inp clearance (band_earliest L inp)) (rev [0..<n])
                \<lparr>band_low = in_low_ms inp, band_high = in_high_ms inp, band_latest = replicate n None\<rparr>
      in (band_low s, band_high s))"

section \<open>The passes\<close>

text \<open>Each input's earliest hit, and what set it: -1 its band, -2 the input before it, else a link.\<close>

type_synonym pass_state = "f64 list \<times> int list"

definition link_hit :: "links \<Rightarrow> f64 list \<Rightarrow> f64 list \<Rightarrow> nat \<Rightarrow> f64" where
  "link_hit L margin e link = add64 (add64 (e ! (link_before L ! link)) (link_fixed L ! link)) (margin ! link)"

definition relax_link :: "links \<Rightarrow> f64 list \<Rightarrow> nat \<Rightarrow> nat \<Rightarrow> pass_state \<Rightarrow> pass_state" where
  "relax_link L margin k link = (\<lambda>(e, source).
     if link_hit L margin e link > add64 (e ! k) SLACK_MS
     then (e[k := link_hit L margin e link], source[k := int link]) else (e, source))"

definition relax_note :: "links \<Rightarrow> f64 list \<Rightarrow> nat \<Rightarrow> pass_state \<Rightarrow> pass_state" where
  "relax_note L margin k st = fold (relax_link L margin k) (links_into L k)
     (case st of (e, source) \<Rightarrow>
        if k > 0 \<and> e ! (k - 1) > add64 (e ! k) SLACK_MS then (e[k := e ! (k - 1)], source[k := - 2]) else (e, source))"

fun forward_pass :: "links \<Rightarrow> f64 list \<Rightarrow> f64 list \<Rightarrow> nat list \<Rightarrow> pass_state \<Rightarrow> nat option \<times> pass_state" where
  "forward_pass L margin ceil_ms [] st = (None, st)"
| "forward_pass L margin ceil_ms (k # ks) st =
     (let st' = relax_note L margin k st
      in if fst st' ! k > add64 (ceil_ms ! k) SLACK_MS then (Some k, st') else forward_pass L margin ceil_ms ks st')"

definition back_pass :: "links \<Rightarrow> f64 list \<Rightarrow> pass_state \<Rightarrow> pass_state \<times> bool" where
  "back_pass L margin st =
     fold (\<lambda>link ((e, source), settled).
         let a = link_after L ! link
         in if link_hit L margin e link > add64 (e ! a) SLACK_MS
            then ((e[a := link_hit L margin e link], source[a := int link]), False) else ((e, source), settled))
       (link_back L) (st, True)"

partial_function (option) earliest_loop ::
    "links \<Rightarrow> f64 list \<Rightarrow> f64 list \<Rightarrow> pass_state \<Rightarrow> (nat option \<times> pass_state) option" where
  "earliest_loop L margin ceil_ms st =
     (case forward_pass L margin ceil_ms [0..<length (fst st)] st of
        (Some k, st') \<Rightarrow> Some (Some k, st')
      | (None, st') \<Rightarrow>
          (case back_pass L margin st' of (st'', settled) \<Rightarrow>
             if settled then Some (None, st'') else earliest_loop L margin ceil_ms st''))"

definition earliest_hits :: "links \<Rightarrow> f64 list \<Rightarrow> f64 list \<Rightarrow> f64 list \<Rightarrow> (nat option \<times> pass_state) option" where
  "earliest_hits L margin low_ms ceil_ms = earliest_loop L margin ceil_ms (low_ms, replicate (length low_ms) (- 1))"

text \<open>Each input's latest hit.\<close>

definition lower_before :: "links \<Rightarrow> f64 list \<Rightarrow> nat \<Rightarrow> f64 list \<Rightarrow> f64 list" where
  "lower_before L margin k late_ms =
     (let l = fold (\<lambda>link l. let b = link_before L ! link
            in l[b := min (l ! b) (sub64 (sub64 (l ! k) (link_fixed L ! link)) (margin ! link))]) (links_into L k) late_ms
      in if k > 0 then l[k - 1 := min (l ! (k - 1)) (l ! k)] else l)"

definition lower_back :: "links \<Rightarrow> f64 list \<Rightarrow> f64 list \<Rightarrow> f64 list \<times> bool" where
  "lower_back L margin late_ms =
     fold (\<lambda>link (l, settled).
         let b = link_before L ! link;
             hit = sub64 (sub64 (l ! (link_after L ! link)) (link_fixed L ! link)) (margin ! link)
         in if hit < sub64 (l ! b) SLACK_MS then (l[b := hit], False) else (l, settled))
       (link_back L) (late_ms, True)"

partial_function (option) latest_loop :: "links \<Rightarrow> f64 list \<Rightarrow> f64 list \<Rightarrow> f64 list option" where
  "latest_loop L margin late_ms =
     (let l = fold (lower_before L margin) (rev [0..<length late_ms]) late_ms
      in case lower_back L margin l of (l', settled) \<Rightarrow>
           if settled then Some l' else latest_loop L margin l')"

section \<open>Margins\<close>

record path_state =
  path_links :: "nat list"
  path_left :: f64
  path_gaps :: nat

partial_function (option) walk_path :: "links \<Rightarrow> int list \<Rightarrow> nat \<Rightarrow> nat \<Rightarrow> path_state \<Rightarrow> (nat \<times> path_state) res option" where
  "walk_path L source n v p =
     (if source ! v = - 1 then Some (Inr (v, p))
      else if source ! v = - 2 then walk_path L source n (v - 1) p
      else if length (path_links p) = n then Some (Inl ValueError)
      else let link = nat (source ! v)
           in walk_path L source n (link_before L ! link)
                \<lparr>path_links = path_links p @ [link], path_left = sub64 (path_left p) (link_fixed L ! link),
                 path_gaps = path_gaps p + (if link_fixed L ! link = 0 then 1 else 0)\<rparr>)"

text \<open>A tight path's room, shared by its margins; whether anything was lowered.\<close>

definition share_room :: "links \<Rightarrow> f64 list \<Rightarrow> f64 list \<Rightarrow> nat \<Rightarrow> nat \<Rightarrow> path_state \<Rightarrow>
    f64 list \<times> f64 list \<Rightarrow> (f64 list \<times> f64 list) \<times> bool" where
  "share_room L low_ms high_ms k v p = (\<lambda>(margin, ceil_ms).
     let room = max (sub64 (path_left p) (low_ms ! v)) 0;
         reserved = min room (mul64 (of_nat (path_gaps p)) FASTEST_FRAME_MS);
         each = div64 (sub64 room reserved) (of_nat (length (path_links p) + 1));
         frames = add64 each (div64 reserved (of_nat (path_gaps p + 1)));
         top = sub64 (high_ms ! k) frames;
         (margin', freed) = fold (\<lambda>link (m, freed).
             let share = (if link_fixed L ! link = 0 then frames else each)
             in if m ! link > share then (m[link := share], True) else (m, freed))
           (path_links p) (margin, top > ceil_ms ! k)
     in ((margin', ceil_ms[k := max (ceil_ms ! k) top]), freed))"

fun settle_rounds :: "nat \<Rightarrow> links \<Rightarrow> f64 list \<Rightarrow> f64 list \<Rightarrow> f64 list \<times> f64 list \<Rightarrow>
    (nat option \<times> f64 list \<times> f64 list) res option" where
  "settle_rounds 0 L low_ms high_ms mc = Some (Inl ValueError)"
| "settle_rounds (Suc r) L low_ms high_ms mc =
     (case mc of (margin, ceil_ms) \<Rightarrow>
      case earliest_hits L margin low_ms ceil_ms of
        None \<Rightarrow> None
      | Some (None, _) \<Rightarrow> Some (Inr (None, margin, ceil_ms))
      | Some (Some k, (_, source)) \<Rightarrow>
          (case walk_path L source (length low_ms) k \<lparr>path_links = [], path_left = high_ms ! k, path_gaps = 0\<rparr> of
             None \<Rightarrow> None
           | Some (Inl err) \<Rightarrow> Some (Inl err)
           | Some (Inr (v, p)) \<Rightarrow>
               (case share_room L low_ms high_ms k v p mc of (mc', freed) \<Rightarrow>
                  if \<not> freed then Some (Inr (Some k, fst mc', snd mc'))
                  else settle_rounds r L low_ms high_ms mc')))"

definition settle_margins :: "links \<Rightarrow> f64 list \<Rightarrow> f64 list \<Rightarrow> f64 list \<Rightarrow> f64 list \<Rightarrow>
    (nat option \<times> f64 list \<times> f64 list) res option" where
  "settle_margins L low_ms high_ms margin ceil_ms =
     settle_rounds (length low_ms + length (link_before L) + 1) L low_ms high_ms (margin, ceil_ms)"

section \<open>The hits\<close>

text \<open>An activation's pick, in the middle of its free range or as near its chart time as that allows.\<close>

fun pick_activations :: "links \<Rightarrow> inputs \<Rightarrow> f64 list \<Rightarrow> (nat \<times> bool) list \<Rightarrow> f64 list \<times> f64 list \<Rightarrow>
    (f64 list \<times> f64 list) option" where
  "pick_activations L inp margin [] bands = Some bands"
| "pick_activations L inp margin ((k, middle) # rest) (low_ms, ceil_ms) =
     (case (earliest_hits L margin low_ms ceil_ms, latest_loop L margin ceil_ms) of
        (Some (_, (e, _)), Some l) \<Rightarrow>
          (let at_ms = (if middle then mul64 (1 / 2) (add64 (e ! k) (l ! k))
                        else min (max (in_chart_ms inp ! k) (e ! k)) (l ! k))
           in pick_activations L inp margin rest (low_ms[k := at_ms], ceil_ms[k := at_ms]))
      | _ \<Rightarrow> None)"

definition hit_at :: "links \<Rightarrow> inputs \<Rightarrow> f64 list \<Rightarrow> f64 list \<Rightarrow> f64 list \<Rightarrow> nat \<Rightarrow> f64 list \<Rightarrow> f64 list" where
  "hit_at L inp margin low_ms late_ms k hits =
     (let lowest = (if k > 0 then max (low_ms ! k) (hits ! (k - 1)) else low_ms ! k);
          lowest' = fold (\<lambda>link f. max f (link_hit L margin hits link)) (links_into L k) lowest
      in hits @ [min (max (in_chart_ms inp ! k) lowest') (late_ms ! k)])"

definition hits_of :: "links \<Rightarrow> inputs \<Rightarrow> f64 list \<Rightarrow> f64 list \<Rightarrow> f64 list \<Rightarrow> (nat \<times> bool) list \<Rightarrow> f64 list option" where
  "hits_of L inp low_ms margin ceil_ms picks =
     (case pick_activations L inp margin picks (low_ms, ceil_ms) of
        None \<Rightarrow> None
      | Some (low', ceil_ms') \<Rightarrow>
          map_option (\<lambda>late_ms. fold (hit_at L inp margin low' late_ms) [0..<length low_ms] [])
            (latest_loop L margin ceil_ms'))"

text \<open>\<open>np.ceil(fixed) - fixed + strict\<close>\<close>

definition whole_ms :: "f64 \<Rightarrow> f64" where
  "whole_ms fixed = add64 (sub64 (of_int \<lceil>fixed\<rceil>) fixed) STRICT_MS"

definition first_margin :: "f64 \<Rightarrow> f64" where
  "first_margin fixed = (if fixed = 0 then FASTEST_FRAME_MS else if fixed > 0 then whole_ms fixed else 0)"

definition unseparated :: "links \<Rightarrow> f64 list \<Rightarrow> nat option" where
  "unseparated L hits = map_option (\<lambda>link. link_after L ! link)
     (find (\<lambda>link. link_fixed L ! link = 0 \<and> hits ! (link_after L ! link) \<le> hits ! (link_before L ! link))
       [0..<length (link_before L)])"

text \<open>The bands that leave every input a frame at the fastest rate, or the input that has none.\<close>

definition fitting_bands :: "links \<Rightarrow> inputs \<Rightarrow> (nat option \<times> (f64 list \<times> f64 list) \<times> f64 list) option" where
  "fitting_bands L inp =
     (let margin = map first_margin (link_fixed L);
          attempt = (\<lambda>clearance. case pick_bands L inp clearance of (low_ms, high_ms) \<Rightarrow>
            map_option (\<lambda>(stopped, (e, _)). (stopped, (low_ms, high_ms), e))
              (earliest_hits L margin low_ms (map2 add64 high_ms (in_reach_ms inp))))
      in case attempt FRAME_MARGIN_MS of
           None \<Rightarrow> None
         | Some (None, bands, e) \<Rightarrow> Some (None, bands, e)
         | Some (Some _, _) \<Rightarrow> attempt FASTEST_FRAME_MS)"

definition schedule_hits :: "inputs \<Rightarrow> schedule_section list \<Rightarrow> bool list \<Rightarrow> (nat option \<times> f64 list) res option" where
  "schedule_hits inp sections middle =
     (let L = links_of inp sections; m = length (link_before L)
      in case fitting_bands L inp of
           None \<Rightarrow> None
         | Some (Some k, _, e) \<Rightarrow> Some (Inr (Some k, e))
         | Some (None, (low_ms, high_ms), e) \<Rightarrow>
             (case settle_margins L low_ms high_ms (replicate m FRAME_MARGIN_MS)
                     (map2 (\<lambda>h l. max (sub64 h FRAME_MARGIN_MS) l) high_ms low_ms) of
                None \<Rightarrow> None
              | Some (Inl err) \<Rightarrow> Some (Inl err)
              | Some (Inr (Some k, _)) \<Rightarrow> Some (Inr (Some k, e))
              | Some (Inr (None, margin, ceil_ms)) \<Rightarrow>
                  map_option (\<lambda>hits. Inr (unseparated L hits, hits))
                    (hits_of L inp low_ms margin ceil_ms (zip (map fst sections) middle))))"

declare earliest_loop.simps [code] latest_loop.simps [code] walk_path.simps [code]

section \<open>The order takes the free note of lowest rank\<close>

text \<open>A note is free once its lane's earlier notes and the notes linked ahead of it are taken.\<close>

definition free_note :: "nat list \<Rightarrow> (nat \<times> nat) list \<Rightarrow> nat list \<Rightarrow> nat \<Rightarrow> bool" where
  "free_note lane_of pairs ahead i \<longleftrightarrow> i < length lane_of \<and> i \<notin> set ahead
     \<and> (\<forall>j < i. lane_of ! j = lane_of ! i \<longrightarrow> j \<in> set ahead)
     \<and> (\<forall>p \<in> set pairs. snd p = i \<longrightarrow> fst p \<in> set ahead)"

text \<open>What is left of the lanes and the links after some notes.\<close>

definition state_after :: "nat list \<Rightarrow> (nat \<times> nat) list \<Rightarrow> nat list \<Rightarrow> order_state" where
  "state_after lane_of pairs ahead =
     \<lparr>lane_queues = map (\<lambda>l. filter (\<lambda>i. i \<notin> set ahead) (lane_queue lane_of l))
        [0..<(if lane_of = [] then 1 else Max (set lane_of) + 1)],
      waits = map (\<lambda>i. length (filter (\<lambda>p. snd p = i \<and> fst p \<notin> set ahead) pairs)) [0..<length lane_of]\<rparr>"

lemma order_start_state: "order_start lane_of pairs = state_after lane_of pairs []"
  by (simp add: order_start_def state_after_def)

lemma lane_queue_head:
  assumes "filter (\<lambda>i. i \<notin> set ahead) (lane_queue lane_of l) = b # rest"
  shows "b < length lane_of" "lane_of ! b = l" "b \<notin> set ahead" "\<forall>j < b. lane_of ! j = l \<longrightarrow> j \<in> set ahead"
proof -
  let ?q = "filter (\<lambda>i. i \<notin> set ahead) (lane_queue lane_of l)"
  have "b \<in> set ?q" using assms by simp
  then show "b < length lane_of" "lane_of ! b = l" "b \<notin> set ahead" by (auto simp: lane_queue_def)
  have "sorted_wrt (<) ?q" by (simp add: lane_queue_def sorted_wrt_filter)
  then have first: "\<forall>j \<in> set rest. b < j" by (simp add: assms)
  show "\<forall>j < b. lane_of ! j = l \<longrightarrow> j \<in> set ahead"
  proof (intro allI impI, rule ccontr)
    fix j assume j: "j < b" "lane_of ! j = l" "j \<notin> set ahead"
    then have "j \<in> set ?q" using \<open>b < length lane_of\<close> by (simp add: lane_queue_def)
    then show False using first j(1) by (auto simp: assms)
  qed
qed

lemma free_head:
  assumes "free_note lane_of pairs ahead i"
  obtains rest where "filter (\<lambda>i. i \<notin> set ahead) (lane_queue lane_of (lane_of ! i)) = i # rest"
proof -
  let ?q = "filter (\<lambda>k. k \<notin> set ahead) (lane_queue lane_of (lane_of ! i))"
  have "i \<in> set ?q" using assms by (simp add: free_note_def lane_queue_def)
  then obtain b rest where q: "?q = b # rest" by (cases ?q) auto
  have "b = i"
  proof (rule ccontr)
    assume "b \<noteq> i"
    then have "i \<in> set rest" using \<open>i \<in> set ?q\<close> q by auto
    moreover have "sorted_wrt (<) ?q" by (simp add: lane_queue_def sorted_wrt_filter)
    ultimately have "b < i" by (simp add: q)
    then show False using assms lane_queue_head [OF q] by (auto simp: free_note_def)
  qed
  then show thesis using that q by blast
qed

lemma lane_in_range: "i < length lane_of \<Longrightarrow> lane_of ! i < (if lane_of = [] then 1 else Max (set lane_of) + 1)"
  for lane_of :: "nat list"
proof -
  assume "i < length lane_of"
  then have "lane_of ! i \<le> Max (set lane_of)" "lane_of \<noteq> []" by auto
  then show ?thesis by simp
qed

lemma no_waits_iff:
  "i < length lane_of \<Longrightarrow> waits (state_after lane_of pairs ahead) ! i = 0
     \<longleftrightarrow> (\<forall>p \<in> set pairs. snd p = i \<longrightarrow> fst p \<in> set ahead)"
  by (auto simp: state_after_def filter_empty_conv)

text \<open>What the scan over the lanes finds.\<close>

lemma better_head_simps:
  "better_head rank ws [] best = best"
  "better_head rank ws (i # q) best =
     (if ws ! i = 0 \<and> (case best of None \<Rightarrow> True | Some b \<Rightarrow> rank ! i < rank ! b) then Some i else best)"
  by (simp_all add: better_head_def)

lemma fold_better_head:
  "case fold (better_head rank ws) queues best of
     None \<Rightarrow> best = None \<and> (\<forall>q \<in> set queues. q = [] \<or> ws ! hd q \<noteq> 0)
   | Some b \<Rightarrow> (best = Some b \<or> (\<exists>q \<in> set queues. q \<noteq> [] \<and> hd q = b \<and> ws ! b = 0))
       \<and> (\<forall>c. best = Some c \<longrightarrow> rank ! b \<le> rank ! c)
       \<and> (\<forall>q \<in> set queues. q \<noteq> [] \<and> ws ! hd q = 0 \<longrightarrow> rank ! b \<le> rank ! hd q)"
proof (induction queues arbitrary: best)
  case Nil
  then show ?case by (auto split: option.splits)
next
  case (Cons q queues)
  show ?case
  proof (cases q)
    case Nil
    then show ?thesis using Cons [of best] by (auto simp: better_head_simps split: option.splits)
  next
    case (Cons i rest)
    show ?thesis
    proof (cases "ws ! i = 0 \<and> (case best of None \<Rightarrow> True | Some b \<Rightarrow> rank ! i < rank ! b)")
      case True
      then show ?thesis using Cons.IH [of "Some i"] Cons
        by (cases "fold (better_head rank ws) queues (Some i)"; cases best) (auto simp: better_head_simps intro: order_trans)
    next
      case False
      then show ?thesis using Cons.IH [of best] Cons
        by (cases "fold (better_head rank ws) queues best"; cases best) (auto simp: better_head_simps intro: order_trans)
    qed
  qed
qed

lemma best_head_free:
  assumes "best_head rank (state_after lane_of pairs ahead) = Some b"
  shows "free_note lane_of pairs ahead b" and "free_note lane_of pairs ahead i \<Longrightarrow> rank ! b \<le> rank ! i"
proof -
  let ?s = "state_after lane_of pairs ahead"
  let ?q = "\<lambda>l. filter (\<lambda>i. i \<notin> set ahead) (lane_queue lane_of l)"
  let ?w = "if lane_of = [] then 1 else Max (set lane_of) + 1"
  have queues: "set (lane_queues ?s) = ?q ` {..<?w}" by (auto simp: state_after_def)
  note scan = fold_better_head [where rank = rank and ws = "waits ?s" and queues = "lane_queues ?s" and best = None, folded best_head_def, unfolded assms option.case queues]
  then obtain l where "?q l \<noteq> []" "hd (?q l) = b" and w: "waits ?s ! b = 0" by auto
  then have q: "?q l = b # tl (?q l)" by (metis list.collapse)
  note head = lane_queue_head [OF q]
  show "free_note lane_of pairs ahead b"
    using head no_waits_iff [OF head(1)] w by (auto simp: free_note_def)
  show "free_note lane_of pairs ahead i \<Longrightarrow> rank ! b \<le> rank ! i"
  proof -
    assume i: "free_note lane_of pairs ahead i"
    then obtain rest where r: "?q (lane_of ! i) = i # rest" by (rule free_head)
    have "i < length lane_of" using i by (simp add: free_note_def)
    then have "lane_of ! i < ?w" "waits ?s ! i = 0"
      using lane_in_range [OF \<open>i < length lane_of\<close>] no_waits_iff [OF \<open>i < length lane_of\<close>] i by (auto simp: free_note_def)
    moreover have "?q (lane_of ! i) \<in> ?q ` {..<?w}" using calculation(1) by blast
    ultimately show ?thesis
      using scan [THEN conjunct2, THEN conjunct2, rule_format, of "?q (lane_of ! i)"] by (simp add: r)
  qed
qed

lemma best_head_None:
  assumes "best_head rank (state_after lane_of pairs ahead) = None"
  shows "\<not> free_note lane_of pairs ahead i"
proof
  assume i: "free_note lane_of pairs ahead i"
  let ?s = "state_after lane_of pairs ahead"
  obtain rest where r: "filter (\<lambda>i. i \<notin> set ahead) (lane_queue lane_of (lane_of ! i)) = i # rest"
    using i by (rule free_head)
  have lt: "i < length lane_of" using i by (simp add: free_note_def)
  then have "i # rest \<in> set (lane_queues ?s)"
    using r lane_in_range [OF lt] by (auto simp: state_after_def intro!: image_eqI [of _ _ "lane_of ! i"])
  moreover have "waits ?s ! i = 0" using no_waits_iff [OF lt] i by (simp add: free_note_def)
  ultimately show False
    using fold_better_head [where rank = rank and ws = "waits ?s" and queues = "lane_queues ?s" and best = None] assms by (fastforce simp: best_head_def)
qed

lemma decrease_waits:
  "length (fold (\<lambda>i ws. ws[i := ws ! i - 1]) ks ws) = length ws
   \<and> (i < length ws \<longrightarrow> fold (\<lambda>i ws. ws[i := ws ! i - (1::nat)]) ks ws ! i = ws ! i - count_list ks i)"
  by (induction ks arbitrary: ws) (auto simp: nth_list_update)

lemma take_head_state:
  assumes "free_note lane_of pairs ahead b"
  shows "take_head lane_of pairs b (state_after lane_of pairs ahead) = state_after lane_of pairs (ahead @ [b])"
proof -
  let ?w = "if lane_of = [] then 1 else Max (set lane_of) + 1"
  let ?q = "\<lambda>ahead l. filter (\<lambda>i. i \<notin> set ahead) (lane_queue lane_of l)"
  have b: "b < length lane_of" "b \<notin> set ahead" using assms by (simp_all add: free_note_def)
  obtain rest where r: "?q ahead (lane_of ! b) = b # rest" using assms by (rule free_head)
  have same: "?q (ahead @ [b]) l = (if l = lane_of ! b then rest else ?q ahead l)" for l
  proof -
    have step: "?q (ahead @ [b]) l = filter (\<lambda>i. i \<noteq> b) (?q ahead l)" by (simp add: conj_commute)
    show ?thesis
    proof (cases "l = lane_of ! b")
      case True
      have "distinct (b # rest)" unfolding r [symmetric] by (simp add: lane_queue_def)
      then show ?thesis unfolding step using True r by (auto simp: filter_id_conv)
    next
      case False
      then show ?thesis unfolding step by (auto simp: lane_queue_def intro: filter_cong)
    qed
  qed
  have range: "lane_of ! b < ?w" by (rule lane_in_range [OF b(1)])
  have "(map (?q ahead) [0..<?w])[lane_of ! b := tl (map (?q ahead) [0..<?w] ! (lane_of ! b))] = map (?q (ahead @ [b])) [0..<?w]"
    by (rule nth_equalityI) (use range r in \<open>auto simp: same nth_list_update simp del: upt_Suc filter_append set_append\<close>)
  moreover have "fold (\<lambda>i ws. ws[i := ws ! i - 1]) (released pairs b) (waits (state_after lane_of pairs ahead))
      = waits (state_after lane_of pairs (ahead @ [b]))"
  proof (rule nth_equalityI)
    fix i
    assume "i < length (fold (\<lambda>i ws. ws[i := ws ! i - 1]) (released pairs b) (waits (state_after lane_of pairs ahead)))"
    then have i: "i < length lane_of" using decrease_waits by (simp add: state_after_def)
    have "length (filter (\<lambda>p. snd p = i \<and> fst p \<notin> set ahead) ps) - count_list (released ps b) i
        = length (filter (\<lambda>p. snd p = i \<and> fst p \<notin> set (ahead @ [b])) ps)
      \<and> count_list (released ps b) i \<le> length (filter (\<lambda>p. snd p = i \<and> fst p \<notin> set ahead) ps)" for ps
      using b(2) by (induction ps) (auto simp: released_def Suc_diff_le)
    then show "fold (\<lambda>i ws. ws[i := ws ! i - 1]) (released pairs b) (waits (state_after lane_of pairs ahead)) ! i
        = waits (state_after lane_of pairs (ahead @ [b])) ! i"
      using decrease_waits [of "released pairs b" "waits (state_after lane_of pairs ahead)" i] i
      by (simp add: state_after_def)
  qed (use decrease_waits in \<open>simp add: state_after_def\<close>)
  ultimately show ?thesis by (simp add: take_head_def state_after_def)
qed

lemma order_from_free:
  "order_from lane_of rank pairs k (state_after lane_of pairs ahead) = Some xs \<Longrightarrow>
     length xs = k \<and> (\<forall>p < k. free_note lane_of pairs (ahead @ take p xs) (xs ! p)
       \<and> (\<forall>i. free_note lane_of pairs (ahead @ take p xs) i \<longrightarrow> rank ! (xs ! p) \<le> rank ! i))"
proof (induction k arbitrary: ahead xs)
  case (Suc k)
  obtain b ys where b: "best_head rank (state_after lane_of pairs ahead) = Some b" and xs: "xs = b # ys"
    and ys: "order_from lane_of rank pairs k (take_head lane_of pairs b (state_after lane_of pairs ahead)) = Some ys"
    using Suc.prems by (auto split: option.splits)
  note free = best_head_free [OF b]
  have IH: "length ys = k \<and> (\<forall>p < k. free_note lane_of pairs ((ahead @ [b]) @ take p ys) (ys ! p)
       \<and> (\<forall>i. free_note lane_of pairs ((ahead @ [b]) @ take p ys) i \<longrightarrow> rank ! (ys ! p) \<le> rank ! i))"
    using Suc.IH [of "ahead @ [b]" ys] ys take_head_state [OF free(1)] by simp
  show ?case
  proof (intro conjI allI impI)
    fix p assume p: "p < Suc k"
    show "free_note lane_of pairs (ahead @ take p xs) (xs ! p)"
      using p IH free(1) by (cases p) (simp_all add: xs)
    fix i assume "free_note lane_of pairs (ahead @ take p xs) i"
    then show "rank ! (xs ! p) \<le> rank ! i" using p IH free(2) by (cases p) (simp_all add: xs)
  qed (use IH xs in simp)
qed simp

text \<open>An order that takes only free notes takes every note once.\<close>

definition legal_order :: "nat list \<Rightarrow> (nat \<times> nat) list \<Rightarrow> nat list \<Rightarrow> bool" where
  "legal_order lane_of pairs xs \<longleftrightarrow> length xs = length lane_of \<and> (\<forall>p < length xs. free_note lane_of pairs (take p xs) (xs ! p))"

lemma legal_order_permutes:
  assumes "legal_order lane_of pairs xs"
  shows "distinct xs" "set xs = {..<length lane_of}"
proof -
  have free: "free_note lane_of pairs (take p xs) (xs ! p)" if "p < length xs" for p
    using assms that by (simp add: legal_order_def)
  show dist: "distinct xs"
  proof (rule distinct_conv_nth [THEN iffD2], intro allI impI)
    have "xs ! q \<noteq> xs ! p" if "q < p" "p < length xs" for p q
    proof -
      have "xs ! q \<in> set (take p xs)" using that by (auto simp: in_set_conv_nth intro!: exI [of _ q])
      then show ?thesis using free [OF that(2)] by (auto simp: free_note_def)
    qed
    then show "xs ! i \<noteq> xs ! j" if "i < length xs" "j < length xs" "i \<noteq> j" for i j
      using that by (metis linorder_neqE_nat)
  qed
  have "set xs \<subseteq> {..<length lane_of}" using free by (auto simp: in_set_conv_nth free_note_def)
  moreover have "card (set xs) = length lane_of" using dist assms by (simp add: distinct_card legal_order_def)
  ultimately show "set xs = {..<length lane_of}" by (simp add: card_subset_eq)
qed

lemma stuck_order_from:
  "order_from lane_of rank pairs k (state_after lane_of pairs ahead) = None \<Longrightarrow>
     \<exists>ahead'. length ahead' < length ahead + k \<and> set ahead \<subseteq> set ahead' \<and> (\<forall>i. \<not> free_note lane_of pairs ahead' i)"
proof (induction k arbitrary: ahead)
  case (Suc k)
  show ?case
  proof (cases "best_head rank (state_after lane_of pairs ahead)")
    case None
    then show ?thesis using best_head_None [OF None] by (intro exI [of _ ahead]) simp
  next
    case (Some b)
    then have "order_from lane_of rank pairs k (state_after lane_of pairs (ahead @ [b])) = None"
      using Suc.prems take_head_state [OF best_head_free(1) [OF Some]] by simp
    then show ?thesis using Suc.IH [of "ahead @ [b]"] by fastforce
  qed
qed simp

text \<open>C12: \<open>input_order\<close> orders all the notes exactly when some order keeps every lane's chart order and
  every link, and then it takes at each place the lowest-ranked note that is free; otherwise it
  returns no notes.\<close>

theorem input_order_greedy:
  fixes pairs :: "(nat \<times> nat) list"
  assumes "length lane_of = n" "length rank = n"
  defines "r \<equiv> input_order_of lane_of rank pairs"
  shows "(length r = n \<longleftrightarrow> (\<exists>xs. legal_order lane_of pairs xs))
    \<and> (length r = n \<longrightarrow> legal_order lane_of pairs r
        \<and> (\<forall>p < n. \<forall>i. free_note lane_of pairs (take p r) i \<longrightarrow> rank ! (r ! p) \<le> rank ! i))
    \<and> (length r \<noteq> n \<longrightarrow> r = [])"
proof (cases "order_from lane_of rank pairs n (state_after lane_of pairs [])")
  case (Some xs)
  then have r: "r = xs" using assms by (simp add: input_order_of_def order_start_state)
  have "length xs = n \<and> (\<forall>p < n. free_note lane_of pairs (take p xs) (xs ! p)
       \<and> (\<forall>i. free_note lane_of pairs (take p xs) i \<longrightarrow> rank ! (xs ! p) \<le> rank ! i))"
    using order_from_free [OF Some] by simp
  then have "length r = n" "legal_order lane_of pairs r"
    "\<forall>p < n. \<forall>i. free_note lane_of pairs (take p r) i \<longrightarrow> rank ! (r ! p) \<le> rank ! i"
    using assms(1) by (simp_all add: r legal_order_def)
  then show ?thesis by blast
next
  case None
  then have r: "r = []" using assms by (simp add: input_order_of_def order_start_state)
  obtain ahead where ahead: "length ahead < n" "\<And>i. \<not> free_note lane_of pairs ahead i"
    using stuck_order_from [OF None] by auto
  have "\<not> legal_order lane_of pairs xs" for xs
  proof
    assume legal: "legal_order lane_of pairs xs"
    have "\<not> {..<n} \<subseteq> set ahead"
      using ahead(1) card_mono [of "set ahead" "{..<n}"] card_length [of ahead] by fastforce
    then have ex: "\<exists>p < n. xs ! p \<notin> set ahead"
      using legal_order_permutes(2) [OF legal] legal assms(1)
      by (auto simp: legal_order_def subset_iff in_set_conv_nth set_eq_iff) metis
    define p where "p = (LEAST p. p < n \<and> xs ! p \<notin> set ahead)"
    have p: "p < n" "xs ! p \<notin> set ahead" using LeastI_ex [OF ex] by (simp_all add: p_def)
    have sub: "set (take p xs) \<subseteq> set ahead"
      using not_less_Least [of _ "\<lambda>p. p < n \<and> xs ! p \<notin> set ahead"] p(1) by (fastforce simp: p_def in_set_conv_nth)
    have "free_note lane_of pairs (take p xs) (xs ! p)"
      using legal p(1) assms(1) by (simp add: legal_order_def)
    then have "free_note lane_of pairs ahead (xs ! p)" using p(2) sub by (auto simp: free_note_def)
    then show False using ahead(2) by blast
  qed
  moreover have "n \<noteq> 0" using ahead(1) by simp
  ultimately show ?thesis by (simp add: r)
qed

lemma input_order_greedy_witness:
  "input_order_of [1, 2, 1, 2] [0, 1, 2, 3] [(3, 0)] = [1, 3, 0, 2] \<and> legal_order [1, 2, 1, 2] [(3, 0)] [1, 3, 0, 2]"
proof -
  have r: "input_order_of [1, 2, 1, 2] [0, 1, 2, 3] [(3, 0)] = [1, 3, 0, 2]" by code_simp
  then show ?thesis using input_order_greedy [of "[1, 2, 1, 2]" 4 "[0, 1, 2, 3]" "[(3, 0)]"] by simp
qed

section \<open>Scheduled hits keep the order\<close>

lemma links_into_links_of:
  fixes sections :: "schedule_section list"
  assumes "k < length (in_chart_ms inp)"
  defines "L \<equiv> links_of inp sections"
  shows "links_into L k = filter (\<lambda>i. link_after L ! i = k \<and> link_before L ! i < link_after L ! i) [0..<length (link_before L)]"
proof -
  let ?all = "all_links inp sections"
  let ?after = "map (fst \<circ> snd) ?all" and ?before = "map fst ?all"
  let ?forward = "filter (\<lambda>i. ?before ! i < ?after ! i) [0..<length ?all]"
  let ?cnt = "\<lambda>k. length (filter (\<lambda>i. ?after ! i < k) ?forward)"
  have L: "link_after L = ?after" "link_before L = ?before" "link_into L = sort_key (\<lambda>i. ?after ! i) ?forward"
    "link_into_start L = map ?cnt [0..<Suc (length (in_chart_ms inp))]"
    by (simp_all only: L_def links_of_def Let_def links.simps)
  have starts: "link_into_start L ! k = ?cnt k" "link_into_start L ! Suc k = ?cnt (Suc k)"
    unfolding L using assms(1) by (simp_all only: nth_map_upt length_upt) simp_all
  have "links_into L k = filter (\<lambda>i. ?after ! i = k) ?forward"
    unfolding links_into_def starts L(3) by (rule sort_key_slice)
  also have "\<dots> = filter (\<lambda>i. ?after ! i = k \<and> ?before ! i < ?after ! i) [0..<length ?all]"
    by (simp add: conj_commute)
  finally show ?thesis unfolding L by simp
qed

text \<open>The links into an input come from inputs before it.\<close>

definition links_forward :: "links \<Rightarrow> nat \<Rightarrow> bool" where
  "links_forward L n \<longleftrightarrow> (\<forall>k < n. \<forall>link \<in> set (links_into L k). link_before L ! link < k)"

lemma links_of_forward: "n \<le> length (in_chart_ms inp) \<Longrightarrow> links_forward (links_of inp sections) n"
  by (auto simp: links_forward_def links_into_links_of)

lemma fold_length_invariant: "(\<And>x ys. length (f x ys) = length ys) \<Longrightarrow> length (fold f xs ys) = length ys"
  by (induction xs arbitrary: ys) auto

lemma lower_links_above:
  assumes "\<forall>link \<in> set ks. link_before L ! link < k" "k \<le> j"
  shows "fold (\<lambda>link l. let b = link_before L ! link
      in l[b := min (l ! b) (sub64 (sub64 (l ! k) (link_fixed L ! link)) (margin ! link))]) ks late ! j = late ! j"
  using assms(1)
proof (induction ks arbitrary: late)
  case (Cons link ks)
  then show ?case using assms(2) by (simp add: Let_def)
qed simp

lemma lower_before_length [simp]: "length (lower_before L margin k late) = length late"
  by (auto simp: lower_before_def Let_def intro!: fold_length_invariant)

lemma lower_before_spec:
  assumes "\<forall>link \<in> set (links_into L k). link_before L ! link < k" "k < length late"
  shows "k \<le> j \<Longrightarrow> lower_before L margin k late ! j = late ! j"
    and "k > 0 \<Longrightarrow> lower_before L margin k late ! (k - 1) \<le> lower_before L margin k late ! k"
proof -
  define l where "l = fold (\<lambda>link l. let b = link_before L ! link
      in l[b := min (l ! b) (sub64 (sub64 (l ! k) (link_fixed L ! link)) (margin ! link))]) (links_into L k) late"
  have eq: "lower_before L margin k late = (if k > 0 then l[k - 1 := min (l ! (k - 1)) (l ! k)] else l)"
    by (simp only: lower_before_def l_def Let_def)
  have len: "length l = length late" unfolding l_def by (rule fold_length_invariant) (simp add: Let_def)
  have above: "l ! j = late ! j" if "k \<le> j" for j
    unfolding l_def by (rule lower_links_above [OF assms(1) that])
  show "k \<le> j \<Longrightarrow> lower_before L margin k late ! j = late ! j" using above by (simp add: eq)
  show "k > 0 \<Longrightarrow> lower_before L margin k late ! (k - 1) \<le> lower_before L margin k late ! k"
    using len assms(2) by (simp add: eq)
qed

lemma lower_pass_sorted:
  assumes "links_forward L n"
  shows "m \<le> n \<Longrightarrow> length late = n \<Longrightarrow>
    length (fold (lower_before L margin) (rev [m..<n]) late) = n
    \<and> (\<forall>j. m \<le> j \<and> 0 < j \<and> j < n \<longrightarrow>
         fold (lower_before L margin) (rev [m..<n]) late ! (j - 1) \<le> fold (lower_before L margin) (rev [m..<n]) late ! j)"
proof (induction "n - m" arbitrary: m)
  case (Suc d)
  let ?l = "fold (lower_before L margin) (rev [Suc m..<n]) late"
  have m: "m < n" using Suc.hyps(2) by simp
  then have step: "fold (lower_before L margin) (rev [m..<n]) late = lower_before L margin m ?l"
    by (simp add: upt_conv_Cons)
  have IH: "length ?l = n" "\<And>j. Suc m \<le> j \<and> 0 < j \<and> j < n \<Longrightarrow> ?l ! (j - 1) \<le> ?l ! j"
    using Suc.hyps(1) [of "Suc m"] Suc.hyps(2) Suc.prems m by simp_all
  have fwd: "\<forall>link \<in> set (links_into L m). link_before L ! link < m" using assms m by (simp add: links_forward_def)
  note spec = lower_before_spec [OF fwd, where late = ?l and margin = margin]
  have "lower_before L margin m ?l ! (j - 1) \<le> lower_before L margin m ?l ! j" if "m \<le> j" "0 < j" "j < n" for j
  proof (cases "j = m")
    case True
    then show ?thesis using spec(2) that m IH(1) by simp
  next
    case False
    then show ?thesis using spec(1) [of j] spec(1) [of "j - 1"] IH(2) [of j] that m IH(1) by simp
  qed
  then show ?case unfolding step using IH(1) by simp
qed simp

definition lower_back_link :: "links \<Rightarrow> f64 list \<Rightarrow> nat \<Rightarrow> f64 list \<times> bool \<Rightarrow> f64 list \<times> bool" where
  "lower_back_link L margin link = (\<lambda>(l, settled).
     let b = link_before L ! link;
         hit = sub64 (sub64 (l ! (link_after L ! link)) (link_fixed L ! link)) (margin ! link)
     in if hit < sub64 (l ! b) SLACK_MS then (l[b := hit], False) else (l, settled))"

lemma lower_back_fold: "lower_back L margin late = fold (lower_back_link L margin) (link_back L) (late, True)"
  unfolding lower_back_def lower_back_link_def ..

lemma lower_back_link_cases:
  "lower_back_link L margin link ls = ls \<or> snd (lower_back_link L margin link ls) = False
     \<and> length (fst (lower_back_link L margin link ls)) = length (fst ls)"
  by (cases ls) (simp add: lower_back_link_def Let_def)

lemma fold_lower_back:
  "length (fst (fold (lower_back_link L margin) ks ls)) = length (fst ls)
   \<and> (snd (fold (lower_back_link L margin) ks ls) \<longrightarrow> snd ls \<and> fold (lower_back_link L margin) ks ls = ls)"
proof (induction ks arbitrary: ls)
  case (Cons k ks)
  let ?r = "lower_back_link L margin k ls"
  have IH: "length (fst (fold (lower_back_link L margin) ks ?r)) = length (fst ?r)
      \<and> (snd (fold (lower_back_link L margin) ks ?r) \<longrightarrow> snd ?r \<and> fold (lower_back_link L margin) ks ?r = ?r)"
    by (rule Cons.IH)
  from lower_back_link_cases [of L margin k ls] show ?case
  proof
    assume "?r = ls"
    then show ?thesis using IH by simp
  next
    assume "snd ?r = False \<and> length (fst ?r) = length (fst ls)"
    then show ?thesis using IH by simp
  qed
qed simp

lemma latest_loop_sorted:
  "latest_loop L margin late = Some l \<Longrightarrow> links_forward L (length late) \<Longrightarrow> sorted l \<and> length l = length late"
proof (induction rule: latest_loop.raw_induct [rotated, consumes 1, case_names loop])
  case (loop rec L margin late l)
  let ?l = "fold (lower_before L margin) (rev [0..<length late]) late"
  note pass = lower_pass_sorted [OF loop(3), of 0 late margin]
  obtain l' settled where bk: "lower_back L margin ?l = (l', settled)" by fastforce
  have run: "fold (lower_back_link L margin) (link_back L) (?l, True) = (l', settled)"
    using bk by (simp add: lower_back_fold)
  have len: "length l' = length late" using fold_lower_back [of L margin "link_back L" "(?l, True)"] run pass by simp
  show ?case
  proof (cases settled)
    case True
    then have "l = ?l" using loop(2) bk run fold_lower_back [of L margin "link_back L" "(?l, True)"] by simp
    then show ?thesis using pass by (auto simp: sorted_iff_nth_Suc)
  next
    case False
    then have "rec L margin l' = Some l" using loop(2) bk by simp
    then show ?thesis using loop(1) loop(3) len by metis
  qed
qed

lemma fold_hit_at_sorted:
  assumes "sorted late" "m \<le> length late"
  shows "length (fold (hit_at L inp margin low_ms late) [0..<m] []) = m
    \<and> sorted (fold (hit_at L inp margin low_ms late) [0..<m] [])
    \<and> (\<forall>k < m. fold (hit_at L inp margin low_ms late) [0..<m] [] ! k \<le> late ! k)"
  using assms(2)
proof (induction m)
  case (Suc m)
  let ?hits = "fold (hit_at L inp margin low_ms late) [0..<m] []"
  have IH: "length ?hits = m" "sorted ?hits" "\<And>k. k < m \<Longrightarrow> ?hits ! k \<le> late ! k" using Suc by simp_all
  define lowest where "lowest = (if m > 0 then max (low_ms ! m) (?hits ! (m - 1)) else low_ms ! m)"
  define lowest' where "lowest' = fold (\<lambda>link f. max f (link_hit L margin ?hits link)) (links_into L m) lowest"
  define h where "h = min (max (in_chart_ms inp ! m) lowest') (late ! m)"
  have step: "fold (hit_at L inp margin low_ms late) [0..<Suc m] [] = ?hits @ [h]"
    by (simp add: hit_at_def lowest_def lowest'_def h_def)
  have "x \<le> fold (\<lambda>link f. max f (link_hit L margin ?hits link)) ks x" for ks x
  proof (induction ks arbitrary: x)
    case (Cons k ks)
    have "x \<le> max x (link_hit L margin ?hits k)" by simp
    also have "\<dots> \<le> fold (\<lambda>link f. max f (link_hit L margin ?hits link)) ks (max x (link_hit L margin ?hits k))"
      by (rule Cons.IH)
    finally show ?case by simp
  qed simp
  then have up: "lowest \<le> lowest'" by (simp add: lowest'_def)
  have last: "?hits ! (m - 1) \<le> h" if "m > 0"
  proof -
    have "?hits ! (m - 1) \<le> late ! (m - 1)" "late ! (m - 1) \<le> late ! m"
      using IH(3) [of "m - 1"] that assms(1) Suc.prems by (auto intro: sorted_nth_mono)
    moreover have "?hits ! (m - 1) \<le> lowest" using that by (simp add: lowest_def)
    ultimately show ?thesis using up by (simp add: h_def)
  qed
  have "\<forall>x \<in> set ?hits. x \<le> h"
  proof
    fix x assume "x \<in> set ?hits"
    then obtain k where k: "k < m" "x = ?hits ! k" using IH(1) by (auto simp: in_set_conv_nth)
    have "?hits ! k \<le> ?hits ! (m - 1)" using k(1) IH(1,2) by (intro sorted_nth_mono) simp_all
    then show "x \<le> h" using last k by simp
  qed
  then have "sorted (?hits @ [h])" using IH(2) by (simp add: sorted_append)
  moreover have "(?hits @ [h]) ! k \<le> late ! k" if "k < Suc m" for k
    using that IH(1,3) by (simp add: nth_append less_Suc_eq) (auto simp: h_def)
  ultimately show ?case unfolding step using IH(1) by simp
qed simp

lemma pick_bands_length:
  assumes "pick_bands L inp c = (low, high)" "length (in_low_ms inp) = n" "length (in_high_ms inp) = n"
  shows "length low = n" "length high = n"
proof -
  let ?s = "\<lparr>band_low = in_low_ms inp, band_high = in_high_ms inp, band_latest = replicate (length (in_chart_ms inp)) None\<rparr>"
  let ?t = "fold (pick_band L inp c (band_earliest L inp)) (rev [0..<length (in_chart_ms inp)]) ?s"
  have step: "length (band_low (pick_band L inp c e k s)) = length (band_low s)"
    "length (band_high (pick_band L inp c e k s)) = length (band_high s)" for e k s
    by (simp_all add: pick_band_def Let_def)
  have "length (band_low (fold (pick_band L inp c e) ks s)) = length (band_low s)
      \<and> length (band_high (fold (pick_band L inp c e) ks s)) = length (band_high s)" for e ks s
    by (induction ks arbitrary: s) (simp_all add: step)
  from this [of "band_earliest L inp" "rev [0..<length (in_chart_ms inp)]" ?s]
  have "length (band_low ?t) = n" "length (band_high ?t) = n" using assms(2,3) by simp_all
  moreover have "(low, high) = (band_low ?t, band_high ?t)" using assms(1) by (simp only: pick_bands_def Let_def)
  ultimately show "length low = n" "length high = n" by simp_all
qed

lemma fitting_bands_cases:
  assumes "fitting_bands L inp = Some (stopped, bands, e)"
  obtains c where "bands = pick_bands L inp c"
proof -
  have "(case pick_bands L inp c of (low_ms, high_ms) \<Rightarrow>
      map_option (\<lambda>(stopped, (e, _)). (stopped, (low_ms, high_ms), e))
        (earliest_hits L margin low_ms (map2 add64 high_ms (in_reach_ms inp)))) = Some (stopped', bands', e')
      \<Longrightarrow> bands' = pick_bands L inp c" for c margin stopped' bands' e'
    by (auto split: prod.splits)
  then show thesis using assms that
    unfolding fitting_bands_def Let_def by (auto split: option.splits prod.splits)
qed

lemma share_room_length: "share_room L low high k v p (margin, ceil_ms) = (mc, freed) \<Longrightarrow> length (snd mc) = length ceil_ms"
  by (auto simp: share_room_def Let_def split: prod.splits)

lemma settle_rounds_length:
  "settle_rounds r L low high (margin, ceil_ms) = Some (Inr (stopped, margin', ceil')) \<Longrightarrow> length ceil' = length ceil_ms"
proof (induction r arbitrary: margin ceil_ms)
  case (Suc r)
  show ?case
  proof (cases "earliest_hits L margin low ceil_ms")
    case None
    then show ?thesis using Suc.prems by simp
  next
    case (Some res)
    obtain k st where res: "res = (k, st)" by (cases res)
    show ?thesis
    proof (cases k)
      case None
      then show ?thesis using Suc.prems Some res by simp
    next
      case k: (Some k)
      obtain e source where st: "st = (e, source)" by (cases st)
      obtain v p where walk: "walk_path L source (length low) k \<lparr>path_links = [], path_left = high ! k, path_gaps = 0\<rparr> = Some (Inr (v, p))"
        using Suc.prems Some res k st by (auto split: option.splits sum.splits)
      obtain mc freed where share: "share_room L low high k v p (margin, ceil_ms) = (mc, freed)" by fastforce
      obtain m c where mc: "mc = (m, c)" by fastforce
      have "length c = length ceil_ms" using share_room_length [OF share] by (simp add: mc)
      then show ?thesis using Suc.IH [of m c] Suc.prems Some res k st walk share mc by (cases freed) simp_all
    qed
  qed
qed simp

lemma pick_activations_length:
  "pick_activations L inp margin picks (low, ceil_ms) = Some (low', ceil') \<Longrightarrow> length ceil' = length ceil_ms"
proof (induction picks arbitrary: low ceil_ms)
  case (Cons pk picks)
  obtain k middle where pk: "pk = (k, middle)" by fastforce
  show ?case using Cons.prems Cons.IH
    by (auto simp: pk Let_def split: option.splits prod.splits)
qed simp

text \<open>C11: hits that \<open>schedule_hits\<close> returns without naming an input it could not place are one time per
  input, never go back along the input order, and are strictly apart wherever sharing a time would
  change the play: every pair of inputs linked with no fixed distance, as two inputs of a lane are.\<close>

theorem schedule_hits_in_order:
  assumes "schedule_hits inp sections middle = Some (Inr (None, hits))"
    and "length (in_low_ms inp) = length (in_chart_ms inp)" "length (in_high_ms inp) = length (in_chart_ms inp)"
  shows "length hits = length (in_chart_ms inp) \<and> sorted hits
    \<and> (\<forall>(b, a, fixed) \<in> set (all_links inp sections). fixed = 0 \<longrightarrow> hits ! b < hits ! a)"
proof -
  let ?n = "length (in_chart_ms inp)"
  define L where "L = links_of inp sections"
  obtain low high e where fit: "fitting_bands L inp = Some (None, (low, high), e)"
    using assms(1) unfolding schedule_hits_def Let_def L_def [symmetric] by (auto split: option.splits prod.splits)
  obtain margin ceil_ms where settle: "settle_margins L low high (replicate (length (link_before L)) FRAME_MARGIN_MS)
      (map2 (\<lambda>h l. max (sub64 h FRAME_MARGIN_MS) l) high low) = Some (Inr (None, margin, ceil_ms))"
    and hits: "hits_of L inp low margin ceil_ms (zip (map fst sections) middle) = Some hits"
    and apart: "unseparated L hits = None"
    using assms(1) unfolding schedule_hits_def Let_def L_def [symmetric]
    by (auto simp: fit split: option.splits prod.splits sum.splits)
  obtain c where "(low, high) = pick_bands L inp c" using fitting_bands_cases [OF fit] by blast
  then have len: "length low = ?n" "length high = ?n"
    using pick_bands_length [of L inp c low high ?n] assms(2,3) by simp_all
  have ceil: "length ceil_ms = ?n"
    using settle_rounds_length [OF settle [unfolded settle_margins_def]] len by simp
  obtain low' ceil' late where picks: "pick_activations L inp margin (zip (map fst sections) middle) (low, ceil_ms) = Some (low', ceil')"
    and late: "latest_loop L margin ceil' = Some late"
    and fold: "hits = fold (hit_at L inp margin low' late) [0..<?n] []"
    using hits len(1) by (auto simp: hits_of_def split: option.splits)
  have ceil': "length ceil' = ?n" using pick_activations_length [OF picks] ceil by simp
  have "links_forward L (length ceil')" unfolding L_def ceil' by (rule links_of_forward) simp
  from latest_loop_sorted [OF late this] have late': "sorted late" "length late = ?n" using ceil' by simp_all
  have "length hits = ?n \<and> sorted hits" using fold_hit_at_sorted [OF late'(1), of ?n] late'(2) by (simp add: fold)
  moreover have "hits ! b < hits ! a" if link: "(b, a, 0) \<in> set (all_links inp sections)" for b a
  proof -
    obtain i where i: "i < length (all_links inp sections)" "all_links inp sections ! i = (b, a, 0)"
      using link by (auto simp: in_set_conv_nth)
    have "\<not> (link_fixed L ! i = 0 \<and> hits ! (link_after L ! i) \<le> hits ! (link_before L ! i))"
      using apart i(1) by (auto simp: unseparated_def find_None_iff L_def links_of_def Let_def)
    then show ?thesis using i by (simp add: L_def links_of_def Let_def not_le)
  qed
  ultimately show ?thesis by auto
qed

text \<open>Two taps of one lane, each free to move within its own window.\<close>

definition two_taps :: inputs where
  "two_taps = \<lparr>in_chart_ms = [1000, 1100], in_low_ms = [981, 1081], in_high_ms = [1040, 1140], in_reach_ms = [0, 0],
     in_early_ms = [None, None], in_lane = [1, 1], in_tail = [False, False], in_great = [False, False],
     in_fever = [False, False]\<rparr>"

definition two_links :: links where
  "two_links = \<lparr>link_before = [0], link_after = [1], link_fixed = [0], link_into = [0], link_into_start = [0, 0, 1],
     link_back = []\<rparr>"

lemma frame_values [code]:
  "FRAME_MARGIN_MS = 4972724588554923 / 281474976710656"
  "FASTEST_FRAME_MS = 3127499741229511 / 1125899906842624"
  "STRICT_MS = 4722366482869645 / 4722366482869645213696"
  "SLACK_MS = 4835703278458517 / 4835703278458516698824704"
  by code_simp+

lemma two_taps_links: "links_of two_taps [] = two_links"
  by code_simp

lemma two_taps_bands: "fitting_bands two_links two_taps = Some (None, ([981, 1081], [1040, 1140]), [981, 1081])"
  by code_simp

lemma two_taps_ceil:
  "max (sub64 1040 FRAME_MARGIN_MS) 981 = 8992539099703979 / 8796093022208"
  "max (sub64 1140 FRAME_MARGIN_MS) 1081 = 4936074200962389 / 4398046511104"
  by code_simp+

lemma two_taps_earliest: "earliest_hits two_links [FRAME_MARGIN_MS] [981, 1081]
    [8992539099703979 / 8796093022208, 4936074200962389 / 4398046511104] = Some (None, ([981, 1081], [- 1, - 1]))"
  by code_simp

lemma two_taps_settled: "settle_margins two_links [981, 1081] [1040, 1140] [FRAME_MARGIN_MS]
    [8992539099703979 / 8796093022208, 4936074200962389 / 4398046511104]
  = Some (Inr (None, [FRAME_MARGIN_MS], [8992539099703979 / 8796093022208, 4936074200962389 / 4398046511104]))"
  by (simp add: settle_margins_def two_taps_earliest)

lemma two_taps_latest: "latest_loop two_links [FRAME_MARGIN_MS]
    [8992539099703979 / 8796093022208, 4936074200962389 / 4398046511104]
  = Some [8992539099703979 / 8796093022208, 4936074200962389 / 4398046511104]"
  by code_simp

lemma two_taps_at:
  "hit_at two_links two_taps [FRAME_MARGIN_MS] [981, 1081]
     [8992539099703979 / 8796093022208, 4936074200962389 / 4398046511104] 0 [] = [1000]"
  "hit_at two_links two_taps [FRAME_MARGIN_MS] [981, 1081]
     [8992539099703979 / 8796093022208, 4936074200962389 / 4398046511104] (Suc 0) [1000] = [1000, 1100]"
  by code_simp+

lemma two_taps_hits: "hits_of two_links two_taps [981, 1081] [FRAME_MARGIN_MS]
    [8992539099703979 / 8796093022208, 4936074200962389 / 4398046511104] [] = Some [1000, 1100]"
  by (simp add: hits_of_def two_taps_latest two_taps_at upt_rec)

lemma two_taps_apart: "length (link_before two_links) = Suc 0" "unseparated two_links [1000, 1100] = None"
  by (simp_all add: two_links_def unseparated_def)

lemma two_taps_schedule: "schedule_hits two_taps [] [] = Some (Inr (None, [1000, 1100]))"
  unfolding schedule_hits_def Let_def two_taps_links
  by (simp add: two_taps_bands two_taps_ceil two_taps_settled two_taps_hits two_taps_apart)

lemma schedule_hits_in_order_witness:
  "schedule_hits two_taps [] [] = Some (Inr (None, [1000, 1100])) \<and> sorted [1000 :: f64, 1100]
    \<and> (0, 1, 0) \<in> set (all_links two_taps [])"
  using schedule_hits_in_order [OF two_taps_schedule] two_taps_schedule
  by (simp add: two_taps_def all_links_def)

end
