(* ===== verification/NoteGraph.thy ===== *)
theory NoteGraph
  imports HitSchedule
begin

text \<open>
  trace/note_graph.py: a stored build's note plan. A plan's columns are lists, one entry per note; a
  band is the first and last planned offset of a judgment. The Base plan plays every note Perfect in
  chart order; the Force Greats plan takes each section's Greats, merges the lanes in the order the
  trace schedules, and times the inputs. Lanes are not negative and the links of a trace name notes
  of the chart, as the trace's search gives them (the compiled order has no bounds checks).
\<close>

section \<open>The stored sections\<close>

definition PLAN_HEAD_NOTES :: nat where "PLAN_HEAD_NOTES = 100"
definition LATEST_PRESS_MS :: f64 where "LATEST_PRESS_MS = 200"

record trace_section =
  sec_number :: int
  sec_activation :: nat
  sec_fever_end :: nat
  sec_judgment :: string
  sec_hit_offset_ms :: f64
  sec_cutoff_ms :: f64
  sec_fever_duration_ms :: f64
  sec_forced_start :: nat
  sec_run_start :: nat
  sec_run_count :: nat
  sec_early_start :: int
  sec_early_end :: int
  sec_preactivation :: "nat list"

definition late_great :: "trace_section \<Rightarrow> bool" where
  "late_great sec \<longleftrightarrow> sec_judgment sec = ''late_great''"

section \<open>The plan\<close>

record note_bands =
  nb_perfect :: "f64 \<times> f64"
  nb_early_great :: "f64 \<times> f64"
  nb_late_great :: "f64 \<times> f64"

definition band_ends :: "band \<Rightarrow> f64 \<times> f64" where
  "band_ends b = (of_int (earliest b), of_int (latest b))"

definition tap_and_tail_bands :: "int \<Rightarrow> bool \<Rightarrow> note_bands" where
  "tap_and_tail_bands perfect_stat tail =
     (let b = judgment_bounds_of (if tail then HELD_TAIL_WINDOW_SCALE else 1) perfect_stat
      in \<lparr>nb_perfect = band_ends (perfect_band b), nb_early_great = band_ends (early_great_band b),
          nb_late_great = band_ends (late_great_band b)\<rparr>)"

record note_plan =
  np_hit_ms :: "f64 list"
  np_delta :: "f64 list"
  np_great :: "bool list"
  np_fever :: "bool list"
  np_activation_witness :: "bool list"
  np_section :: "int list"
  np_input_order :: "nat list"
  np_fever_ends :: "(nat, f64) dict"
  np_is_tail :: "bool list"
  np_lanes :: "nat list"
  np_bands :: "note_bands list"
  np_precise :: bool

record graph_note =
  gn_note_index :: nat
  gn_hit_time_ms :: f64
  gn_note_result :: string
  gn_delta_ms :: f64
  gn_input_order :: nat
  gn_fever :: bool
  gn_is_activation_witness :: bool
  gn_is_fever_end_witness :: bool
  gn_fever_end_ms :: "f64 option"
  gn_section :: int

definition graph :: "note_plan \<Rightarrow> graph_note list" where
  "graph plan = map (\<lambda>i.
     \<lparr>gn_note_index = i, gn_hit_time_ms = np_hit_ms plan ! i,
      gn_note_result = (if np_great plan ! i then ''Great'' else ''Perfect''),
      gn_delta_ms = np_delta plan ! i, gn_input_order = np_input_order plan ! i, gn_fever = np_fever plan ! i,
      gn_is_activation_witness = np_activation_witness plan ! i,
      gn_is_fever_end_witness = (map_of (np_fever_ends plan) i \<noteq> None),
      gn_fever_end_ms = map_of (np_fever_ends plan) i, gn_section = np_section plan ! i\<rparr>) [0..<length (np_hit_ms plan)]"

definition chart_times_ms :: "nat \<Rightarrow> f64 list \<Rightarrow> f64 list" where
  "chart_times_ms n_notes ts = map (\<lambda>t. of_int \<lfloor>add64 (mul64 t 1000) (1 / 2)\<rfloor>) (take n_notes ts)"

text \<open>A plan without a chart leaves out the last four columns.\<close>

definition empty_plan :: "f64 list \<Rightarrow> bool list \<Rightarrow> nat list \<Rightarrow> note_bands list \<Rightarrow> bool \<Rightarrow> note_plan" where
  "empty_plan hit_ms tails lane_ids bands precise =
     (let n = length hit_ms
      in \<lparr>np_hit_ms = hit_ms, np_delta = replicate n 0, np_great = replicate n False, np_fever = replicate n False,
          np_activation_witness = replicate n False, np_section = replicate n 0, np_input_order = [0..<n],
          np_fever_ends = [], np_is_tail = tails, np_lanes = lane_ids, np_bands = bands, np_precise = precise\<rparr>)"

definition new_plan :: "nat \<Rightarrow> f64 list \<Rightarrow> int list \<Rightarrow> nat list \<Rightarrow> string \<Rightarrow> int \<Rightarrow> note_plan res" where
  "new_plan n_notes ts types lane_ids mode perfect_stat =
     (if mode \<notin> set TIMING_MODES then Inl ValueError
      else let hit_ms = chart_times_ms n_notes ts; tails = map (\<lambda>ty. ty = HELD_TAIL_TYPE) types
      in if \<not> (length hit_ms = length tails \<and> length tails = length lane_ids \<and> length lane_ids = n_notes)
         then Inl ValueError
         else Inr (empty_plan hit_ms tails lane_ids (map (tap_and_tail_bands perfect_stat) tails) (mode \<noteq> NON_PRECISE)))"

section \<open>Greats that go early\<close>

definition last_in_lane :: "nat list \<Rightarrow> nat \<Rightarrow> nat option" where
  "last_in_lane lane_ids i = find (\<lambda>j. lane_ids ! j = lane_ids ! i) (rev [0..<i])"

definition next_in_lane :: "nat list \<Rightarrow> nat \<Rightarrow> nat option" where
  "next_in_lane lane_ids i = find (\<lambda>j. lane_ids ! j = lane_ids ! i) [Suc i..<length lane_ids]"

definition late_hit_ms :: "note_plan \<Rightarrow> nat \<Rightarrow> f64" where
  "late_hit_ms plan i = add64 (np_hit_ms plan ! i) (if np_great plan ! i then fst (nb_late_great (np_bands plan ! i)) else 0)"

text \<open>An early Great's last hit, a frame margin clear.\<close>

definition early_hit_ms :: "note_plan \<Rightarrow> nat \<Rightarrow> f64" where
  "early_hit_ms plan i = sub64 (add64 (np_hit_ms plan ! i) (snd (nb_early_great (np_bands plan ! i)))) FRAME_MARGIN_MS"

text \<open>A late hit would come within a frame margin of the lane's next note, and an early one has more
  room. The first and last notes of a lane have all the room there is.\<close>

definition crowded :: "note_plan \<Rightarrow> nat \<Rightarrow> bool" where
  "crowded plan i \<longleftrightarrow>
     (case next_in_lane (np_lanes plan) i of
        None \<Rightarrow> False
      | Some j \<Rightarrow>
          let room_late = sub64 (late_hit_ms plan j) (late_hit_ms plan i)
          in room_late < FRAME_MARGIN_MS
             \<and> (case last_in_lane (np_lanes plan) i of
                  None \<Rightarrow> True
                | Some p \<Rightarrow> add64 (sub64 (np_hit_ms plan ! i) (np_hit_ms plan ! p)) (snd (nb_early_great (np_bands plan ! i)))
                            > room_late))"

text \<open>\<open>np.cumsum\<close> of where the chart time changes.\<close>

definition chords :: "f64 list \<Rightarrow> nat list" where
  "chords hit_ms = map (\<lambda>i. length (filter (\<lambda>j. sub64 (hit_ms ! j) (hit_ms ! (j - 1)) \<noteq> 0) [1..<Suc i])) [0..<length hit_ms]"

definition ahead_of_chord :: "note_plan \<Rightarrow> nat \<Rightarrow> bool" where
  "ahead_of_chord plan i \<longleftrightarrow>
     (let chord = chords (np_hit_ms plan)
      in case find (\<lambda>j. \<not> np_great plan ! j \<and> chord ! j = chord ! i) [0..<length chord] of
           None \<Rightarrow> False | Some first_perfect \<Rightarrow> i < first_perfect)"

text \<open>An early hit stays behind each anchor before it.\<close>

definition behind_anchors :: "note_plan \<Rightarrow> trace_section list \<Rightarrow> nat \<Rightarrow> bool" where
  "behind_anchors plan sections i \<longleftrightarrow>
     list_all (\<lambda>sec. list_all (\<lambda>anchor. anchor < i \<longrightarrow> np_hit_ms plan ! anchor \<le> early_hit_ms plan i)
       [sec_activation sec, min (sec_fever_end sec) (length (np_hit_ms plan) - 1)]) sections"

definition early_greats :: "note_plan \<Rightarrow> trace_section list \<Rightarrow> bool list" where
  "early_greats plan sections =
     (let n = length (np_hit_ms plan)
      in if np_precise plan \<or> n = 0 then replicate n False
         else map (\<lambda>i. (crowded plan i \<or> ahead_of_chord plan i) \<and> np_great plan ! i
                \<and> i \<notin> set (map sec_activation sections) \<and> behind_anchors plan sections i) [0..<n])"

section \<open>The input order\<close>

text \<open>The chord that crosses the ramp is one tie: where the Greats past the ramp start to move.\<close>

definition ramp_end :: "note_plan \<Rightarrow> nat" where
  "ramp_end plan =
     (let n = length (np_hit_ms plan); first = min PLAN_HEAD_NOTES n
      in if 0 < first then first + length (takeWhile (\<lambda>i. np_hit_ms plan ! i = np_hit_ms plan ! (i - 1)) [first..<n]) else first)"

definition ranked_times_ms :: "note_plan \<Rightarrow> bool list \<Rightarrow> f64 list" where
  "ranked_times_ms plan early =
     map (\<lambda>i. if early ! i then early_hit_ms plan i
              else add64 (np_hit_ms plan ! i)
                     (if np_great plan ! i \<and> ramp_end plan \<le> i then fst (nb_late_great (np_bands plan ! i)) else 0))
       [0..<length (np_hit_ms plan)]"

text \<open>\<open>column[order] = values\<close>\<close>

definition scatter :: "nat list \<Rightarrow> 'a list \<Rightarrow> 'a list \<Rightarrow> 'a list" where
  "scatter order vals column = fold (\<lambda>(i, v) c. c[i := v]) (zip order vals) column"

definition merged_order :: "note_plan \<Rightarrow> (nat \<times> nat) list \<Rightarrow> bool list \<Rightarrow> (note_plan \<times> nat list) res" where
  "merged_order plan pairs early =
     (let n = length (np_hit_ms plan);
          ranks = scatter (argsort (ranked_times_ms plan early)) [0..<n] (replicate n 0);
          ordered = input_order_of (np_lanes plan) ranks pairs
      in if length ordered \<noteq> n then Inl UnplayableTrace
         else Inr (plan\<lparr>np_input_order := scatter ordered [0..<n] (np_input_order plan)\<rparr>, ordered))"

section \<open>Timing the inputs\<close>

definition input_offsets :: "note_plan \<Rightarrow> bool list \<Rightarrow> nat \<Rightarrow> f64 \<times> f64" where
  "input_offsets plan early i =
     (if early ! i then nb_early_great (np_bands plan ! i)
      else if np_great plan ! i then nb_late_great (np_bands plan ! i)
      else if np_precise plan then nb_perfect (np_bands plan ! i) else (0, 0))"

definition plan_inputs :: "note_plan \<Rightarrow> nat list \<Rightarrow> trace_section list \<Rightarrow> bool list \<Rightarrow> inputs" where
  "plan_inputs plan order sections early =
     (let hit = (\<lambda>i. np_hit_ms plan ! i); offsets = input_offsets plan early;
          activation = (\<lambda>i. i \<in> set (map sec_activation sections))
      in \<lparr>in_chart_ms = map hit order,
          in_low_ms = map (\<lambda>i. add64 (hit i) (fst (offsets i))) order,
          in_high_ms = map (\<lambda>i. add64 (hit i) (snd (offsets i))) order,
          in_reach_ms = map (\<lambda>i. mul64 (sub64 (snd (nb_perfect (np_bands plan ! i))) (snd (offsets i)))
            (if np_great plan ! i then 0 else 1)) order,
          in_early_ms = map (\<lambda>i. if np_great plan ! i \<and> \<not> early ! i \<and> \<not> activation i
            then Some (add64 (hit i) (fst (nb_early_great (np_bands plan ! i))), add64 (hit i) (snd (nb_early_great (np_bands plan ! i))))
            else None) order,
          in_lane = map (\<lambda>i. np_lanes plan ! i) order,
          in_tail = map (\<lambda>i. np_is_tail plan ! i) order,
          in_great = map (\<lambda>i. np_great plan ! i) order,
          in_fever = map (\<lambda>i. np_fever plan ! i) order\<rparr>)"

definition plan_windows :: "note_plan \<Rightarrow> trace_section list \<Rightarrow> schedule_section list" where
  "plan_windows plan sections =
     (let positions = map (\<lambda>sec. np_input_order plan ! sec_activation sec) sections
      in map2 (\<lambda>at_stop sec. (fst at_stop, snd at_stop, sec_fever_duration_ms sec))
           (zip positions (tl positions @ [length (np_hit_ms plan)])) sections)"

definition moved_activation :: "trace_section \<Rightarrow> bool" where
  "moved_activation sec \<longleftrightarrow> late_great sec \<or> sec_hit_offset_ms sec \<noteq> 0"

text \<open>A section's last fever note, where it has one. A section's end may lie past the chart.\<close>

definition last_fever :: "note_plan \<Rightarrow> trace_section \<Rightarrow> nat option" where
  "last_fever plan sec =
     (let stop = min (sec_fever_end sec) (length (np_hit_ms plan)) in if stop = 0 then None else Some (stop - 1))"

definition move_cutoff :: "trace_section \<Rightarrow> note_plan \<Rightarrow> note_plan" where
  "move_cutoff sec plan =
     (case last_fever plan sec of
        None \<Rightarrow> plan
      | Some k \<Rightarrow>
          if map_of (np_fever_ends plan) k = None then plan
          else plan\<lparr>np_fever_ends := AList.update k
                 (add64 (add64 (np_hit_ms plan ! sec_activation sec) (np_delta plan ! sec_activation sec))
                    (sec_fever_duration_ms sec)) (np_fever_ends plan)\<rparr>)"

text \<open>An activation outside the chart is an IndexError wherever a plan first reads or writes it.\<close>

definition activations_in :: "note_plan \<Rightarrow> trace_section list \<Rightarrow> bool" where
  "activations_in plan sections \<longleftrightarrow> list_all (\<lambda>sec. sec_activation sec < length (np_hit_ms plan)) sections"

definition schedule_plan :: "note_plan \<Rightarrow> nat list \<Rightarrow> trace_section list \<Rightarrow> bool list \<Rightarrow> note_plan res option" where
  "schedule_plan plan order sections early =
     (if \<not> activations_in plan sections then Some (Inl IndexError)
      else let inp = plan_inputs plan order sections early
      in map_option (\<lambda>r. bind_res r (\<lambda>(stopped, hits).
           if stopped \<noteq> None then Inl UnplayableTrace
           else let timed = plan\<lparr>np_delta := scatter order (map2 sub64 hits (in_chart_ms inp)) (np_delta plan)\<rparr>
                in Inr (if np_precise plan then fold move_cutoff sections timed else timed)))
         (schedule_hits inp (plan_windows plan sections) (map (\<lambda>sec. np_precise plan \<and> moved_activation sec) sections)))"

definition open_window :: "nat list \<Rightarrow> trace_section \<times> nat \<times> nat \<Rightarrow> bool list \<Rightarrow> bool list" where
  "open_window ordered = (\<lambda>(sec, first, stop) fever.
     let past = (case find (\<lambda>p. sec_fever_end sec \<le> ordered ! p) [Suc first..<stop] of None \<Rightarrow> stop | Some p \<Rightarrow> p)
     in fold (\<lambda>p f. f[ordered ! p := True]) [first..<past] fever)"

definition apply_schedule_fever :: "note_plan \<Rightarrow> nat list \<Rightarrow> trace_section list \<Rightarrow> note_plan res" where
  "apply_schedule_fever plan ordered sections =
     (let n = length (np_hit_ms plan); positions = map (\<lambda>sec. np_input_order plan ! sec_activation sec) sections
      in if positions \<noteq> sort positions then Inl UnplayableTrace
         else Inr (plan\<lparr>np_fever := fold (open_window ordered) (zip sections (zip positions (tl positions @ [n])))
                (replicate n False)\<rparr>))"

section \<open>Sections of a plan\<close>

definition mark_fever_end :: "trace_section \<Rightarrow> note_plan \<Rightarrow> note_plan" where
  "mark_fever_end sec plan =
     (case last_fever plan sec of
        None \<Rightarrow> plan
      | Some k \<Rightarrow>
          if sec_activation sec \<le> k
          then plan\<lparr>np_fever_ends := AList.update k (sec_cutoff_ms sec) (np_fever_ends plan),
                    np_section := (np_section plan)[k := sec_number sec]\<rparr>
          else plan)"

text \<open>\<open>column[first:stop]\<close> rewritten in place\<close>

definition map_range :: "nat \<Rightarrow> nat \<Rightarrow> ('a \<Rightarrow> 'a) \<Rightarrow> 'a list \<Rightarrow> 'a list" where
  "map_range first stop f xs = map (\<lambda>(i, x). if first \<le> i \<and> i < stop then f x else x) (zip [0..<length xs] xs)"

definition claim_notes :: "nat \<Rightarrow> nat \<Rightarrow> trace_section \<Rightarrow> note_plan \<Rightarrow> note_plan" where
  "claim_notes first stop sec plan =
     plan\<lparr>np_section := map_range first stop (\<lambda>s. if s = 0 then sec_number sec else s) (np_section plan)\<rparr>"

definition mark_section_fever :: "trace_section \<Rightarrow> note_plan \<Rightarrow> note_plan" where
  "mark_section_fever sec plan =
     claim_notes (sec_activation sec) (sec_fever_end sec) sec
       (plan\<lparr>np_fever := map_range (sec_activation sec) (sec_fever_end sec) (\<lambda>_. True) (np_fever plan)\<rparr>)"

definition mark_activation :: "trace_section \<Rightarrow> note_plan \<Rightarrow> note_plan" where
  "mark_activation sec plan =
     plan\<lparr>np_activation_witness := (np_activation_witness plan)[sec_activation sec := True],
          np_section := (np_section plan)[sec_activation sec := sec_number sec]\<rparr>"

definition timeline_frontier_plan ::
    "trace_section list \<Rightarrow> nat \<Rightarrow> f64 list \<Rightarrow> int list \<Rightarrow> nat list \<Rightarrow> string \<Rightarrow> int \<Rightarrow> note_plan res option" where
  "timeline_frontier_plan sections n_notes ts types lane_ids mode perfect_stat =
     (case new_plan n_notes ts types lane_ids mode perfect_stat of
        Inl e \<Rightarrow> Some (Inl e)
      | Inr plan \<Rightarrow>
          let marked = fold (\<lambda>sec p. mark_fever_end sec
                ((if np_precise plan then mark_activation sec else id) (mark_section_fever sec p))) sections plan
          in if \<not> np_precise plan then Some (Inr marked)
             else schedule_plan marked [0..<n_notes] sections (replicate n_notes False))"

definition timeline_frontier_note_graph ::
    "trace_section list \<Rightarrow> nat \<Rightarrow> f64 list \<Rightarrow> int list \<Rightarrow> nat list \<Rightarrow> string \<Rightarrow> int \<Rightarrow> graph_note list res option" where
  "timeline_frontier_note_graph sections n_notes ts types lane_ids mode perfect_stat =
     map_option (\<lambda>r. bind_res r (Inr \<circ> graph)) (timeline_frontier_plan sections n_notes ts types lane_ids mode perfect_stat)"

definition base_note_graph :: "nat \<Rightarrow> f64 list \<Rightarrow> bool list \<Rightarrow> graph_note list res" where
  "base_note_graph n_notes ts is_fever_mask =
     (let hit_ms = chart_times_ms n_notes ts
      in if length hit_ms < n_notes \<or> length is_fever_mask < n_notes then Inl ValueError
         else Inr (graph ((empty_plan hit_ms [] [] [] False)\<lparr>np_fever := take n_notes is_fever_mask\<rparr>)))"

section \<open>The Force Greats plan\<close>

definition mark_forced_run :: "trace_section \<Rightarrow> note_plan \<Rightarrow> note_plan" where
  "mark_forced_run sec plan =
     (let first = sec_run_start sec; stop = first + sec_run_count sec;
          p = mark_section_fever sec (claim_notes first stop sec
                (plan\<lparr>np_great := map_range first stop (\<lambda>_. True) (np_great plan)\<rparr>))
      in if late_great sec then p\<lparr>np_great := (np_great p)[sec_activation sec := True]\<rparr> else p)"

text \<open>The Greats near an anchor stay on their side of it.\<close>

definition anchor_links :: "note_plan \<Rightarrow> trace_section \<Rightarrow> (nat \<times> nat) list" where
  "anchor_links plan sec =
     concat (map (\<lambda>anchor.
       if anchor < length (np_hit_ms plan) then
         let first = searchsorted_left (np_hit_ms plan) (sub64 (np_hit_ms plan ! anchor) (mul64 2 LATEST_PRESS_MS));
             stop = searchsorted_left (np_hit_ms plan) (add64 (np_hit_ms plan ! anchor) (mul64 2 LATEST_PRESS_MS))
         in map (\<lambda>j. if j < anchor then (j, anchor) else (anchor, j))
              (filter (\<lambda>j. np_great plan ! j \<and> j \<noteq> anchor) [first..<stop])
       else []) [sec_activation sec, sec_fever_end sec])"

text \<open>Each lane's first note that is not planned before the activation goes after it.\<close>

fun held_links :: "nat \<Rightarrow> nat list \<Rightarrow> nat list \<Rightarrow> nat list \<Rightarrow> nat list \<Rightarrow> (nat \<times> nat) list" where
  "held_links a planned lane_ids held [] = []"
| "held_links a planned lane_ids held (j # js) =
     (if j \<in> set planned \<or> lane_ids ! j \<in> set held then held_links a planned lane_ids held js
      else (a, j) # held_links a planned lane_ids (lane_ids ! j # held) js)"

definition section_links_of :: "note_plan \<Rightarrow> trace_section \<Rightarrow> (nat \<times> nat) list" where
  "section_links_of plan sec =
     (let a = sec_activation sec;
          planned = sec_preactivation sec @ [a];
          stop = searchsorted_right (np_hit_ms plan) (add64 (np_hit_ms plan ! a) (mul64 2 LATEST_PRESS_MS))
      in (if sec_forced_start sec = 0 then [] else [(sec_forced_start sec - 1, hd planned)])
         @ zip planned (tl planned)
         @ held_links a planned (np_lanes plan) [] [sec_forced_start sec..<stop])"

text \<open>The early tail's fever notes become Greats that go early.\<close>

definition extend_tail :: "trace_section \<Rightarrow> note_plan \<times> bool list \<Rightarrow> note_plan \<times> bool list" where
  "extend_tail sec = (\<lambda>(plan, early).
     if sec_early_start sec < 0 \<or> sec_early_end sec < 0 then (plan, early)
     else let first = max (sec_activation sec) (nat (sec_early_start sec));
              stop = min (nat (sec_early_end sec)) (sec_fever_end sec);
              extending = (\<lambda>i. first \<le> i \<and> i < stop \<and> np_fever plan ! i \<and> \<not> np_activation_witness plan ! i);
              taking = (\<lambda>column. map (\<lambda>i. column ! i \<or> extending i) [0..<length (np_hit_ms plan)])
          in (plan\<lparr>np_great := taking (np_great plan)\<rparr>, taking early))"

type_synonym linking = "note_plan \<times> bool list \<times> (nat \<times> nat) list"

definition link_section :: "trace_section \<Rightarrow> linking \<Rightarrow> linking" where
  "link_section sec = (\<lambda>(plan, early, pairs).
     let p = mark_fever_end sec plan
     in if \<not> np_precise p then (p, early, pairs @ anchor_links p sec)
        else case extend_tail sec (if moved_activation sec then mark_activation sec p else p, early) of
          (p', early') \<Rightarrow> (p', early', pairs @ section_links_of p' sec))"

definition force_greats_plan ::
    "trace_section list \<Rightarrow> nat \<Rightarrow> f64 list \<Rightarrow> int list \<Rightarrow> nat list \<Rightarrow> string \<Rightarrow> int \<Rightarrow> note_plan res option" where
  "force_greats_plan sections n_notes ts types lane_ids mode perfect_stat =
     (case new_plan n_notes ts types lane_ids mode perfect_stat of
        Inl e \<Rightarrow> Some (Inl e)
      | Inr plan \<Rightarrow>
          if \<not> activations_in plan sections then Some (Inl IndexError)
          else let marked = fold mark_forced_run sections plan
          in case fold link_section sections (marked, early_greats marked sections, []) of
               (linked, early, pairs) \<Rightarrow>
                 (case bind_res (merged_order linked pairs early) (\<lambda>(p, ordered).
                     map_sum id (\<lambda>q. (q, ordered))
                       (if np_precise p then apply_schedule_fever p ordered sections else Inr p)) of
                    Inl e \<Rightarrow> Some (Inl e)
                  | Inr (q, ordered) \<Rightarrow> schedule_plan q ordered sections early))"

definition force_greats_note_graph ::
    "trace_section list \<Rightarrow> nat \<Rightarrow> f64 list \<Rightarrow> int list \<Rightarrow> nat list \<Rightarrow> string \<Rightarrow> int \<Rightarrow> graph_note list res option" where
  "force_greats_note_graph sections n_notes ts types lane_ids mode perfect_stat =
     map_option (\<lambda>r. bind_res r (Inr \<circ> graph)) (force_greats_plan sections n_notes ts types lane_ids mode perfect_stat)"

section \<open>A plan against its score surface\<close>

text \<open>The words are read as little-endian 32-bit integers; a value outside them is an OverflowError.\<close>

definition head_bits :: "int list \<Rightarrow> nat \<Rightarrow> bool list res" where
  "head_bits words head_limit =
     (if list_all (\<lambda>w. 0 \<le> w \<and> w < 2 ^ 32) words
      then Inr (map (\<lambda>i. bit (words ! (i div 32)) (i mod 32)) [0..<min head_limit (32 * length words)])
      else Inl OverflowError)"

definition count_true :: "bool list \<Rightarrow> int" where
  "count_true bs = int (length (filter id bs))"

definition reconcile_base_plan :: "note_plan \<Rightarrow> int list \<Rightarrow> unit res" where
  "reconcile_base_plan plan surface =
     (if length surface \<noteq> 6 then Inl ValueError
      else let n = length (np_hit_ms plan); head_limit = min n PLAN_HEAD_NOTES
      in bind_res (head_bits (take 4 surface) head_limit) (\<lambda>head.
           let body_fever = count_true (drop PLAN_HEAD_NOTES (np_fever plan)); body_total = int (n - PLAN_HEAD_NOTES)
           in if take head_limit (np_fever plan) \<noteq> head then Inl ValueError
              else if body_fever \<noteq> surface ! 4 \<or> body_total - body_fever \<noteq> surface ! 5 then Inl ValueError
              else Inr ()))"

definition head_matches :: "bool list \<Rightarrow> nat \<Rightarrow> int list \<Rightarrow> unit res" where
  "head_matches column head_limit words =
     bind_res (head_bits words head_limit) (\<lambda>head. if take head_limit column \<noteq> head then Inl ValueError else Inr ())"

definition reconcile_force_greats_plan :: "note_plan \<Rightarrow> int list \<Rightarrow> int list \<Rightarrow> int \<Rightarrow> int \<Rightarrow> int \<Rightarrow> unit res" where
  "reconcile_force_greats_plan plan fever_ws great_ws bf bg bfg =
     (let n = length (np_hit_ms plan); head_limit = min n PLAN_HEAD_NOTES
      in bind_res (head_matches (np_fever plan) head_limit fever_ws) (\<lambda>_.
         bind_res (head_matches (np_great plan) head_limit great_ws) (\<lambda>_.
           if count_true (drop PLAN_HEAD_NOTES (np_fever plan)) \<noteq> bf then Inl ValueError
           else if count_true (drop PLAN_HEAD_NOTES (np_great plan)) \<noteq> bg then Inl ValueError
           else if count_true (map2 (\<and>) (drop PLAN_HEAD_NOTES (np_fever plan)) (drop PLAN_HEAD_NOTES (np_great plan))) \<noteq> bfg
           then Inl ValueError else Inr ())))"

section \<open>Every plan is well formed\<close>

lemma scatter_length [simp]: "length (scatter order vals column) = length column"
  unfolding scatter_def by (induction order vals arbitrary: column rule: list_induct2') auto

lemma scatter_Cons [simp]: "scatter (i # order) (v # vals) column = scatter order vals (column[i := v])"
  by (simp add: scatter_def)

lemma scatter_other:
  "k \<notin> set order \<Longrightarrow> scatter order vals column ! k = column ! k"
proof (induction order vals arbitrary: column rule: list_induct2')
  case (4 i order v vals)
  then show ?case by simp
qed (simp_all add: scatter_def)

lemma scatter_nth:
  "distinct order \<Longrightarrow> set order \<subseteq> {..<length column} \<Longrightarrow> length vals = length order \<Longrightarrow> p < length order \<Longrightarrow>
     scatter order vals column ! (order ! p) = vals ! p"
proof (induction order arbitrary: column vals p)
  case (Cons i order)
  obtain v vs where v: "vals = v # vs" using Cons.prems(3) by (cases vals) auto
  show ?case
  proof (cases p)
    case 0
    then show ?thesis using Cons.prems by (simp add: v scatter_other)
  next
    case (Suc q)
    then show ?thesis using Cons.prems Cons.IH [of "column[i := v]" vs q] by (simp add: v)
  qed
qed simp

text \<open>One entry per note in every column, each place of the input stream taken once, the fever ends on
  notes of the chart.\<close>

definition wf_plan :: "nat \<Rightarrow> nat list \<Rightarrow> note_plan \<Rightarrow> bool" where
  "wf_plan n lane_ids plan \<longleftrightarrow>
     length (np_hit_ms plan) = n \<and> length (np_delta plan) = n \<and> length (np_great plan) = n \<and> length (np_fever plan) = n
     \<and> length (np_activation_witness plan) = n \<and> length (np_section plan) = n
     \<and> length (np_input_order plan) = n \<and> distinct (np_input_order plan) \<and> set (np_input_order plan) = {..<n}
     \<and> dom (map_of (np_fever_ends plan)) \<subseteq> {..<n}
     \<and> length (np_is_tail plan) = n \<and> np_lanes plan = lane_ids \<and> length lane_ids = n \<and> length (np_bands plan) = n"

lemma map_range_length [simp]: "length (map_range first stop f xs) = length xs"
  by (simp add: map_range_def)

lemma new_plan_wf: "new_plan n ts types lane_ids mode stat = Inr plan \<Longrightarrow> wf_plan n lane_ids plan"
  by (auto simp: new_plan_def Let_def wf_plan_def empty_plan_def split: if_splits)

lemma new_plan_order: "new_plan n ts types lane_ids mode stat = Inr plan \<Longrightarrow> np_input_order plan = [0..<n]"
  by (auto simp: new_plan_def Let_def empty_plan_def split: if_splits)

lemma last_fever_in: "last_fever plan sec = Some k \<Longrightarrow> k < length (np_hit_ms plan)"
  by (cases "np_hit_ms plan") (auto simp: last_fever_def Let_def min_def split: if_splits)

lemma claim_notes_wf: "wf_plan n lane_ids plan \<Longrightarrow> wf_plan n lane_ids (claim_notes first stop sec plan)"
  by (simp add: wf_plan_def claim_notes_def)

lemma mark_section_fever_wf: "wf_plan n lane_ids plan \<Longrightarrow> wf_plan n lane_ids (mark_section_fever sec plan)"
  unfolding mark_section_fever_def by (rule claim_notes_wf) (simp add: wf_plan_def)

lemma mark_activation_wf: "wf_plan n lane_ids plan \<Longrightarrow> wf_plan n lane_ids (mark_activation sec plan)"
  by (simp add: wf_plan_def mark_activation_def)

lemma mark_fever_end_wf: "wf_plan n lane_ids plan \<Longrightarrow> wf_plan n lane_ids (mark_fever_end sec plan)"
  using last_fever_in [of plan sec] by (auto simp: wf_plan_def mark_fever_end_def split: option.splits)

lemma move_cutoff_wf: "wf_plan n lane_ids plan \<Longrightarrow> wf_plan n lane_ids (move_cutoff sec plan)"
  using last_fever_in [of plan sec] by (auto simp: wf_plan_def move_cutoff_def split: option.splits)

lemma mark_forced_run_wf: "wf_plan n lane_ids plan \<Longrightarrow> wf_plan n lane_ids (mark_forced_run sec plan)"
proof -
  assume plan: "wf_plan n lane_ids plan"
  then have "wf_plan n lane_ids (plan\<lparr>np_great := map_range first stop (\<lambda>_. True) (np_great plan)\<rparr>)" for first stop
    by (simp add: wf_plan_def)
  then have "wf_plan n lane_ids (mark_section_fever sec (claim_notes first stop sec
      (plan\<lparr>np_great := map_range first stop (\<lambda>_. True) (np_great plan)\<rparr>)))" for first stop
    by (intro mark_section_fever_wf claim_notes_wf)
  then show ?thesis by (simp add: mark_forced_run_def Let_def wf_plan_def)
qed

lemma extend_tail_wf:
  "wf_plan n lane_ids plan \<Longrightarrow> wf_plan n lane_ids (fst (extend_tail sec (plan, early)))"
  by (simp add: extend_tail_def Let_def wf_plan_def)

lemma link_section_wf: "wf_plan n lane_ids (fst st) \<Longrightarrow> wf_plan n lane_ids (fst (link_section sec st))"
proof -
  assume st: "wf_plan n lane_ids (fst st)"
  obtain plan early pairs where eq: "st = (plan, early, pairs)" by (cases st)
  let ?p = "mark_fever_end sec plan"
  have p: "wf_plan n lane_ids ?p" using st by (simp add: eq mark_fever_end_wf)
  then have "wf_plan n lane_ids (if moved_activation sec then mark_activation sec ?p else ?p)" by (simp add: mark_activation_wf)
  from extend_tail_wf [OF this, of sec early] p show ?thesis
    by (auto simp: link_section_def eq Let_def split: prod.splits)
qed

lemma fold_invariant: "P s \<Longrightarrow> (\<And>x s. P s \<Longrightarrow> P (f x s)) \<Longrightarrow> P (fold f xs s)"
  by (induction xs arbitrary: s) auto

lemma fold_move_cutoff_wf: "wf_plan n lane_ids plan \<Longrightarrow> wf_plan n lane_ids (fold move_cutoff sections plan)"
  by (rule fold_invariant [where P = "wf_plan n lane_ids"]) (simp_all add: move_cutoff_wf)

lemma move_cutoff_order: "np_input_order (move_cutoff sec plan) = np_input_order plan"
  by (simp add: move_cutoff_def split: option.splits)

lemma fold_move_cutoff_order: "np_input_order (fold move_cutoff sections plan) = np_input_order plan"
  by (induction sections arbitrary: plan) (simp_all add: move_cutoff_order)

lemma schedule_plan_result:
  assumes "schedule_plan plan order sections early = Some (Inr plan')"
  obtains hits where "plan' = (let timed = plan\<lparr>np_delta := scatter order (map2 sub64 hits (map ((!) (np_hit_ms plan)) order))
      (np_delta plan)\<rparr> in if np_precise plan then fold move_cutoff sections timed else timed)"
    and "schedule_hits (plan_inputs plan order sections early) (plan_windows plan sections)
      (map (\<lambda>sec. np_precise plan \<and> moved_activation sec) sections) = Some (Inr (None, hits))"
  using assms
  by (auto simp: schedule_plan_def Let_def bind_res_eq_Inr plan_inputs_def split: if_splits)

lemma schedule_plan_wf:
  assumes "schedule_plan plan order sections early = Some (Inr plan')" "wf_plan n lane_ids plan"
  shows "wf_plan n lane_ids plan'" "np_input_order plan' = np_input_order plan"
proof -
  obtain hits where plan': "plan' = (let timed = plan\<lparr>np_delta := scatter order (map2 sub64 hits (map ((!) (np_hit_ms plan)) order))
      (np_delta plan)\<rparr> in if np_precise plan then fold move_cutoff sections timed else timed)"
    using schedule_plan_result [OF assms(1)] .
  have "wf_plan n lane_ids (plan\<lparr>np_delta := scatter order xs (np_delta plan)\<rparr>)" for xs
    using assms(2) by (simp add: wf_plan_def)
  then show "wf_plan n lane_ids plan'" unfolding plan' Let_def by (simp add: fold_move_cutoff_wf)
  show "np_input_order plan' = np_input_order plan" unfolding plan' Let_def by (simp add: fold_move_cutoff_order)
qed

text \<open>Each lane's notes are input in chart order.\<close>

definition lanes_play_in_order :: "note_plan \<Rightarrow> bool" where
  "lanes_play_in_order plan \<longleftrightarrow>
     (\<forall>j < length (np_lanes plan). \<forall>i < j. np_lanes plan ! i = np_lanes plan ! j \<longrightarrow> np_input_order plan ! i < np_input_order plan ! j)"

lemma legal_order_lanes:
  assumes legal: "legal_order lane_of pairs ordered" and j: "q < length ordered" "i < ordered ! q" "lane_of ! i = lane_of ! (ordered ! q)"
  obtains p where "p < q" "ordered ! p = i"
proof -
  have "free_note lane_of pairs (take q ordered) (ordered ! q)" using legal j(1) by (simp add: legal_order_def)
  then have "i \<in> set (take q ordered)" using j(2,3) by (simp add: free_note_def)
  then show ?thesis using that j(1) by (auto simp: in_set_conv_nth)
qed

lemma scatter_places:
  assumes "legal_order lane_of pairs ordered" "length column = length lane_of"
  defines "places \<equiv> scatter ordered [0..<length lane_of] column"
  shows "p < length lane_of \<Longrightarrow> places ! (ordered ! p) = p"
    and "length places = length lane_of" "distinct places" "set places = {..<length lane_of}"
    and "j < length lane_of \<Longrightarrow> i < j \<Longrightarrow> lane_of ! i = lane_of ! j \<Longrightarrow> places ! i < places ! j"
proof -
  let ?n = "length lane_of"
  note perm = legal_order_permutes [OF assms(1)]
  have len: "length ordered = ?n" using assms(1) by (simp add: legal_order_def)
  have at: "places ! (ordered ! p) = p" if "p < ?n" for p
    using scatter_nth [of ordered column "[0..<?n]" p] perm that len assms(2) by (simp add: places_def)
  then show "p < ?n \<Longrightarrow> places ! (ordered ! p) = p" .
  show l: "length places = ?n" by (simp add: places_def assms(2))
  have inv: "\<exists>p < ?n. ordered ! p = i \<and> places ! i = p" if "i < ?n" for i
  proof -
    have "i \<in> set ordered" using perm that by simp
    then obtain p where "p < ?n" "ordered ! p = i" by (auto simp: in_set_conv_nth len)
    then show ?thesis using at by blast
  qed
  show "distinct places"
    unfolding distinct_conv_nth l using inv by metis
  show "set places = {..<?n}"
  proof
    show "set places \<subseteq> {..<?n}" using inv by (fastforce simp: in_set_conv_nth l)
    show "{..<?n} \<subseteq> set places"
    proof
      fix p assume "p \<in> {..<?n}"
      moreover from this have "ordered ! p < ?n" using perm(2) len nth_mem [of p ordered] by simp
      ultimately show "p \<in> set places" using at [of p] l nth_mem [of "ordered ! p" places] by simp
    qed
  qed
  show "places ! i < places ! j" if j: "j < ?n" and ij: "i < j" "lane_of ! i = lane_of ! j" for i j
  proof -
    obtain q where q: "q < ?n" "ordered ! q = j" "places ! j = q" using inv [OF j] by blast
    have qi: "q < length ordered" "i < ordered ! q" "lane_of ! i = lane_of ! (ordered ! q)" using q ij len by simp_all
    obtain p where "p < q" "ordered ! p = i" using legal_order_lanes [OF assms(1) qi] .
    then show ?thesis using at [of p] q by simp
  qed
qed

lemma merged_order_wf:
  assumes merged: "merged_order plan pairs early = Inr (plan', ordered)" and wf: "wf_plan n lane_ids plan"
  shows "wf_plan n lane_ids plan'" "lanes_play_in_order plan'" "length ordered = n" "distinct ordered" "set ordered = {..<n}"
proof -
  define ranks where "ranks = scatter (argsort (ranked_times_ms plan early)) [0..<n] (replicate n 0)"
  have len: "length ranks = n" "length lane_ids = n" "np_lanes plan = lane_ids" "length (np_hit_ms plan) = n"
    using wf by (simp_all add: ranks_def wf_plan_def)
  have eq: "ordered = input_order_of lane_ids ranks pairs" "length ordered = n"
    "plan' = plan\<lparr>np_input_order := scatter ordered [0..<n] (np_input_order plan)\<rparr>"
    using merged by (auto simp: merged_order_def Let_def len ranks_def [symmetric] split: if_splits)
  have legal: "legal_order lane_ids pairs ordered"
    using input_order_greedy [of lane_ids n ranks pairs] len eq(2) unfolding eq(1) by simp
  have "length (np_input_order plan) = length lane_ids" using wf by (simp add: wf_plan_def)
  note places = scatter_places [OF legal this]
  show "wf_plan n lane_ids plan'" using wf places(2,3,4) by (simp add: wf_plan_def eq(3) len(2))
  show "lanes_play_in_order plan'" using places(5) by (simp add: lanes_play_in_order_def eq(3) len(2,3))
  show "length ordered = n" "distinct ordered" "set ordered = {..<n}"
    using legal_order_permutes [OF legal] eq(2) len(2) by simp_all
qed

lemma open_window_length [simp]: "length (open_window ordered w fever) = length fever"
proof -
  have "length (fold (\<lambda>p f. f[ordered ! p := True]) ps f) = length f" for ps and f :: "bool list"
    by (induction ps arbitrary: f) simp_all
  then show ?thesis by (simp add: open_window_def Let_def split: prod.splits)
qed

lemma apply_schedule_fever_wf:
  assumes "apply_schedule_fever plan ordered sections = Inr plan'" "wf_plan n lane_ids plan"
  shows "wf_plan n lane_ids plan'" "np_input_order plan' = np_input_order plan"
proof -
  have "length (fold (open_window ordered) ws (replicate n False)) = n" for ws
    by (rule fold_invariant [where P = "\<lambda>f. length f = n"]) simp_all
  note len = this
  have "\<exists>ws. plan' = plan\<lparr>np_fever := fold (open_window ordered) ws (replicate (length (np_hit_ms plan)) False)\<rparr>"
    using assms(1) unfolding apply_schedule_fever_def Let_def by (auto split: if_splits)
  then obtain ws where "plan' = plan\<lparr>np_fever := fold (open_window ordered) ws (replicate (length (np_hit_ms plan)) False)\<rparr>" ..
  then show "wf_plan n lane_ids plan'" "np_input_order plan' = np_input_order plan"
    using assms(2) len by (simp_all add: wf_plan_def)
qed

lemma lanes_play_cong: "np_lanes p = np_lanes q \<Longrightarrow> np_input_order p = np_input_order q \<Longrightarrow> lanes_play_in_order p = lanes_play_in_order q"
  by (simp add: lanes_play_in_order_def)

lemma timeline_frontier_plan_wf:
  assumes "timeline_frontier_plan sections n ts types lane_ids mode stat = Some (Inr plan)"
  shows "wf_plan n lane_ids plan \<and> lanes_play_in_order plan"
proof -
  obtain start where start: "new_plan n ts types lane_ids mode stat = Inr start"
    using assms by (auto simp: timeline_frontier_plan_def split: sum.splits)
  define mark where "mark = (\<lambda>sec p. mark_fever_end sec ((if np_precise start then mark_activation sec else id) (mark_section_fever sec p)))"
  define marked where "marked = fold mark sections start"
  have step: "wf_plan n lane_ids (mark sec p)" if "wf_plan n lane_ids p" for sec p
    unfolding mark_def using that by (simp add: mark_fever_end_wf mark_activation_wf mark_section_fever_wf)
  have keep: "np_input_order (mark sec p) = np_input_order p" for sec p
    by (simp add: mark_def mark_fever_end_def mark_activation_def mark_section_fever_def claim_notes_def split: option.splits)
  have "np_input_order (fold mark secs p) = np_input_order p" for secs p
    by (induction secs arbitrary: p) (simp_all add: keep)
  then have order: "np_input_order marked = [0..<n]" unfolding marked_def using new_plan_order [OF start] by simp
  have wf: "wf_plan n lane_ids marked"
    unfolding marked_def by (rule fold_invariant [where P = "wf_plan n lane_ids", OF new_plan_wf [OF start]]) (rule step)
  have result: "plan = marked \<or> schedule_plan marked [0..<n] sections (replicate n False) = Some (Inr plan)"
    using assms unfolding timeline_frontier_plan_def start sum.case Let_def mark_def [symmetric] marked_def [symmetric]
    by (auto split: if_splits)
  then have "wf_plan n lane_ids plan" "np_input_order plan = [0..<n]"
    using wf order schedule_plan_wf [OF _ wf] by auto
  then show ?thesis by (simp add: lanes_play_in_order_def wf_plan_def)
qed

lemma guarded_case_Some:
  "(if b then Some (Inl e) else case r of Inl e \<Rightarrow> Some (Inl e) | Inr (q, k) \<Rightarrow> f q k) = Some (Inr x) \<Longrightarrow>
     \<exists>q k. r = Inr (q, k) \<and> f q k = Some (Inr x)"
  by (auto split: if_splits sum.splits)

lemma map_sum_pair: "map_sum id (\<lambda>q. (q, k)) r = Inr (q', k') \<Longrightarrow> r = Inr q' \<and> k = k'"
  by (cases r) auto

lemma force_greats_plan_wf:
  assumes "force_greats_plan sections n ts types lane_ids mode stat = Some (Inr plan)"
  shows "wf_plan n lane_ids plan \<and> lanes_play_in_order plan"
proof -
  obtain start where start: "new_plan n ts types lane_ids mode stat = Inr start"
    using assms by (cases "new_plan n ts types lane_ids mode stat") (simp add: force_greats_plan_def, blast)
  define marked where "marked = fold mark_forced_run sections start"
  obtain linked early pairs where link: "fold link_section sections (marked, early_greats marked sections, []) = (linked, early, pairs)"
    by (cases "fold link_section sections (marked, early_greats marked sections, [])")
  define merge where "merge = bind_res (merged_order linked pairs early) (\<lambda>(p, ordered). map_sum id (\<lambda>q. (q, ordered))
      (if np_precise p then apply_schedule_fever p ordered sections else Inr p))"
  have guarded: "(if \<not> activations_in start sections then Some (Inl IndexError)
      else case merge of Inl e \<Rightarrow> Some (Inl e) | Inr (q, ordered) \<Rightarrow> schedule_plan q ordered sections early) = Some (Inr plan)"
    using assms by (simp only: force_greats_plan_def start sum.case Let_def marked_def [symmetric] link prod.case merge_def)
  obtain q ordered where merged: "merge = Inr (q, ordered)" and plan: "schedule_plan q ordered sections early = Some (Inr plan)"
    using guarded_case_Some [OF guarded] by blast
  obtain p order where p: "merged_order linked pairs early = Inr (p, order)"
    and rest: "map_sum id (\<lambda>q. (q, order)) (if np_precise p then apply_schedule_fever p order sections else Inr p) = Inr (q, ordered)"
    using merged unfolding merge_def by (auto simp: bind_res_eq_Inr)
  have q: "(if np_precise p then apply_schedule_fever p order sections else Inr p) = Inr q" "order = ordered"
    using map_sum_pair [OF rest] by blast+
  note p = p [unfolded q(2)] and q = q(1) [unfolded q(2)]
  have "wf_plan n lane_ids marked"
    unfolding marked_def by (rule fold_invariant [where P = "wf_plan n lane_ids", OF new_plan_wf [OF start]]) (rule mark_forced_run_wf)
  then have "wf_plan n lane_ids (fst (fold link_section sections (marked, early_greats marked sections, [])))"
    by (intro fold_invariant [where P = "\<lambda>st. wf_plan n lane_ids (fst st)"] link_section_wf) simp_all
  then have linked: "wf_plan n lane_ids linked" by (simp add: link)
  note p_wf = merged_order_wf [OF p linked]
  have q_wf: "wf_plan n lane_ids q" "np_input_order q = np_input_order p"
    using q apply_schedule_fever_wf [OF _ p_wf(1), of ordered sections q] p_wf(1) by (auto split: if_splits)
  note plan_wf = schedule_plan_wf [OF plan q_wf(1)]
  have "lanes_play_in_order plan = lanes_play_in_order p"
    by (rule lanes_play_cong) (use plan_wf q_wf p_wf(1) in \<open>simp_all add: wf_plan_def\<close>)
  then show ?thesis using plan_wf(1) p_wf(2) by simp
qed

section \<open>Head masks read back\<close>

lemma mark_word32:
  fixes ws :: "32 word list"
  assumes "n div 32 < length ws"
  shows "bit (ws[n div 32 := ws ! (n div 32) OR push_bit (n mod 32) 1] ! (k div 32)) (k mod 32)
    \<longleftrightarrow> bit (ws ! (k div 32)) (k mod 32) \<or> k = n"
proof (cases "k div 32 = n div 32")
  case True
  then have "k mod 32 = n mod 32 \<longleftrightarrow> k = n" by (metis div_mod_decomp)
  moreover have "n mod 32 < 32" by simp
  ultimately show ?thesis
    using True assms by (auto simp: bit_or_iff bit_push_bit_iff bit_1_iff simp del: push_bit_of_1)
qed auto

lemma pack_head_bits:
  fixes ws :: "32 word list"
  assumes "\<forall>n \<in> set marked. n div 32 < length ws"
  defines "packed \<equiv> fold (\<lambda>n ws. ws[n div 32 := ws ! (n div 32) OR push_bit (n mod 32) 1]) marked ws"
  shows "length packed = length ws
    \<and> (\<forall>k. bit (packed ! (k div 32)) (k mod 32) \<longleftrightarrow> bit (ws ! (k div 32)) (k mod 32) \<or> k \<in> set marked)"
  using assms(1) unfolding packed_def
proof (induction marked arbitrary: ws)
  case (Cons n marked)
  let ?ws = "ws[n div 32 := ws ! (n div 32) OR push_bit (n mod 32) 1]"
  have "length (fold (\<lambda>n ws. ws[n div 32 := ws ! (n div 32) OR push_bit (n mod 32) 1]) marked ?ws) = length ?ws
    \<and> (\<forall>k. bit (fold (\<lambda>n ws. ws[n div 32 := ws ! (n div 32) OR push_bit (n mod 32) 1]) marked ?ws ! (k div 32)) (k mod 32)
        \<longleftrightarrow> bit (?ws ! (k div 32)) (k mod 32) \<or> k \<in> set marked)"
    by (rule Cons.IH) (use Cons.prems in simp)
  then show ?case using Cons.prems mark_word32 [of n ws] by auto
qed simp

text \<open>C39: the head mask the timeline kernel packs into words of 32 notes reads back, in the plan's
  reconciliation, as the fever flags it was packed from, for any chart up to the words' capacity.\<close>

theorem head_bits_pack_head:
  assumes "length flags \<le> 32 * words"
  shows "head_bits (map uint (pack_head words flags)) (length flags) = Inr flags"
proof -
  define packed where "packed = pack_head words flags"
  let ?marked = "filter (\<lambda>i. flags ! i) [0..<length flags]"
  have "\<forall>n \<in> set ?marked. n div 32 < length (replicate words (0 :: 32 word))" using assms by auto
  note bits = pack_head_bits [OF this, folded pack_head_def, folded packed_def]
  have zero: "\<not> bit (replicate words (0 :: 32 word) ! (k div 32)) (k mod 32)" if "k < length flags" for k
  proof -
    have "k div 32 < words" using that assms by linarith
    then show ?thesis by simp
  qed
  have in_words: "list_all (\<lambda>w. 0 \<le> w \<and> w < 2 ^ 32) (map uint packed)"
    using uint_lt2p [where 'a = 32] by (auto simp: list_all_iff)
  have "bit (map uint packed ! (i div 32)) (i mod 32) = flags ! i" if "i < length flags" for i
  proof -
    have "i div 32 < length packed" using bits that assms by simp
    then show ?thesis using bits zero [OF that] that by (simp add: bit_uint_iff)
  qed
  then have "map (\<lambda>i. bit (map uint packed ! (i div 32)) (i mod 32)) [0..<length flags] = flags"
    by (intro nth_equalityI) simp_all
  moreover have "min (length flags) (32 * length (map uint packed)) = length flags" using bits assms by simp
  ultimately show ?thesis
    using in_words by (simp only: head_bits_def packed_def [symmetric] if_True)
qed

lemma head_bits_pack_head_witness:
  "head_bits (map uint (pack_head 4 [True, False, True])) 3 = Inr [True, False, True]"
  using head_bits_pack_head [of "[True, False, True]" 4] by (simp add: numeral_3_eq_3)

end
