(* ===== verification/ReplayKernel.thy ===== *)
theory ReplayKernel
  imports FillCrossing Timing
begin

text \<open>
  trace/physical_replay.py, its kernel: a stored plan is played input by input, and the play must give
  every note the judgment and the fever the plan scored. An array is a list; the kernel's error
  status comes with its two arguments.
\<close>

section \<open>Judgments\<close>

definition MISS_CODE :: int where "MISS_CODE = 0"
definition OKAY_CODE :: int where "OKAY_CODE = 1"
definition GREAT_CODE :: int where "GREAT_CODE = 2"
definition PERFECT_CODE :: int where "PERFECT_CODE = 3"

lemmas judgment_codes = MISS_CODE_def OKAY_CODE_def GREAT_CODE_def PERFECT_CODE_def

definition note_edges :: "int list \<Rightarrow> int \<Rightarrow> f64 list list" where
  "note_edges types perfect_stat =
     (let tap = judgment_edges perfect_stat; tail = map (\<lambda>e. mul64 e (of_int HELD_TAIL_WINDOW_SCALE)) tap
      in map (\<lambda>ty. if ty = HELD_TAIL_TYPE then tail else tap) types)"

definition judgment_code :: "f64 \<Rightarrow> f64 list \<Rightarrow> int" where
  "judgment_code delta_ms edges =
     (if delta_ms > edges ! 0 then MISS_CODE
      else if delta_ms > edges ! 1 then OKAY_CODE
      else if delta_ms > edges ! 2 then GREAT_CODE
      else if delta_ms > edges ! 3 then PERFECT_CODE
      else if delta_ms > edges ! 4 then GREAT_CODE
      else if delta_ms > edges ! 5 then OKAY_CODE
      else MISS_CODE)"

datatype replay_status =
    REPLAY_OK
  | REPLAY_ERR_JUDGMENT
  | REPLAY_ERR_INPUT_ORDER
  | REPLAY_ERR_LANE
  | REPLAY_ERR_FEVER_MEMBERSHIP
  | REPLAY_ERR_BACKWARD_TIME
  | REPLAY_ERR_FILL_DENOM
  | REPLAY_ERR_FEVER_DURATION
  | REPLAY_ERR_COMBO_ORDER

section \<open>The fever bar of a play\<close>

record walk_state =
  bar_level :: f64
  bar_active :: bool
  elapsed_seconds :: f64
  previous_event_ms :: f64
  fever_out :: "bool list"

text \<open>One event: the running fever is charged, or the bar is filled.\<close>

definition walk_event :: "f64 \<Rightarrow> f64 \<Rightarrow> f64 \<Rightarrow> bool \<Rightarrow> f64 \<Rightarrow> walk_state \<Rightarrow> walk_state" where
  "walk_event perfect_fill great_fill fever_time great event_ms s =
     (if bar_active s then
        let elapsed = add64 (elapsed_seconds s) (div64 (sub64 event_ms (previous_event_ms s)) 1000)
        in if elapsed \<ge> fever_time then s\<lparr>bar_active := False, elapsed_seconds := 0, bar_level := 0\<rparr>
           else s\<lparr>elapsed_seconds := elapsed\<rparr>
      else
        let bar = min (add64 (bar_level s) (if great then great_fill else perfect_fill)) 1
        in if bar \<ge> 1 then s\<lparr>bar_level := bar, bar_active := True, elapsed_seconds := 0\<rparr>
           else s\<lparr>bar_level := bar\<rparr>)"

definition mark_event :: "nat \<Rightarrow> f64 \<Rightarrow> walk_state \<Rightarrow> walk_state" where
  "mark_event idx event_ms s =
     s\<lparr>fever_out := (fever_out s)[idx := bar_active s], previous_event_ms := event_ms\<rparr>"

fun walk_from :: "f64 \<Rightarrow> f64 \<Rightarrow> f64 \<Rightarrow> f64 list \<Rightarrow> int list \<Rightarrow> nat \<Rightarrow> nat list \<Rightarrow> walk_state \<Rightarrow> replay_status \<times> bool list" where
  "walk_from pf gf duration at_ms codes pos [] s = (REPLAY_OK, fever_out s)"
| "walk_from pf gf duration at_ms codes pos (idx # order) s =
     (let event_ms = at_ms ! idx
      in if pos > 0 \<and> event_ms < previous_event_ms s then (REPLAY_ERR_BACKWARD_TIME, fever_out s)
         else walk_from pf gf duration at_ms codes (Suc pos) order
                (mark_event idx event_ms (walk_event pf gf duration (codes ! idx = GREAT_CODE) event_ms s)))"

definition walk_start :: "bool list \<Rightarrow> walk_state" where
  "walk_start out = \<lparr>bar_level = 0, bar_active = False, elapsed_seconds = 0, previous_event_ms = 0, fever_out = out\<rparr>"

definition fever_walk :: "nat list \<Rightarrow> f64 list \<Rightarrow> int list \<Rightarrow> f64 \<Rightarrow> f64 \<Rightarrow> bool list \<Rightarrow> replay_status \<times> bool list" where
  "fever_walk event_order at_ms codes denom duration out =
     (if denom \<le> 0 then (REPLAY_ERR_FILL_DENOM, out)
      else if duration \<le> 0 then (REPLAY_ERR_FEVER_DURATION, out)
      else walk_from (div64 1 denom) (div64 1 (mul64 2 denom)) duration at_ms codes 0 event_order (walk_start out))"

section \<open>The kernel\<close>

text \<open>The \<open>seen\<close> scan: every place of the input stream is taken once.\<close>

fun order_scan :: "nat \<Rightarrow> int list \<Rightarrow> bool list \<Rightarrow> bool" where
  "order_scan n [] seen \<longleftrightarrow> True"
| "order_scan n (v # vs) seen \<longleftrightarrow>
     \<not> (v < 0 \<or> v \<ge> int n \<or> seen ! nat v) \<and> order_scan n vs (seen[nat v := True])"

definition invert_order :: "int list \<Rightarrow> nat list" where
  "invert_order input_order =
     fold (\<lambda>i event_order. event_order[nat (input_order ! i) := i])
       [0..<length input_order] (replicate (length input_order) 0)"

text \<open>The lanes' note lists, packed: a counting sort of the notes by lane.\<close>

definition lane_offsets :: "int \<Rightarrow> nat \<Rightarrow> int list \<Rightarrow> nat list" where
  "lane_offsets lane_min width note_lanes =
     (let counts = fold (\<lambda>l cs. let k = nat (l - lane_min + 1) in cs[k := Suc (cs ! k)]) note_lanes (replicate (Suc width) 0)
      in fold (\<lambda>s cs. cs[Suc s := cs ! Suc s + cs ! s]) [0..<width] counts)"

definition fill_lane :: "int \<Rightarrow> int list \<Rightarrow> nat \<Rightarrow> nat list \<times> nat list \<Rightarrow> nat list \<times> nat list" where
  "fill_lane lane_min note_lanes i = (\<lambda>(members, cursor).
     let li = nat (note_lanes ! i - lane_min)
     in (members[cursor ! li := i], cursor[li := Suc (cursor ! li)]))"

definition lane_members :: "int \<Rightarrow> nat list \<Rightarrow> int list \<Rightarrow> nat list" where
  "lane_members lane_min offsets note_lanes =
     fst (fold (fill_lane lane_min note_lanes) [0..<length note_lanes] (replicate (length note_lanes) 0, butlast offsets))"

fun lane_scan :: "int \<Rightarrow> int list \<Rightarrow> nat list \<Rightarrow> nat list \<Rightarrow> nat list \<Rightarrow> (nat \<times> nat) option" where
  "lane_scan lane_min note_lanes members [] next = None"
| "lane_scan lane_min note_lanes members (idx # order) next =
     (let li = nat (note_lanes ! idx - lane_min); expected = members ! (next ! li)
      in if idx \<noteq> expected then Some (idx, expected)
         else lane_scan lane_min note_lanes members order (next[li := Suc (next ! li)]))"

definition lane_error :: "int list \<Rightarrow> nat list \<Rightarrow> (nat \<times> nat) option" where
  "lane_error note_lanes event_order =
     (if note_lanes = [] then None
      else let lane_min = Min (set note_lanes); width = nat (Max (set note_lanes) - lane_min + 1);
               offsets = lane_offsets lane_min width note_lanes
           in lane_scan lane_min note_lanes (lane_members lane_min offsets note_lanes) event_order (butlast offsets))"

type_synonym replay_plan = "f64 list \<times> f64 list \<times> int list \<times> int list \<times> bool list"

text \<open>The status with its arguments, then \<open>event_order\<close> and \<open>replay_fever\<close> as far as they are
  written (a cell not yet written, which holds anything in the source, is 0 and False here).\<close>

definition replay_kernel :: "replay_plan \<Rightarrow> f64 list list \<Rightarrow> int list \<Rightarrow> f64 \<Rightarrow> f64 \<Rightarrow> bool \<Rightarrow>
    (replay_status \<times> int \<times> int) \<times> nat list \<times> bool list" where
  "replay_kernel plan edges note_lanes denom real_fever_time check_combo_order =
     (case plan of (delta_ms, hit_time_ms, input_order, expected_code, expected_fever) \<Rightarrow>
      let n = length delta_ms;
          blank = replicate n False
      in case find (\<lambda>i. judgment_code (delta_ms ! i) (edges ! i) \<noteq> expected_code ! i) [0..<n] of
        Some i \<Rightarrow> ((REPLAY_ERR_JUDGMENT, int i, judgment_code (delta_ms ! i) (edges ! i)), replicate n 0, blank)
      | None \<Rightarrow>
        let event_times = map2 add64 hit_time_ms delta_ms
        in if \<not> order_scan n input_order blank then ((REPLAY_ERR_INPUT_ORDER, - 1, - 1), replicate n 0, blank)
        else let event_order = invert_order input_order
        in case lane_error note_lanes event_order of
          Some (idx, expected) \<Rightarrow> ((REPLAY_ERR_LANE, int idx, int expected), event_order, blank)
        | None \<Rightarrow>
          (case fever_walk event_order event_times expected_code denom real_fever_time blank of (status, fever) \<Rightarrow>
           if status \<noteq> REPLAY_OK then ((status, - 1, - 1), event_order, fever)
           else case find (\<lambda>i. fever ! i \<noteq> expected_fever ! i) [0..<n] of
             Some i \<Rightarrow> ((REPLAY_ERR_FEVER_MEMBERSHIP, int i, - 1), event_order, fever)
           | None \<Rightarrow>
             (case find (\<lambda>pos. let idx = event_order ! pos
                 in expected_code ! idx \<noteq> expected_code ! pos \<or> expected_fever ! idx \<noteq> expected_fever ! pos)
                 [0..<if check_combo_order then min n 100 else 0] of
               Some pos \<Rightarrow> ((REPLAY_ERR_COMBO_ORDER, int (event_order ! pos), int pos), event_order, fever)
             | None \<Rightarrow> ((REPLAY_OK, - 1, - 1), event_order, fever))))"

section \<open>The input order\<close>

lemma order_scan_iff:
  "length seen = n \<Longrightarrow> order_scan n vs seen \<longleftrightarrow>
     distinct vs \<and> (\<forall>v \<in> set vs. 0 \<le> v \<and> v < int n \<and> \<not> seen ! nat v)"
proof (induction vs arbitrary: seen)
  case (Cons v vs)
  show ?case
  proof (cases "0 \<le> v \<and> v < int n \<and> \<not> seen ! nat v")
    case True
    have "(\<forall>w \<in> set vs. 0 \<le> w \<and> w < int n \<and> \<not> seen[nat v := True] ! nat w)
        \<longleftrightarrow> v \<notin> set vs \<and> (\<forall>w \<in> set vs. 0 \<le> w \<and> w < int n \<and> \<not> seen ! nat w)" (is "?l \<longleftrightarrow> ?r")
    proof
      assume l: ?l
      then have "v \<notin> set vs" using True Cons.prems by auto
      moreover from l have "\<not> seen ! nat w" if "w \<in> set vs" for w
        using that Cons.prems True by (metis eq_nat_nat_iff nth_list_update_neq calculation)
      ultimately show ?r using l by blast
    next
      assume ?r
      then show ?l using True by (metis eq_nat_nat_iff nth_list_update_neq)
    qed
    then show ?thesis using Cons True by auto
  next
    case False
    then show ?thesis by auto
  qed
qed simp

definition input_permutation :: "nat \<Rightarrow> int list \<Rightarrow> bool" where
  "input_permutation n vs \<longleftrightarrow> length vs = n \<and> distinct vs \<and> set vs \<subseteq> {0..<int n}"

lemma order_scan_permutation:
  "length vs = n \<Longrightarrow> order_scan n vs (replicate n False) \<longleftrightarrow> input_permutation n vs"
  by (auto simp: order_scan_iff input_permutation_def nth_replicate zless_iff_Suc_zadd subset_iff)

lemma invert_prefix:
  assumes "input_permutation n vs" "m \<le> n"
  defines "eo \<equiv> fold (\<lambda>i event_order. event_order[nat (vs ! i) := i]) [0..<m] (replicate n 0)"
  shows "length eo = n \<and> (\<forall>i < m. eo ! nat (vs ! i) = i)"
  using assms(2) unfolding eo_def
proof (induction m)
  case (Suc m)
  have len: "length vs = n" and dist: "distinct vs" and sub: "set vs \<subseteq> {0..<int n}"
    using assms(1) by (simp_all add: input_permutation_def)
  have range: "0 \<le> vs ! i \<and> vs ! i < int n" if "i < n" for i
    using that len sub nth_mem [of i vs] by (auto simp: subset_iff)
  have other: "nat (vs ! i) \<noteq> nat (vs ! m)" if "i < m" for i
    using that Suc.prems range [of i] range [of m] dist len by (simp add: nat_eq_iff nth_eq_iff_index_eq)
  then show ?case using Suc range [of m] other [symmetric] by (auto simp: less_Suc_eq nth_list_update)
qed simp

lemma invert_order_nth:
  assumes "input_permutation n vs"
  shows "length (invert_order vs) = n" and "i < n \<Longrightarrow> invert_order vs ! nat (vs ! i) = i"
  using invert_prefix [OF assms, of n] assms by (simp_all add: invert_order_def input_permutation_def)

lemma input_permutation_onto:
  assumes "input_permutation n vs" "k < n"
  obtains i where "i < n" "nat (vs ! i) = k"
proof -
  have "set vs = {0..<int n}"
    using assms by (intro card_subset_eq) (auto simp: input_permutation_def distinct_card)
  then have "int k \<in> set vs" using assms(2) by simp
  then obtain i where "i < n" "vs ! i = int k" using assms(1) by (auto simp: in_set_conv_nth input_permutation_def)
  then show thesis using that [of i] by simp
qed

lemma input_permutation_nth: "input_permutation n vs \<Longrightarrow> i < n \<Longrightarrow> 0 \<le> vs ! i \<and> nat (vs ! i) < n"
  using nth_mem [of i vs] by (auto simp: input_permutation_def subset_iff nat_less_iff)

lemma invert_order_back:
  assumes "input_permutation n vs" "k < n"
  shows "invert_order vs ! k < n" and "nat (vs ! (invert_order vs ! k)) = k"
proof -
  obtain i where "i < n" "nat (vs ! i) = k" using input_permutation_onto [OF assms] .
  then have "invert_order vs ! k = i" using invert_order_nth(2) [OF assms(1), of i] by simp
  then show "invert_order vs ! k < n" "nat (vs ! (invert_order vs ! k)) = k"
    using \<open>i < n\<close> \<open>nat (vs ! i) = k\<close> by simp_all
qed

lemma invert_order_distinct: "input_permutation n vs \<Longrightarrow> distinct (invert_order vs)"
  using invert_order_back(2) by (metis distinct_conv_nth invert_order_nth(1))

lemma invert_order_set: "input_permutation n vs \<Longrightarrow> set (invert_order vs) = {..<n}"
proof -
  assume vs: "input_permutation n vs"
  have "set (invert_order vs) \<subseteq> {..<n}"
    using invert_order_back(1) [OF vs] invert_order_nth(1) [OF vs] by (auto simp: in_set_conv_nth)
  moreover have "card (set (invert_order vs)) = n"
    using invert_order_distinct [OF vs] invert_order_nth(1) [OF vs] by (simp add: distinct_card)
  ultimately show ?thesis by (simp add: card_subset_eq)
qed

section \<open>The lanes' notes by counting sort\<close>

text \<open>\<open>key i\<close> is the dense lane of note \<open>i\<close>; \<open>of_lane\<close> are a lane's notes among the first \<open>m\<close>.\<close>

definition of_lane :: "(nat \<Rightarrow> nat) \<Rightarrow> nat \<Rightarrow> nat \<Rightarrow> nat list" where
  "of_lane key l m = filter (\<lambda>i. key i = l) [0..<m]"

definition below_lane :: "(nat \<Rightarrow> nat) \<Rightarrow> nat \<Rightarrow> nat \<Rightarrow> nat" where
  "below_lane key l n = length (filter (\<lambda>i. key i < l) [0..<n])"

lemma of_lane_Suc: "of_lane key l (Suc m) = of_lane key l m @ (if key m = l then [m] else [])"
  by (simp add: of_lane_def)

lemma below_lane_0 [simp]: "below_lane key 0 n = 0"
  by (simp add: below_lane_def)

lemma below_lane_Suc: "below_lane key (Suc l) n = below_lane key l n + length (of_lane key l n)"
  by (induction n) (auto simp: below_lane_def of_lane_def less_Suc_eq)

lemma below_lane_mono: "l \<le> l' \<Longrightarrow> below_lane key l n \<le> below_lane key l' n"
  by (induction l' rule: nat_induct_at_least) (auto simp: below_lane_Suc)

lemma below_lane_le: "below_lane key l n \<le> n"
  using length_filter_le [of "\<lambda>i. key i < l" "[0..<n]"] by (simp add: below_lane_def)

lemma of_lane_mono: "m \<le> n \<Longrightarrow> length (of_lane key l m) \<le> length (of_lane key l n)"
  by (induction n rule: nat_induct_at_least) (auto simp: of_lane_Suc)

lemma of_lane_less: "m < n \<Longrightarrow> length (of_lane key (key m) m) < length (of_lane key (key m) n)"
  using of_lane_mono [of "Suc m" n key "key m"] by (simp add: of_lane_Suc)

lemma of_lane_nth_prefix:
  "m \<le> n \<Longrightarrow> r < length (of_lane key l m) \<Longrightarrow> of_lane key l n ! r = of_lane key l m ! r"
  by (induction n rule: nat_induct_at_least) (auto simp: of_lane_Suc nth_append dest: of_lane_mono [of m _ key l])

lemma count_lanes:
  assumes "\<And>l. l \<in> set ls \<Longrightarrow> lane_min \<le> l" "k < length cs"
  shows "fold (\<lambda>l cs. let k = nat (l - lane_min + 1) in cs[k := Suc (cs ! k)]) ls cs ! k
    = cs ! k + length (filter (\<lambda>l. nat (l - lane_min + 1) = k) ls)"
  using assms by (induction ls arbitrary: cs) (auto simp: Let_def nth_list_update)

lemma count_lanes_length:
  "length (fold (\<lambda>l cs. let k = nat (l - lane_min + 1) in cs[k := Suc (cs ! k)]) ls cs) = length cs"
  by (induction ls arbitrary: cs) (simp_all add: Let_def)

lemma prefix_sums:
  assumes "length cs = Suc width"
  shows "s \<le> width \<Longrightarrow> length (fold (\<lambda>s cs. cs[Suc s := cs ! Suc s + cs ! s]) [0..<s] cs) = Suc width
    \<and> (\<forall>j \<le> width. fold (\<lambda>s cs. cs[Suc s := cs ! Suc s + cs ! s]) [0..<s] cs ! j
         = (if j \<le> s then (\<Sum>i \<le> j. cs ! i) else (cs ! j :: nat)))"
proof (induction s)
  case (Suc s)
  then show ?case using assms by (auto simp: nth_list_update le_Suc_eq)
qed (use assms in simp)

lemma filter_nth: "length (filter P xs) = length (filter (\<lambda>i. P (xs ! i)) [0..<length xs])"
proof (induction xs rule: rev_induct)
  case (snoc x xs)
  have "filter (\<lambda>i. P ((xs @ [x]) ! i)) [0..<length xs] = filter (\<lambda>i. P (xs ! i)) [0..<length xs]"
    by (rule filter_cong) (auto simp: nth_append)
  then show ?case using snoc by simp
qed simp

lemma lane_offsets_nth:
  assumes "\<And>l. l \<in> set note_lanes \<Longrightarrow> lane_min \<le> l" "j \<le> width"
  defines "key \<equiv> \<lambda>i. nat (note_lanes ! i - lane_min)"
  shows "length (lane_offsets lane_min width note_lanes) = Suc width
    \<and> lane_offsets lane_min width note_lanes ! j = below_lane key j (length note_lanes)"
proof -
  let ?n = "length note_lanes"
  define cs where "cs = fold (\<lambda>l cs. let k = nat (l - lane_min + 1) in cs[k := Suc (cs ! k)]) note_lanes
    (replicate (Suc width) (0::nat))"
  have len: "length cs = Suc width" by (simp only: cs_def count_lanes_length length_replicate)
  have count: "cs ! k = length (filter (\<lambda>l. nat (l - lane_min + 1) = k) note_lanes)" if "k \<le> width" for k
    unfolding cs_def using that assms(1)
    by (subst count_lanes) (simp_all del: replicate.simps add: nth_replicate)
  have at: "cs ! Suc k = length (of_lane key k ?n)" if "k < width" for k
  proof -
    have "filter (\<lambda>l. nat (l - lane_min + 1) = Suc k) note_lanes = filter (\<lambda>l. nat (l - lane_min) = k) note_lanes"
      using assms(1) by (intro filter_cong refl) (force simp: nat_eq_iff)
    then show ?thesis using count [of "Suc k"] that filter_nth [of "\<lambda>l. nat (l - lane_min) = k" note_lanes]
      by (simp add: of_lane_def key_def)
  qed
  have "filter (\<lambda>l. nat (l - lane_min + 1) = 0) note_lanes = []"
    using assms(1) by (force simp: filter_empty_conv)
  then have zero: "cs ! 0 = 0" using count [of 0] by simp
  have "(\<Sum>i \<le> j. cs ! i) = below_lane key j ?n" if "j \<le> width" for j
    using that by (induction j) (simp_all add: zero at below_lane_Suc)
  then show ?thesis using prefix_sums [OF len order_refl] assms(2)
    by (simp add: lane_offsets_def cs_def [symmetric] del: replicate.simps)
qed

lemma fill_lanes:
  assumes "\<And>i. i < n \<Longrightarrow> key i < width" "length note_lanes = n"
    and "\<And>i. i < n \<Longrightarrow> nat (note_lanes ! i - lane_min) = key i"
  defines "run \<equiv> \<lambda>m. fold (fill_lane lane_min note_lanes) [0..<m]
    (replicate n 0, map (\<lambda>l. below_lane key l n) [0..<width])"
  shows "m \<le> n \<Longrightarrow> length (fst (run m)) = n
    \<and> snd (run m) = map (\<lambda>l. below_lane key l n + length (of_lane key l m)) [0..<width]
    \<and> (\<forall>l < width. \<forall>r < length (of_lane key l m). fst (run m) ! (below_lane key l n + r) = of_lane key l n ! r)"
proof (induction m)
  case 0
  show ?case by (simp add: run_def of_lane_def)
next
  case (Suc m)
  obtain ms cur where st: "run m = (ms, cur)" by fastforce
  have step: "run (Suc m) = fill_lane lane_min note_lanes m (ms, cur)" using st by (simp add: run_def)
  have m: "m < n" using Suc.prems by simp
  have IH: "length ms = n" "cur = map (\<lambda>l. below_lane key l n + length (of_lane key l m)) [0..<width]"
    "\<And>l r. l < width \<Longrightarrow> r < length (of_lane key l m) \<Longrightarrow> ms ! (below_lane key l n + r) = of_lane key l n ! r"
    using Suc st by auto
  let ?k = "key m" and ?p = "below_lane key (key m) n + length (of_lane key (key m) m)"
  have k: "?k < width" "nat (note_lanes ! m - lane_min) = ?k" using assms(1,3) m by auto
  have run: "run (Suc m) = (ms[?p := m], cur[?k := Suc ?p])"
    using k by (simp add: step fill_lane_def Let_def IH(2))
  have inside: "below_lane key l n + r < below_lane key (Suc l) n" if "r < length (of_lane key l n)" for l r
    using that by (simp add: below_lane_Suc)
  have top: "?p < below_lane key (Suc ?k) n" by (rule inside) (rule of_lane_less [OF m])
  then have p: "?p < n" using below_lane_le [of key "Suc ?k" n] by simp
  have cursor: "cur[?k := Suc ?p] = map (\<lambda>l. below_lane key l n + length (of_lane key l (Suc m))) [0..<width]"
    by (rule nth_equalityI) (auto simp: IH(2) nth_list_update of_lane_Suc)
  have "ms[?p := m] ! (below_lane key l n + r) = of_lane key l n ! r"
    if l: "l < width" and r: "r < length (of_lane key l (Suc m))" for l r
  proof (cases "l = ?k \<and> r = length (of_lane key l m)")
    case True
    then have "of_lane key l n ! r = m"
      using of_lane_nth_prefix [of "Suc m" n r key l] m r by (simp add: of_lane_Suc nth_append)
    then show ?thesis using True p IH(1) by simp
  next
    case False
    then have r': "r < length (of_lane key l m)" using r by (auto simp: of_lane_Suc split: if_splits)
    then have rn: "r < length (of_lane key l n)" using of_lane_mono [of m n key l] m by simp
    have "below_lane key l n + r \<noteq> ?p"
    proof (cases l ?k rule: linorder_cases)
      case less
      then show ?thesis using inside [OF rn] below_lane_mono [of "Suc l" ?k key n] by simp
    next
      case equal
      then show ?thesis using False r' by simp
    next
      case greater
      then show ?thesis using top below_lane_mono [of "Suc ?k" l key n] by simp
    qed
    then show ?thesis using IH(3) [OF l r'] by simp
  qed
  then show ?case using IH(1) by (simp add: run cursor)
qed

text \<open>The scan passes exactly when every lane's inputs come in the lane's note order.\<close>

lemma lane_scan_None:
  assumes "\<And>i. i < n \<Longrightarrow> key i < width" "\<And>i. i < n \<Longrightarrow> nat (note_lanes ! i - lane_min) = key i"
    and "\<And>l r. l < width \<Longrightarrow> r < length (of_lane key l n) \<Longrightarrow> members ! (below_lane key l n + r) = of_lane key l n ! r"
    and "distinct (ahead @ order)" "set (ahead @ order) = {..<n}"
    and "\<And>l. l < width \<Longrightarrow> filter (\<lambda>i. key i = l) ahead = take (length (filter (\<lambda>i. key i = l) ahead)) (of_lane key l n)"
  shows "lane_scan lane_min note_lanes members order
      (map (\<lambda>l. below_lane key l n + length (filter (\<lambda>i. key i = l) ahead)) [0..<width]) = None
    \<longleftrightarrow> (\<forall>l < width. filter (\<lambda>i. key i = l) (ahead @ order) = of_lane key l n)"
  using assms(4-)
proof (induction order arbitrary: "ahead")
  case Nil
  have perm: "distinct ahead" "set ahead = {..<n}" using Nil.prems by simp_all
  have "length (filter (\<lambda>i. key i = l) ahead) = length (of_lane key l n)" for l
  proof -
    have "set (filter (\<lambda>i. key i = l) ahead) = set (of_lane key l n)" using perm by (auto simp: of_lane_def)
    then show ?thesis using perm(1) by (metis distinct_card distinct_filter distinct_upt of_lane_def)
  qed
  then show ?case using Nil.prems(3) by simp
next
  case (Cons idx order)
  let ?f = "\<lambda>l xs. filter (\<lambda>i. key i = l) xs"
  let ?k = "key idx" and ?c = "length (filter (\<lambda>i. key i = key idx) ahead)"
  have idx: "idx < n" using Cons.prems(2) by auto
  have k: "?k < width" "nat (note_lanes ! idx - lane_min) = ?k" using assms(1,2) idx by auto
  have "set (?f ?k (ahead @ idx # order)) = set (of_lane key ?k n)" using Cons.prems(2) by (auto simp: of_lane_def)
  then have "length (?f ?k (ahead @ idx # order)) = length (of_lane key ?k n)"
    using Cons.prems(1) by (metis distinct_card distinct_filter distinct_upt of_lane_def)
  then have c: "?c < length (of_lane key ?k n)" by simp
  have expected: "members ! (map (\<lambda>l. below_lane key l n + length (?f l ahead)) [0..<width] ! ?k) = of_lane key ?k n ! ?c"
    using assms(3) [OF k(1) c] k(1) by simp
  have nx: "(map (\<lambda>l. below_lane key l n + length (?f l ahead)) [0..<width])[?k := Suc (below_lane key ?k n + ?c)]
      = map (\<lambda>l. below_lane key l n + length (?f l (ahead @ [idx]))) [0..<width]"
    by (rule nth_equalityI) (auto simp: nth_list_update)
  show ?case
  proof (cases "idx = of_lane key ?k n ! ?c")
    case True
    have pre: "?f l (ahead @ [idx]) = take (length (?f l (ahead @ [idx]))) (of_lane key l n)" if "l < width" for l
    proof (cases "l = ?k")
      case eq: True
      have "?f ?k ahead @ [idx] = take ?c (of_lane key ?k n) @ [of_lane key ?k n ! ?c]"
        using Cons.prems(3) [OF k(1)] True by simp
      then show ?thesis using c by (simp add: eq take_Suc_conv_app_nth)
    next
      case False
      then show ?thesis using Cons.prems(3) [OF that] by simp
    qed
    have "lane_scan lane_min note_lanes members (idx # order)
        (map (\<lambda>l. below_lane key l n + length (?f l ahead)) [0..<width])
      = lane_scan lane_min note_lanes members order
        (map (\<lambda>l. below_lane key l n + length (?f l (ahead @ [idx]))) [0..<width])"
      using expected True k nx by (simp add: Let_def)
    then show ?thesis using Cons.IH [of "ahead @ [idx]"] Cons.prems(1,2) pre by simp
  next
    case False
    have "?f ?k (ahead @ idx # order) ! ?c = idx" by (simp add: nth_append)
    then have "?f ?k (ahead @ idx # order) \<noteq> of_lane key ?k n" using False by metis
    moreover have "lane_scan lane_min note_lanes members (idx # order)
        (map (\<lambda>l. below_lane key l n + length (?f l ahead)) [0..<width]) \<noteq> None"
      using expected False k by (simp add: Let_def)
    ultimately show ?thesis using k(1) by blast
  qed
qed

lemma sorted_wrt_filter_iff: "sorted_wrt P (filter Q xs) \<longleftrightarrow> sorted_wrt (\<lambda>x y. Q x \<and> Q y \<longrightarrow> P x y) xs"
  by (induction xs) auto

text \<open>Inputs on one lane come in note order.\<close>

definition lanes_in_order :: "int list \<Rightarrow> int list \<Rightarrow> bool" where
  "lanes_in_order note_lanes input_order \<longleftrightarrow>
     (\<forall>i < length note_lanes. \<forall>j < length note_lanes.
        i < j \<and> note_lanes ! i = note_lanes ! j \<longrightarrow> input_order ! i < input_order ! j)"

lemma lane_error_None:
  assumes "input_permutation n vs" "length note_lanes = n"
  shows "lane_error note_lanes (invert_order vs) = None \<longleftrightarrow> lanes_in_order note_lanes vs"
proof (cases "note_lanes = []")
  case True
  then show ?thesis by (simp add: lane_error_def lanes_in_order_def)
next
  case False
  define lane_min where "lane_min = Min (set note_lanes)"
  define width where "width = nat (Max (set note_lanes) - lane_min + 1)"
  define key where "key = (\<lambda>i. nat (note_lanes ! i - lane_min))"
  define eo where "eo = invert_order vs"
  let ?f = "\<lambda>l xs. filter (\<lambda>i. key i = l) xs"
  have range: "lane_min \<le> l \<and> l \<le> Max (set note_lanes)" if "l \<in> set note_lanes" for l
    using that by (simp add: lane_min_def)
  have key: "key i < width" if "i < n" for i
    using range [of "note_lanes ! i"] nth_mem [of i note_lanes] that assms(2) unfolding key_def width_def
    by linarith
  have same: "key i = key j \<longleftrightarrow> note_lanes ! i = note_lanes ! j" if "i < n" "j < n" for i j
    using range [of "note_lanes ! i"] range [of "note_lanes ! j"] that assms(2) by (auto simp: key_def)
  have offsets: "butlast (lane_offsets lane_min width note_lanes) = map (\<lambda>l. below_lane key l n) [0..<width]"
  proof -
    have at: "length (lane_offsets lane_min width note_lanes) = Suc width
      \<and> lane_offsets lane_min width note_lanes ! j = below_lane key j n" if "j \<le> width" for j
      using lane_offsets_nth [of note_lanes lane_min j width] range that assms(2) by (simp add: key_def)
    have len: "length (lane_offsets lane_min width note_lanes) = Suc width" using at [of 0] by simp
    show ?thesis by (rule nth_equalityI) (simp_all add: len at nth_butlast)
  qed
  note fill = fill_lanes [of n key width note_lanes lane_min n, OF key assms(2) _ order_refl]
  have members: "lane_members lane_min (lane_offsets lane_min width note_lanes) note_lanes ! (below_lane key l n + r)
      = of_lane key l n ! r" if "l < width" "r < length (of_lane key l n)" for l r
    using fill that assms(2) by (simp add: lane_members_def offsets key_def)
  have perm: "distinct eo" "set eo = {..<n}"
    using invert_order_distinct [OF assms(1)] invert_order_set [OF assms(1)] by (simp_all add: eo_def)
  have err: "lane_error note_lanes eo = lane_scan lane_min note_lanes
      (lane_members lane_min (lane_offsets lane_min width note_lanes) note_lanes) eo
      (map (\<lambda>l. below_lane key l n) [0..<width])"
    unfolding lane_error_def Let_def lane_min_def [symmetric] width_def [symmetric] using False offsets by simp
  have "lane_scan lane_min note_lanes (lane_members lane_min (lane_offsets lane_min width note_lanes) note_lanes) eo
      (map (\<lambda>l. below_lane key l n + length (?f l [])) [0..<width]) = None
    \<longleftrightarrow> (\<forall>l < width. ?f l ([] @ eo) = of_lane key l n)"
    proof (rule lane_scan_None)
    show "nat (note_lanes ! i - lane_min) = key i" for i by (simp add: key_def)
  qed (use perm in \<open>simp_all add: members key\<close>)
  then have "lane_error note_lanes eo = None \<longleftrightarrow> (\<forall>l < width. ?f l eo = of_lane key l n)"
    unfolding err by simp
  also have "\<dots> \<longleftrightarrow> (\<forall>l < width. sorted_wrt (\<lambda>i j. key i = l \<and> key j = l \<longrightarrow> i < j) eo)"
  proof (intro all_cong1 imp_cong refl)
    fix l
    have "sorted_wrt (<) (of_lane key l n)" by (simp add: of_lane_def sorted_wrt_filter)
    moreover have "set (?f l eo) = set (of_lane key l n)" using perm by (auto simp: of_lane_def)
    ultimately show "?f l eo = of_lane key l n \<longleftrightarrow> sorted_wrt (\<lambda>i j. key i = l \<and> key j = l \<longrightarrow> i < j) eo"
      unfolding sorted_wrt_filter_iff [symmetric] using strict_sorted_equal by metis
  qed
  also have "\<dots> \<longleftrightarrow> (\<forall>p q. p < q \<and> q < n \<and> key (eo ! p) = key (eo ! q) \<longrightarrow> eo ! p < eo ! q)"
  proof -
    have len: "length eo = n" using invert_order_nth(1) [OF assms(1)] by (simp add: eo_def)
    have "key (eo ! q) < width" if "q < n" for q
      using key [of "eo ! q"] invert_order_back(1) [OF assms(1) that] by (simp add: eo_def)
    then show ?thesis unfolding sorted_wrt_iff_nth_less len by metis
  qed
  also have "\<dots> \<longleftrightarrow> lanes_in_order note_lanes vs"
  proof
    assume l: "\<forall>p q. p < q \<and> q < n \<and> key (eo ! p) = key (eo ! q) \<longrightarrow> eo ! p < eo ! q"
    show "lanes_in_order note_lanes vs"
      unfolding lanes_in_order_def assms(2)
    proof (intro allI impI)
      fix i j assume ij: "i < n" "j < n" "i < j \<and> note_lanes ! i = note_lanes ! j"
      note at = invert_order_nth(2) [OF assms(1)] input_permutation_nth [OF assms(1)]
      have "\<not> nat (vs ! j) < nat (vs ! i)"
        using l [rule_format, of "nat (vs ! j)" "nat (vs ! i)"] at [of i] at [of j] ij same [of i j]
        by (auto simp: eo_def)
      moreover have "nat (vs ! i) \<noteq> nat (vs ! j)" using at(1) [of i] at(1) [of j] ij by auto
      ultimately show "vs ! i < vs ! j" using at(2) [of i] at(2) [of j] ij by linarith
    qed
  next
    assume r: "lanes_in_order note_lanes vs"
    show "\<forall>p q. p < q \<and> q < n \<and> key (eo ! p) = key (eo ! q) \<longrightarrow> eo ! p < eo ! q"
    proof (intro allI impI)
      fix p q assume pq: "p < q \<and> q < n \<and> key (eo ! p) = key (eo ! q)"
      then have b: "eo ! p < n" "nat (vs ! (eo ! p)) = p" "eo ! q < n" "nat (vs ! (eo ! q)) = q"
        using invert_order_back [OF assms(1), of p] invert_order_back [OF assms(1), of q] by (auto simp: eo_def)
      have "\<not> vs ! (eo ! q) < vs ! (eo ! p)" using b pq by linarith
      then have "\<not> eo ! q < eo ! p"
        using r b pq same [of "eo ! q" "eo ! p"] by (auto simp: lanes_in_order_def assms(2))
      moreover have "eo ! p \<noteq> eo ! q" using b pq by auto
      ultimately show "eo ! p < eo ! q" by simp
    qed
  qed
  finally show ?thesis by (simp add: eo_def)
qed

section \<open>A play section by section\<close>

text \<open>The reference: a section fills the bar until a hit takes it to full, its fever takes the hits until
  the time charged reaches the duration, and the hit that ends it fills nothing.\<close>

definition game_hit :: "f64 \<Rightarrow> f64 \<Rightarrow> bool \<Rightarrow> f64 \<Rightarrow> f64" where
  "game_hit perfect_fill great_fill great b = min (add64 b (if great then great_fill else perfect_fill)) 1"

interpretation game_bar: fever_bar "game_hit \<bar>pf\<bar> \<bar>gf\<bar>" 1 "\<lambda>b. is_f64 b \<and> b \<le> 1" for pf gf
proof unfold_locales
  have one: "is_f64 1" using is_f64_of_int [of 1] by simp
  fix b :: f64 and l
  show "is_f64 b \<and> b \<le> 1 \<Longrightarrow> is_f64 (game_hit \<bar>pf\<bar> \<bar>gf\<bar> l b) \<and> game_hit \<bar>pf\<bar> \<bar>gf\<bar> l b \<le> 1"
    using one by (simp add: game_hit_def min_def)
  show "is_f64 b \<and> b \<le> 1 \<Longrightarrow> b \<le> game_hit \<bar>pf\<bar> \<bar>gf\<bar> l b"
    by (auto simp: game_hit_def add64_def intro: le_r64)
qed

fun fever_hits :: "f64 \<Rightarrow> f64 \<Rightarrow> f64 \<Rightarrow> f64 list \<Rightarrow> nat" where
  "fever_hits duration elapsed prev [] = 0"
| "fever_hits duration elapsed prev (t # ts) =
     (let e = add64 elapsed (div64 (sub64 t prev) 1000)
      in if e \<ge> duration then 0 else Suc (fever_hits duration e t ts))"

function play_sections :: "f64 \<Rightarrow> f64 \<Rightarrow> f64 \<Rightarrow> (f64 \<times> bool) list \<Rightarrow> bool list" where
  "play_sections pf gf duration events =
     (case bar_crossing (game_hit pf gf) 1 0 0 (map snd events) of
        None \<Rightarrow> replicate (length events) False
      | Some (m, great) \<Rightarrow>
          (let k = nat m; later = drop (Suc k) events;
               w = fever_hits duration 0 (fst (events ! k)) (map fst later)
           in replicate k False @ True # replicate w True
              @ (if w < length later then False # play_sections pf gf duration (drop (Suc w) later) else [])))"
  by pat_completeness auto
termination by (relation "measure (length \<circ> snd \<circ> snd \<circ> snd)") (auto simp: Let_def)

declare play_sections.simps [simp del]

fun walk_flags :: "f64 \<Rightarrow> f64 \<Rightarrow> f64 \<Rightarrow> walk_state \<Rightarrow> (f64 \<times> bool) list \<Rightarrow> bool list" where
  "walk_flags pf gf duration s [] = []"
| "walk_flags pf gf duration s ((t, great) # events) =
     (let s' = walk_event pf gf duration great t s
      in bar_active s' # walk_flags pf gf duration (s'\<lparr>previous_event_ms := t\<rparr>) events)"

lemma walk_event_fever_out:
  "walk_event pf gf duration great t (s\<lparr>fever_out := x\<rparr>) = walk_event pf gf duration great t s\<lparr>fever_out := x\<rparr>"
  by (simp add: walk_event_def Let_def)

lemma walk_flags_fever_out [simp]:
  "walk_flags pf gf duration (s\<lparr>fever_out := x\<rparr>) events = walk_flags pf gf duration s events"
proof (induction events arbitrary: s)
  case (Cons e events)
  obtain t g where e: "e = (t, g)" by fastforce
  have swap: "s'\<lparr>fever_out := x, previous_event_ms := t\<rparr> = s'\<lparr>previous_event_ms := t, fever_out := x\<rparr>"
    for s' :: walk_state by simp
  show ?case by (simp add: e Let_def walk_event_fever_out swap Cons.IH)
qed simp

lemma walk_flags_length [simp]: "length (walk_flags pf gf duration s events) = length events"
  by (induction pf gf duration s events rule: walk_flags.induct) (simp_all add: Let_def)

lemma walk_event_keeps [simp]:
  "fever_out (walk_event pf gf duration g t s) = fever_out s"
  "previous_event_ms (walk_event pf gf duration g t s) = previous_event_ms s"
  by (simp_all add: walk_event_def Let_def)

lemma walk_filling:
  "\<not> bar_active s \<Longrightarrow> walk_flags pf gf duration s events =
     (case bar_crossing (game_hit pf gf) 1 (bar_level s) i (map snd events) of
        None \<Rightarrow> replicate (length events) False
      | Some (m, great) \<Rightarrow> replicate (nat (m - i)) False @ True #
          walk_flags pf gf duration
            (s\<lparr>bar_level := 1, bar_active := True, elapsed_seconds := 0,
               previous_event_ms := fst (events ! nat (m - i))\<rparr>) (drop (Suc (nat (m - i))) events))
   \<and> (\<forall>m g. bar_crossing (game_hit pf gf) 1 (bar_level s) i (map snd events) = Some (m, g) \<longrightarrow>
        i \<le> m \<and> m < i + int (length events))"
proof (induction events arbitrary: s i)
  case (Cons e events)
  obtain t g where e: "e = (t, g)" by fastforce
  define b where "b = game_hit pf gf g (bar_level s)"
  show ?case
  proof (cases "1 \<le> b")
    case True
    then have "b = 1" by (simp add: b_def game_hit_def)
    then show ?thesis using Cons.prems True
      by (simp add: e Let_def walk_event_def game_hit_def [symmetric] b_def [symmetric])
  next
    case False
    let ?s = "s\<lparr>bar_level := b, previous_event_ms := t\<rparr>"
    have step: "walk_flags pf gf duration s (e # events) = False # walk_flags pf gf duration ?s events"
      using Cons.prems False by (simp add: e Let_def walk_event_def game_hit_def [symmetric] b_def [symmetric])
    have IH: "\<not> bar_active ?s" "bar_level ?s = b" using Cons.prems by simp_all
    have cross: "bar_crossing (game_hit pf gf) 1 (bar_level s) i (map snd (e # events))
        = bar_crossing (game_hit pf gf) 1 b (i + 1) (map snd events)"
      using False by (simp add: e b_def [symmetric])
    show ?thesis
    proof (cases "bar_crossing (game_hit pf gf) 1 b (i + 1) (map snd events)")
      case None
      then show ?thesis using Cons.IH [OF IH(1), of "i + 1"] by (simp only: step cross) simp
    next
      case (Some mg)
      obtain m l where m: "mg = (m, l)" by fastforce
      have le: "i + 1 \<le> m" "m < i + 1 + int (length events)"
        using Cons.IH [OF IH(1), of "i + 1"] Some by (simp_all add: m)
      then have "nat (m - i) = Suc (nat (m - (i + 1)))" by simp
      then show ?thesis using Cons.IH [OF IH(1), of "i + 1"] Some le
        by (simp only: step cross) (simp add: m)
    qed
  qed
qed simp

lemma walk_draining:
  "bar_active s \<Longrightarrow> walk_flags pf gf duration s events =
     (let w = fever_hits duration (elapsed_seconds s) (previous_event_ms s) (map fst events)
      in replicate w True @ (if w < length events
           then False # walk_flags pf gf duration
             (s\<lparr>bar_active := False, elapsed_seconds := 0, bar_level := 0, previous_event_ms := fst (events ! w)\<rparr>)
             (drop (Suc w) events) else []))"
proof (induction events arbitrary: s)
  case (Cons e events)
  obtain t g where e: "e = (t, g)" by fastforce
  define el where "el = add64 (elapsed_seconds s) (div64 (sub64 t (previous_event_ms s)) 1000)"
  show ?case
  proof (cases "duration \<le> el")
    case True
    then show ?thesis using Cons.prems by (simp add: e Let_def walk_event_def el_def [symmetric])
  next
    case False
    then show ?thesis using Cons.prems Cons.IH [of "s\<lparr>elapsed_seconds := el, previous_event_ms := t\<rparr>"]
      by (simp add: e Let_def walk_event_def el_def [symmetric])
  qed
qed simp

lemma walk_flags_sections:
  "\<not> bar_active s \<Longrightarrow> bar_level s = 0 \<Longrightarrow> walk_flags pf gf duration s events = play_sections pf gf duration events"
proof (induction pf gf duration events arbitrary: s rule: play_sections.induct)
  case (1 pf gf duration events)
  show ?case
  proof (cases "bar_crossing (game_hit pf gf) 1 0 0 (map snd events)")
    case None
    then show ?thesis using walk_filling [OF "1.prems"(1), of pf gf duration events 0] "1.prems"(2)
      by (subst play_sections.simps) simp
  next
    case (Some mg)
    obtain m g where m: "mg = (m, g)" by fastforce
    let ?later = "drop (Suc (nat m)) events"
    let ?w = "fever_hits duration 0 (fst (events ! nat m)) (map fst ?later)"
    let ?t = "s\<lparr>bar_level := 1, bar_active := False, elapsed_seconds := 0, bar_level := 0, previous_event_ms := fst (?later ! ?w)\<rparr>"
    have IH: "walk_flags pf gf duration ?t (drop (Suc ?w) ?later) = play_sections pf gf duration (drop (Suc ?w) ?later)"
      if "?w < length ?later"
      using "1.IH" [OF Some m [symmetric] refl refl refl that] by simp
    have "walk_flags pf gf duration s events = replicate (nat m) False @ True # walk_flags pf gf duration
        (s\<lparr>bar_level := 1, bar_active := True, elapsed_seconds := 0, previous_event_ms := fst (events ! nat m)\<rparr>) ?later"
      using walk_filling [OF "1.prems"(1), of pf gf duration events 0] "1.prems"(2) Some by (simp add: m)
    also have "\<dots> = play_sections pf gf duration events"
      using IH by (subst walk_draining, simp, subst play_sections.simps) (simp add: Some m Let_def)
    finally show ?thesis .
  qed
qed

text \<open>The events in input order: their times, and whether each is a Great.\<close>

definition events_in :: "f64 list \<Rightarrow> int list \<Rightarrow> nat list \<Rightarrow> (f64 \<times> bool) list" where
  "events_in at_ms codes order = map (\<lambda>i. (at_ms ! i, codes ! i = GREAT_CODE)) order"

definition forward_from :: "nat \<Rightarrow> f64 \<Rightarrow> f64 list \<Rightarrow> bool" where
  "forward_from pos prev ts \<longleftrightarrow> sorted ts \<and> (pos > 0 \<and> ts \<noteq> [] \<longrightarrow> prev \<le> hd ts)"

lemma forward_from_Cons: "forward_from pos prev (t # ts) \<longleftrightarrow> \<not> (pos > 0 \<and> t < prev) \<and> forward_from (Suc pos) t ts"
  by (cases ts) (auto simp: forward_from_def)

lemma mark_event_simps [simp]:
  "fever_out (mark_event idx t s) = (fever_out s)[idx := bar_active s]" "previous_event_ms (mark_event idx t s) = t"
  by (simp_all add: mark_event_def)

lemma walk_from_flags:
  assumes "distinct order" "\<forall>i \<in> set order. i < length (fever_out s)"
  shows "case walk_from pf gf duration at_ms codes pos order s of (status, out) \<Rightarrow>
    (status = REPLAY_OK \<or> status = REPLAY_ERR_BACKWARD_TIME)
    \<and> (status = REPLAY_OK \<longleftrightarrow> forward_from pos (previous_event_ms s) (map ((!) at_ms) order))
    \<and> (status = REPLAY_OK \<longrightarrow> length out = length (fever_out s)
        \<and> (\<forall>i. i \<notin> set order \<longrightarrow> out ! i = fever_out s ! i)
        \<and> map ((!) out) order = walk_flags pf gf duration s (events_in at_ms codes order))"
  using assms
proof (induction order arbitrary: pos s)
  case Nil
  then show ?case by (simp add: forward_from_def events_in_def)
next
  case (Cons idx order)
  let ?t = "at_ms ! idx"
  define w where "w = walk_event pf gf duration (codes ! idx = GREAT_CODE) ?t s"
  show ?case
  proof (cases "pos > 0 \<and> ?t < previous_event_ms s")
    case True
    then show ?thesis by (simp add: forward_from_Cons)
  next
    case False
    obtain status out where run: "walk_from pf gf duration at_ms codes (Suc pos) order (mark_event idx ?t w) = (status, out)"
      by fastforce
    have step: "walk_from pf gf duration at_ms codes pos (idx # order) s = (status, out)"
      using False run by (auto simp: Let_def w_def)
    have w: "fever_out w = fever_out s" by (simp add: w_def)
    have "case walk_from pf gf duration at_ms codes (Suc pos) order (mark_event idx ?t w) of (status, out) \<Rightarrow>
        (status = REPLAY_OK \<or> status = REPLAY_ERR_BACKWARD_TIME)
        \<and> (status = REPLAY_OK \<longleftrightarrow>
             forward_from (Suc pos) (previous_event_ms (mark_event idx ?t w)) (map ((!) at_ms) order))
        \<and> (status = REPLAY_OK \<longrightarrow> length out = length (fever_out (mark_event idx ?t w))
            \<and> (\<forall>i. i \<notin> set order \<longrightarrow> out ! i = fever_out (mark_event idx ?t w) ! i)
            \<and> map ((!) out) order = walk_flags pf gf duration (mark_event idx ?t w) (events_in at_ms codes order))"
      by (rule Cons.IH) (use Cons.prems in \<open>simp_all add: w\<close>)
    then have IH: "(status = REPLAY_OK \<or> status = REPLAY_ERR_BACKWARD_TIME)
        \<and> (status = REPLAY_OK \<longleftrightarrow> forward_from (Suc pos) ?t (map ((!) at_ms) order))
        \<and> (status = REPLAY_OK \<longrightarrow> length out = length (fever_out s)
            \<and> (\<forall>i. i \<notin> set order \<longrightarrow> out ! i = (fever_out s)[idx := bar_active w] ! i)
            \<and> map ((!) out) order = walk_flags pf gf duration (mark_event idx ?t w) (events_in at_ms codes order))"
      unfolding run prod.case mark_event_simps w length_list_update .
    have swap: "mark_event idx ?t w = w\<lparr>previous_event_ms := ?t, fever_out := (fever_out w)[idx := bar_active w]\<rparr>"
      by (simp add: mark_event_def)
    have flags: "walk_flags pf gf duration (mark_event idx ?t w) evs
        = walk_flags pf gf duration (w\<lparr>previous_event_ms := ?t\<rparr>) evs" for evs
      unfolding swap by (rule walk_flags_fever_out)
    have rest: "out ! i = fever_out s ! i" if "status = REPLAY_OK" "i \<notin> set (idx # order)" for i
      using IH that by simp
    have head: "out ! idx = bar_active w" if "status = REPLAY_OK"
      using IH that Cons.prems by simp
    have "walk_flags pf gf duration s (events_in at_ms codes (idx # order))
        = bar_active w # walk_flags pf gf duration (mark_event idx ?t w) (events_in at_ms codes order)"
      by (simp add: events_in_def flags [symmetric] w_def [symmetric] Let_def)
    moreover have "forward_from pos (previous_event_ms s) (map ((!) at_ms) (idx # order))
        \<longleftrightarrow> forward_from (Suc pos) ?t (map ((!) at_ms) order)"
      using False by (simp add: forward_from_Cons)
    ultimately show ?thesis unfolding step prod.case using IH rest head by (cases "status = REPLAY_OK") simp_all
  qed
qed

lemma walk_from_start_flags:
  assumes "input_permutation n vs"
  defines "eo \<equiv> invert_order vs"
  obtains status out where
    "fever_walk eo at_ms codes denom duration (replicate n False) = (status, out)"
    "status = REPLAY_OK \<longleftrightarrow> 0 < denom \<and> 0 < duration \<and> sorted (map ((!) at_ms) eo)"
    "status = REPLAY_OK \<Longrightarrow> length out = n \<and>
       map ((!) out) eo = play_sections (div64 1 denom) (div64 1 (mul64 2 denom)) duration (events_in at_ms codes eo)"
proof (cases "0 < denom \<and> 0 < duration")
  case True
  obtain status out where run: "fever_walk eo at_ms codes denom duration (replicate n False) = (status, out)"
    by fastforce
  then have "walk_from (div64 1 denom) (div64 1 (mul64 2 denom)) duration at_ms codes 0 eo
      (walk_start (replicate n False)) = (status, out)"
    using True by (simp add: fever_walk_def split: if_splits)
  then have "(status = REPLAY_OK \<longleftrightarrow> forward_from 0 0 (map ((!) at_ms) eo))
      \<and> (status = REPLAY_OK \<longrightarrow> length out = n \<and> map ((!) out) eo = walk_flags (div64 1 denom)
          (div64 1 (mul64 2 denom)) duration (walk_start (replicate n False)) (events_in at_ms codes eo))"
    using walk_from_flags [where order = eo and s = "walk_start (replicate n False)" and pf = "div64 1 denom"
        and gf = "div64 1 (mul64 2 denom)" and duration = duration and at_ms = at_ms and codes = codes and pos = 0]
      invert_order_distinct [OF assms(1)] invert_order_set [OF assms(1)]
    by (simp add: walk_start_def eo_def)
  then show thesis using that [OF run] True by (simp add: forward_from_def walk_flags_sections walk_start_def)
next
  case False
  then show thesis
    using that [of "if denom \<le> 0 then REPLAY_ERR_FILL_DENOM else REPLAY_ERR_FEVER_DURATION" "replicate n False"]
    by (auto simp: fever_walk_def)
qed

section \<open>The replay accepts the plays the game would play\<close>

lemma find_upt_None: "find P [0..<n] = None \<longleftrightarrow> (\<forall>i < n. \<not> P i)"
  by (auto simp: find_None_iff)

lemma map_nth_permutation:
  assumes "input_permutation n vs" "length xs = n" "length ys = n"
  shows "map ((!) xs) (invert_order vs) = map ((!) ys) (invert_order vs) \<longleftrightarrow> (\<forall>i < n. xs ! i = ys ! i)"
  using invert_order_set [OF assms(1)] by auto

text \<open>How a refusal and an acceptance follow from the checks still open.\<close>

lemma refused_iff: "\<not> A \<Longrightarrow> \<not> R \<Longrightarrow> A \<longleftrightarrow> J \<and> P \<and> R"
  and accepted_iff: "(R \<longleftrightarrow> m) \<Longrightarrow> (A \<longleftrightarrow> m) \<Longrightarrow> J \<and> P \<Longrightarrow> A \<longleftrightarrow> J \<and> P \<and> R"
  by blast+

lemma replay_accepts_iff:
  assumes "length hit_ms = length delta" "length order = length delta" "length codes = length delta"
    and "length fever = length delta" "length note_lanes = length delta" "length edges = length delta"
  defines "at_ms \<equiv> map2 add64 hit_ms delta" and "eo \<equiv> invert_order order" and "n \<equiv> length delta"
  shows "replay_kernel (delta, hit_ms, order, codes, fever) edges note_lanes denom duration check
      = ((REPLAY_OK, - 1, - 1), eo, fever)
    \<longleftrightarrow> (\<forall>i < n. judgment_code (delta ! i) (edges ! i) = codes ! i)
      \<and> input_permutation n order \<and> lanes_in_order note_lanes order
      \<and> 0 < denom \<and> 0 < duration \<and> sorted (map ((!) at_ms) eo)
      \<and> map ((!) fever) eo
        = play_sections (div64 1 denom) (div64 1 (mul64 2 denom)) duration (events_in at_ms codes eo)
      \<and> (check \<longrightarrow> (\<forall>pos < min n 100. codes ! (eo ! pos) = codes ! pos \<and> fever ! (eo ! pos) = fever ! pos))"
    (is "_ \<longleftrightarrow> ?judged \<and> ?perm \<and> ?rest")
proof (cases "?judged \<and> ?perm")
  case False
  show ?thesis
  proof (cases ?judged)
    case judged: True
    then have none: "find (\<lambda>i. judgment_code (delta ! i) (edges ! i) \<noteq> codes ! i) [0..<n] = None"
      by (simp add: find_upt_None)
    have "\<not> order_scan n order (replicate n False)"
      using judged False assms(2) by (simp add: order_scan_permutation n_def)
    then show ?thesis using none judged False by (simp add: replay_kernel_def n_def [symmetric] Let_def)
  next
    case not_judged: False
    then obtain i where "find (\<lambda>i. judgment_code (delta ! i) (edges ! i) \<noteq> codes ! i) [0..<n] = Some i"
      by (cases "find (\<lambda>i. judgment_code (delta ! i) (edges ! i) \<noteq> codes ! i) [0..<n]") (auto simp: find_upt_None)
    then show ?thesis using not_judged by (simp add: replay_kernel_def n_def [symmetric] Let_def)
  qed
next
  case True
  then have judged: "find (\<lambda>i. judgment_code (delta ! i) (edges ! i) \<noteq> codes ! i) [0..<n] = None"
    by (simp add: find_upt_None)
  have perm: "input_permutation n order" "order_scan n order (replicate n False)"
    using True assms(2) by (simp_all add: order_scan_permutation n_def)
  have lanes: "lane_error note_lanes eo = None \<longleftrightarrow> lanes_in_order note_lanes order"
    unfolding eo_def by (rule lane_error_None [OF perm(1)]) (simp add: assms(5) n_def)
  obtain status out where walk: "fever_walk eo at_ms codes denom duration (replicate n False) = (status, out)"
    and ok: "status = REPLAY_OK \<longleftrightarrow> 0 < denom \<and> 0 < duration \<and> sorted (map ((!) at_ms) eo)"
    and flags: "status = REPLAY_OK \<Longrightarrow> length out = n \<and> map ((!) out) eo
        = play_sections (div64 1 denom) (div64 1 (mul64 2 denom)) duration (events_in at_ms codes eo)"
    by (rule walk_from_start_flags [OF perm(1), where at_ms = at_ms and codes = codes and denom = denom
          and duration = duration, folded eo_def]) blast
  have members: "find (\<lambda>i. out ! i \<noteq> fever ! i) [0..<n] = None \<longleftrightarrow> map ((!) fever) eo
        = play_sections (div64 1 denom) (div64 1 (mul64 2 denom)) duration (events_in at_ms codes eo)"
      if ok': "status = REPLAY_OK"
  proof -
    have "map ((!) fever) eo = map ((!) out) eo \<longleftrightarrow> (\<forall>i < n. fever ! i = out ! i)"
      unfolding eo_def by (rule map_nth_permutation [OF perm(1)]) (use flags [OF ok'] assms(4) in \<open>simp_all add: n_def\<close>)
    then show ?thesis using flags [OF ok'] by (auto simp: find_upt_None)
  qed
  have same: "find (\<lambda>i. out ! i \<noteq> fever ! i) [0..<n] = None \<Longrightarrow> status = REPLAY_OK \<Longrightarrow> out = fever"
    using flags assms(4) by (auto simp: find_upt_None n_def intro!: nth_equalityI)
  define member where "member = find (\<lambda>i. out ! i \<noteq> fever ! i) [0..<n]"
  define combo where "combo = find (\<lambda>pos. let idx = eo ! pos in codes ! idx \<noteq> codes ! pos \<or> fever ! idx \<noteq> fever ! pos)
    [0..<if check then min n 100 else 0]"
  have kernel: "replay_kernel (delta, hit_ms, order, codes, fever) edges note_lanes denom duration check
      = (case lane_error note_lanes eo of
           Some (idx, expected) \<Rightarrow> ((REPLAY_ERR_LANE, int idx, int expected), eo, replicate n False)
         | None \<Rightarrow> if status \<noteq> REPLAY_OK then ((status, - 1, - 1), eo, out)
             else (case member of Some i \<Rightarrow> ((REPLAY_ERR_FEVER_MEMBERSHIP, int i, - 1), eo, out)
               | None \<Rightarrow> (case combo of Some pos \<Rightarrow> ((REPLAY_ERR_COMBO_ORDER, int (eo ! pos), int pos), eo, out)
                 | None \<Rightarrow> ((REPLAY_OK, - 1, - 1), eo, out))))"
    unfolding replay_kernel_def prod.case n_def [symmetric] Let_def judged option.case at_ms_def [symmetric]
      eo_def [symmetric] walk member_def combo_def
    by (simp only: perm(2) not_True_eq_False if_False prod.case walk)
  have in_combo: "combo = None \<longleftrightarrow>
      (check \<longrightarrow> (\<forall>pos < min n 100. codes ! (eo ! pos) = codes ! pos \<and> fever ! (eo ! pos) = fever ! pos))"
    unfolding combo_def find_upt_None Let_def by auto
  show ?thesis
  proof (cases "lane_error note_lanes eo = None \<and> status = REPLAY_OK")
    case rejected: False
    then have "replay_kernel (delta, hit_ms, order, codes, fever) edges note_lanes denom duration check
        \<noteq> ((REPLAY_OK, - 1, - 1), eo, fever)"
      unfolding kernel by (cases "lane_error note_lanes eo") auto
    moreover have "\<not> ?rest" using rejected lanes ok by blast
    ultimately show ?thesis by (rule refused_iff)
  next
    case accepted: True
    have in_fever: "member = None \<longleftrightarrow> map ((!) fever) eo
        = play_sections (div64 1 denom) (div64 1 (mul64 2 denom)) duration (events_in at_ms codes eo)"
      "member = None \<Longrightarrow> out = fever"
      unfolding member_def using accepted members same by blast+
    have "?rest \<longleftrightarrow> member = None \<and> combo = None"
      unfolding in_fever(1) in_combo using accepted lanes ok by blast
    moreover have "replay_kernel (delta, hit_ms, order, codes, fever) edges note_lanes denom duration check
        = ((REPLAY_OK, - 1, - 1), eo, fever) \<longleftrightarrow> member = None \<and> combo = None"
      unfolding kernel using accepted in_fever(2) by (cases member; cases combo) simp_all
    ultimately show ?thesis by (rule accepted_iff) (rule True)
  qed
qed

text \<open>C9: the replay kernel accepts a plan, with the plan's input order inverted and the plan's own fever,
  exactly when every hit lands in the judgment its note is scored with, the inputs are one
  permutation of the notes that takes each lane in note order and never goes back in time, and the
  fever bar played section by section puts each note in or out of fever as the plan scored it; a
  Force Greats plan must also score each combo place of the ramp with the judgment and fever of the
  note the surface has there. Every other plan is refused.\<close>

theorem replay_accepts:
  assumes "length hit_ms = length delta" "length order = length delta" "length codes = length delta"
    and "length fever = length delta" "length note_lanes = length delta" "length edges = length delta"
  defines "at_ms \<equiv> map2 add64 hit_ms delta" and "eo \<equiv> invert_order order" and "n \<equiv> length delta"
  shows "replay_kernel (delta, hit_ms, order, codes, fever) edges note_lanes denom duration check
      = ((REPLAY_OK, - 1, - 1), eo, fever)
    \<longleftrightarrow> (\<forall>i < n. judgment_code (delta ! i) (edges ! i) = codes ! i)
      \<and> input_permutation n order \<and> lanes_in_order note_lanes order
      \<and> 0 < denom \<and> 0 < duration \<and> sorted (map ((!) at_ms) eo)
      \<and> map ((!) fever) eo
        = play_sections (div64 1 denom) (div64 1 (mul64 2 denom)) duration (events_in at_ms codes eo)
      \<and> (check \<longrightarrow> (\<forall>pos < min n 100. codes ! (eo ! pos) = codes ! pos \<and> fever ! (eo ! pos) = fever ! pos))"
  unfolding at_ms_def eo_def n_def by (rule replay_accepts_iff [OF assms(1-6)])

text \<open>Four notes on two lanes: a late Great overtaken by the Perfect beside it, the note that fills the
  bar, and one inside the fever.\<close>

lemma replay_accepts_witness:
  "replay_kernel ([50, 0, 0, 0], [1000, 1000, 2000, 2500], [1, 0, 2, 3], [2, 3, 3, 3], [False, False, True, True])
     (note_edges [1, 1, 1, 1] 0) [0, 1, 0, 1] 2 1 False
   = ((REPLAY_OK, - 1, - 1), [1, 0, 2, 3], [False, False, True, True])"
proof -
  have eo: "invert_order [1, 0, 2, 3] = [1, 0, 2, 3]" by code_simp
  have at: "map2 add64 [1000, 1000, 2000, 2500] [50, 0, 0, 0] = [1050, 1000, 2000, 2500]" by code_simp
  have judged: "map2 judgment_code [50, 0, 0, 0] (note_edges [1, 1, 1, 1] 0) = [2, 3, 3, 3]" by code_simp
  have ends: "length (note_edges [1, 1, 1, 1] 0) = 4" by (simp add: note_edges_def Let_def)
  have judged': "\<forall>i < 4. judgment_code ([50, 0, 0, 0] ! i) (note_edges [1, 1, 1, 1] 0 ! i) = [2, 3, 3, 3] ! i"
  proof (intro allI impI)
    fix i :: nat assume i: "i < 4"
    then have "map2 judgment_code [50, 0, 0, 0] (note_edges [1, 1, 1, 1] 0) ! i
        = judgment_code ([50, 0, 0, 0] ! i) (note_edges [1, 1, 1, 1] 0 ! i)"
      using ends by simp
    then show "judgment_code ([50, 0, 0, 0] ! i) (note_edges [1, 1, 1, 1] 0 ! i) = [2, 3, 3, 3] ! i"
      by (simp only: judged)
  qed
  have perm: "input_permutation 4 [1, 0, 2, 3]" by (simp add: input_permutation_def)
  have lane: "lanes_in_order [0, 1, 0, 1] [1, 0, 2, 3]" by (simp add: lanes_in_order_def All_less_Suc)
  have flags: "play_sections (div64 1 2) (div64 1 (mul64 2 2)) 1
      (events_in [1050, 1000, 2000, 2500] [2, 3, 3, 3] [1, 0, 2, 3]) = [False, False, True, True]" by code_simp
  have len: "length [50, 0, 0, 0 :: rat] = 4" by simp
  have lens: "length [1000, 1000, 2000, 2500 :: rat] = length [50, 0, 0, 0 :: rat]"
    "length [1, 0, 2, 3 :: int] = length [50, 0, 0, 0 :: rat]" "length [2, 3, 3, 3 :: int] = length [50, 0, 0, 0 :: rat]"
    "length [False, False, True, True] = length [50, 0, 0, 0 :: rat]"
    "length [0, 1, 0, 1 :: int] = length [50, 0, 0, 0 :: rat]"
    "length (note_edges [1, 1, 1, 1] 0) = length [50, 0, 0, 0 :: rat]"
    using ends by simp_all
  note accepts = replay_accepts [OF lens, of 2 1 False, unfolded at eo len]
  show ?thesis unfolding accepts flags using judged' perm lane by simp
qed

section \<open>Judgment codes and the planned windows\<close>

text \<open>C35: of whole-millisecond hits, the replay judges Perfect exactly those in the Perfect band that
  \<open>judgment_bounds\<close> gives the planner, and Great those of its early and late Great bands, which miss
  no Great before the game removes the note, for taps and for held tails, at every Perfect Time whose
  judgment edges are in order.\<close>

theorem judgment_code_bands:
  fixes d :: int
  assumes "sorted_wrt (\<ge>) (judgment_edges stat)" "i < length types"
  defines "b \<equiv> judgment_bounds_of (if types ! i = HELD_TAIL_TYPE then HELD_TAIL_WINDOW_SCALE else 1) stat"
    and "code \<equiv> judgment_code (of_int d) (note_edges types stat ! i)"
  shows "(code = PERFECT_CODE \<longleftrightarrow> earliest (perfect_band b) \<le> d \<and> d \<le> latest (perfect_band b))
    \<and> (d \<le> NOTE_REMOVE_LATE_CAP_MS \<longrightarrow> (code = GREAT_CODE \<longleftrightarrow>
        earliest (early_great_band b) \<le> d \<and> d \<le> latest (early_great_band b)
        \<or> earliest (late_great_band b) \<le> d \<and> d \<le> latest (late_great_band b)))"
proof -
  let ?scale = "if types ! i = HELD_TAIL_TYPE then HELD_TAIL_WINDOW_SCALE else 1"
  define e where "e = (\<lambda>j. mul64 (judgment_edges stat ! j) (of_int ?scale))"
  have len: "length (judgment_edges stat) = 6" by (simp add: judgment_edges_def Let_def)
  have f64: "r64 (judgment_edges stat ! j) = judgment_edges stat ! j" if "j < 6" for j
  proof -
    have "is_f64 (signed_stat_curve 0 10 40 120 140 stat)" "is_f64 (signed_stat_curve 0 (- 5) (- 20) (- 60) (- 80) stat)"
      using is_f64_of_int [of 40] is_f64_of_int [of "- 20"] by (auto simp: signed_stat_curve_def stat_curve_def lerp_def)
    then have "\<forall>x \<in> set (judgment_edges stat). is_f64 x" by (simp add: judgment_edges_def Let_def)
    then show ?thesis using that nth_mem [of j "judgment_edges stat"] len by (simp add: is_f64_def)
  qed
  have edges: "note_edges types stat ! i ! j = e j" if "j < 6" for j
    using assms(2) that len f64 [OF that] by (simp add: note_edges_def Let_def e_def HELD_TAIL_WINDOW_SCALE_def mul64_def)
  have down: "e k \<le> e j" if "j \<le> k" "k < 6" for j k
  proof -
    have "judgment_edges stat ! k \<le> judgment_edges stat ! j"
      using that assms(1) len by (cases "j = k") (auto simp: sorted_wrt_iff_nth_less)
    then show ?thesis by (auto simp: e_def mul64_def HELD_TAIL_WINDOW_SCALE_def intro!: r64_mono)
  qed
  have fl: "\<lfloor>e 1\<rfloor> \<le> \<lfloor>e 0\<rfloor>" "\<lfloor>e 2\<rfloor> \<le> \<lfloor>e 1\<rfloor>" "\<lfloor>e 3\<rfloor> \<le> \<lfloor>e 2\<rfloor>" "\<lfloor>e 4\<rfloor> \<le> \<lfloor>e 3\<rfloor>" "\<lfloor>e 5\<rfloor> \<le> \<lfloor>e 4\<rfloor>"
    by (intro floor_mono down; simp)+
  have code: "code = (if d > \<lfloor>e 0\<rfloor> then MISS_CODE else if d > \<lfloor>e 1\<rfloor> then OKAY_CODE else if d > \<lfloor>e 2\<rfloor> then GREAT_CODE
      else if d > \<lfloor>e 3\<rfloor> then PERFECT_CODE else if d > \<lfloor>e 4\<rfloor> then GREAT_CODE else if d > \<lfloor>e 5\<rfloor> then OKAY_CODE
      else MISS_CODE)"
    by (simp add: code_def judgment_code_def edges floor_less_iff)
  have bands: "earliest (perfect_band b) = \<lfloor>e 3\<rfloor> + 1" "latest (perfect_band b) = \<lfloor>e 2\<rfloor>"
    "earliest (early_great_band b) = \<lfloor>e 4\<rfloor> + 1" "latest (early_great_band b) = \<lfloor>e 3\<rfloor>"
    "earliest (late_great_band b) = \<lfloor>e 2\<rfloor> + 1" "latest (late_great_band b) = min \<lfloor>e 1\<rfloor> NOTE_REMOVE_LATE_CAP_MS"
    by (simp_all add: b_def judgment_bounds_of_def Let_def e_def)
  show ?thesis unfolding code bands using fl by (auto simp: judgment_codes)
qed

lemma judgment_code_bands_witness:
  "judgment_code (- 19) (note_edges [1, 3] 0 ! 0) = PERFECT_CODE \<and> judgment_code 200 (note_edges [1, 3] 0 ! 1) = GREAT_CODE"
proof -
  have edges: "judgment_edges 0 = [430, 190, 40, - 20, - 95, - 235]" by code_simp
  have tap: "judgment_bounds_of 1 0 = \<lparr>perfect_band = \<lparr>earliest = - 19, latest = 40\<rparr>,
      early_great_band = \<lparr>earliest = - 94, latest = - 20\<rparr>, late_great_band = \<lparr>earliest = 41, latest = 190\<rparr>\<rparr>"
    by code_simp
  have tail: "judgment_bounds_of 2 0 = \<lparr>perfect_band = \<lparr>earliest = - 39, latest = 80\<rparr>,
      early_great_band = \<lparr>earliest = - 189, latest = - 40\<rparr>, late_great_band = \<lparr>earliest = 81, latest = 200\<rparr>\<rparr>"
    by code_simp
  show ?thesis
    using judgment_code_bands [of 0 0 "[1, 3]" "- 19"] judgment_code_bands [of 0 1 "[1, 3]" 200]
    by (simp add: edges tap tail HELD_TAIL_TYPE_def HELD_TAIL_WINDOW_SCALE_def NOTE_REMOVE_LATE_CAP_MS_def)
qed

section \<open>The first fever of a Perfect play\<close>

lemma fill_loop_Some:
  "fill_loop fill b k = Some n \<Longrightarrow>
     k \<le> n \<and> (\<forall>i < n - k. ((\<lambda>b. min (add64 b fill) 1) ^^ i) b < 1) \<and> 1 \<le> ((\<lambda>b. min (add64 b fill) 1) ^^ (n - k)) b"
proof (induction rule: fill_loop.raw_induct [rotated, consumes 1, case_names loop])
  case (loop rec fill b k n)
  let ?step = "\<lambda>b. min (add64 b fill) 1"
  show ?case
  proof (cases "b < 1")
    case True
    then have IH: "Suc k \<le> n" "\<forall>i < n - Suc k. (?step ^^ i) (?step b) < 1" "1 \<le> (?step ^^ (n - Suc k)) (?step b)"
      using loop(1) [of fill "?step b" "Suc k" n] loop(2) by auto
    then have k: "n - k = Suc (n - Suc k)" by simp
    have "(?step ^^ i) b < 1" if "i < n - k" for i
      using that IH(2) True k by (cases i) (simp_all add: funpow_Suc_right del: funpow.simps(2))
    then show ?thesis using IH k by (simp add: funpow_Suc_right del: funpow.simps(2))
  next
    case False
    then show ?thesis using loop(2) by auto
  qed
qed

lemma perfect_hit: "game_hit pf gf False = (\<lambda>b. min (add64 b pf) 1)"
  by (simp add: fun_eq_iff game_hit_def)

lemma identity_order:
  "input_permutation n (map int [0..<n])" "invert_order (map int [0..<n]) = [0..<n]"
proof -
  show perm: "input_permutation n (map int [0..<n])" by (auto simp: input_permutation_def distinct_map)
  show "invert_order (map int [0..<n]) = [0..<n]"
    using invert_order_nth [OF perm] by (intro nth_equalityI) auto
qed

text \<open>C36: on an all-Perfect play in chart order the first fever starts on the note that
  \<open>perfects_to_fill\<close> counts, the game's own float64 bar, and a play with fewer notes never fevers; so the
  threshold the planner reads from that count agrees with the replay.\<close>

theorem first_fever_is_perfects_to_fill:
  assumes "0 < d" "0 < duration" "sorted ts" "perfects_to_fill d = Some (Inr k)"
  defines "n \<equiv> length ts"
  shows "\<exists>out. fever_walk [0..<n] ts (replicate n PERFECT_CODE) d duration (replicate n False) = (REPLAY_OK, out)
    \<and> length out = n \<and> take k out = (if k \<le> n then replicate (k - 1) False @ [True] else replicate n False)"
proof -
  let ?pf = "div64 1 d" and ?gf = "div64 1 (mul64 2 d)"
  let ?ev = "events_in ts (replicate n PERFECT_CODE) [0..<n]"
  obtain status out where walk: "fever_walk [0..<n] ts (replicate n PERFECT_CODE) d duration (replicate n False) = (status, out)"
    and ok: "status = REPLAY_OK \<longleftrightarrow> 0 < d \<and> 0 < duration \<and> sorted (map ((!) ts) [0..<n])"
    and flags: "status = REPLAY_OK \<Longrightarrow> length out = n \<and> map ((!) out) [0..<n] = play_sections ?pf ?gf duration ?ev"
    by (rule walk_from_start_flags [OF identity_order(1) [of n], where at_ms = ts and denom = d and duration = duration
          and codes = "replicate n PERFECT_CODE", unfolded identity_order(2)]) blast
  have "map ((!) ts) [0..<n] = ts" by (simp add: n_def map_nth)
  then have st: "status = REPLAY_OK" using ok assms by simp
  then have len: "length out = n" and out: "out = play_sections ?pf ?gf duration ?ev"
    using flags map_nth [of out] by simp_all
  have pos: "0 \<le> ?pf" "0 \<le> ?gf" using assms(1) by (auto simp: div64_def mul64_def intro!: r64_nonneg divide_nonneg_nonneg)
  have labels: "map snd ?ev = replicate n False"
    by (rule nth_equalityI) (simp_all add: events_in_def judgment_codes)
  have loop: "fill_loop ?pf 0 0 = Some k" using assms(1,4) by (simp add: perfects_to_fill_def)
  note fill = fill_loop_Some [OF loop]
  have k: "0 < k" using fill by (cases k) auto
  have cross: "bar_crossing (game_hit ?pf ?gf) 1 0 0 (replicate n False) = (if k \<le> n then Some (int (k - 1), False) else None)"
  proof (cases "k \<le> n")
    case True
    have cut: "take (k - 1) (replicate n False) = replicate (k - 1) False"
      "take (Suc (k - 1)) (replicate n False) = replicate k False"
      using True k by (simp_all add: take_replicate min.absorb1)
    have "bar_crossing (game_hit \<bar>?pf\<bar> \<bar>?gf\<bar>) 1 0 0 (replicate n False) = Some (0 + int (k - 1), replicate n False ! (k - 1))"
    proof (rule game_bar.crossing_at)
      show "k - 1 = 0 \<or> fold (game_hit \<bar>?pf\<bar> \<bar>?gf\<bar>) (take (k - 1) (replicate n False)) 0 < 1"
        using fill k cut pos by (simp add: perfect_hit)
      show "1 \<le> fold (game_hit \<bar>?pf\<bar> \<bar>?gf\<bar>) (take (Suc (k - 1)) (replicate n False)) 0"
        using fill k cut pos by (simp add: perfect_hit)
    qed (use k True is_f64_of_int [of 0] in simp_all)
    then show ?thesis using k True pos by simp
  next
    case False
    have "bar_crossing (game_hit \<bar>?pf\<bar> \<bar>?gf\<bar>) 1 0 0 (replicate n False) = None"
      by (rule game_bar.crossing_none) (use fill False pos is_f64_of_int [of 0] in \<open>simp_all add: perfect_hit\<close>)
    then show ?thesis using False pos by simp
  qed
  have "take k out = (if k \<le> n then replicate (k - 1) False @ [True] else replicate n False)"
  proof (cases "k \<le> n")
    case True
    have "\<exists>rest. out = replicate (k - 1) False @ True # rest"
      unfolding out
      by (subst play_sections.simps, simp only: labels cross True if_True option.case prod.case Let_def) simp
    then show ?thesis using k True by (auto simp: take_Cons')
  next
    case False
    have "out = replicate n False"
      unfolding out
      by (subst play_sections.simps, simp only: labels cross False if_False option.case) (simp add: events_in_def)
    then show ?thesis using False by simp
  qed
  then show ?thesis using walk st len by blast
qed

lemma first_fever_is_perfects_to_fill_witness:
  "\<exists>out. fever_walk [0..<8] [0, 1, 2, 3, 4, 5, 6, 7] (replicate 8 PERFECT_CODE) 6 10 (replicate 8 False) = (REPLAY_OK, out)
    \<and> length out = 8 \<and> take 7 out = [False, False, False, False, False, False, True]"
  using first_fever_is_perfects_to_fill [of 6 10 "[0, 1, 2, 3, 4, 5, 6, 7]" 7] perfects_to_fill_6
  by (simp add: numeral_eq_Suc)

end
