(* ===== verification/PhysicalReplay.thy ===== *)
theory PhysicalReplay
  imports NoteGraph ReplayKernel "HOL-Library.Multiset"
begin

text \<open>
  trace/physical_replay.py: a stored trace is planned, reconciled with the surface it scored and played
  through the replay kernel. A validated Force Greats trace, played as planned, scores in the game
  what its surface scores.
\<close>

section \<open>Playing a plan\<close>

record physical_replay =
  pr_event_order :: "nat list"
  pr_fever_mask :: "bool list"

text \<open>What the kernel's status raises.\<close>

fun replay_error :: "replay_status \<Rightarrow> py_error option" where
  "replay_error REPLAY_ERR_JUDGMENT = Some UnplayableTrace"
| "replay_error REPLAY_ERR_INPUT_ORDER = Some ValueError"
| "replay_error REPLAY_ERR_LANE = Some UnplayableTrace"
| "replay_error REPLAY_ERR_FILL_DENOM = Some ValueError"
| "replay_error REPLAY_ERR_FEVER_DURATION = Some ValueError"
| "replay_error REPLAY_ERR_BACKWARD_TIME = Some ValueError"
| "replay_error REPLAY_ERR_FEVER_MEMBERSHIP = Some UnplayableTrace"
| "replay_error REPLAY_ERR_COMBO_ORDER = Some UnplayableTrace"
| "replay_error REPLAY_OK = None"

definition expected_codes :: "note_plan \<Rightarrow> int list" where
  "expected_codes plan = map (\<lambda>great. if great then GREAT_CODE else PERFECT_CODE) (np_great plan)"

definition replay_plan_of :: "note_plan \<Rightarrow> int list \<Rightarrow> nat list \<Rightarrow> f64 \<Rightarrow> f64 \<Rightarrow> int \<Rightarrow> bool \<Rightarrow> physical_replay res" where
  "replay_plan_of plan types lane_ids denom fever_seconds perfect_stat check_combo_order =
     (case replay_kernel (np_delta plan, np_hit_ms plan, map int (np_input_order plan), expected_codes plan, np_fever plan)
             (note_edges types perfect_stat) (map int lane_ids) denom fever_seconds check_combo_order of
        ((status, arg_a, arg_b), event_order, replay_fever) \<Rightarrow>
          (case replay_error status of
             Some e \<Rightarrow> Inl e
           | None \<Rightarrow> Inr \<lparr>pr_event_order = event_order, pr_fever_mask = replay_fever\<rparr>))"

definition validate_base_physical_replay ::
    "trace_section list \<Rightarrow> int list \<Rightarrow> f64 list \<Rightarrow> int list \<Rightarrow> nat list \<Rightarrow> f64 \<Rightarrow> f64 \<Rightarrow> string \<Rightarrow> int \<Rightarrow> physical_replay res option" where
  "validate_base_physical_replay sections surface ts types lane_ids denom fever_duration_ms mode perfect_stat =
     map_option (\<lambda>r. bind_res r (\<lambda>plan. bind_res (reconcile_base_plan plan surface) (\<lambda>_.
         replay_plan_of plan types lane_ids denom (div64 fever_duration_ms 1000) perfect_stat False)))
       (timeline_frontier_plan sections (length types) ts types lane_ids mode perfect_stat)"

definition validate_force_greats_physical_replay ::
    "trace_section list \<Rightarrow> fg_surface \<Rightarrow> f64 list \<Rightarrow> int list \<Rightarrow> nat list \<Rightarrow> f64 \<Rightarrow> f64 \<Rightarrow> string \<Rightarrow> int \<Rightarrow> physical_replay res option" where
  "validate_force_greats_physical_replay sections surface ts types lane_ids denom real_fever_time mode perfect_stat =
     map_option (\<lambda>r. bind_res r (\<lambda>plan.
         bind_res (reconcile_force_greats_plan plan (fever_words surface) (great_words surface)
           (body_fever surface) (body_great surface) (body_fever_great surface)) (\<lambda>_.
         replay_plan_of plan types lane_ids denom real_fever_time perfect_stat True)))
       (force_greats_plan sections (length types) ts types lane_ids mode perfect_stat)"

section \<open>A plan's inputs\<close>

lemma wf_plan_permutation: "wf_plan n lane_ids plan \<Longrightarrow> input_permutation n (map int (np_input_order plan))"
  by (auto simp: wf_plan_def input_permutation_def distinct_map)

lemma lanes_play_in_order_int:
  "wf_plan n lane_ids plan \<Longrightarrow> lanes_play_in_order plan \<Longrightarrow> lanes_in_order (map int lane_ids) (map int (np_input_order plan))"
  by (auto simp: lanes_play_in_order_def lanes_in_order_def wf_plan_def)

text \<open>C38: the input order of any plan the repository builds from a stored trace, Base or Force Greats, is
  one the replay cannot refuse: every place of the input stream is taken once, and every lane's notes
  are played in chart order. Each column of the plan has one entry per note.\<close>

theorem plans_input_every_note_once:
  assumes "timeline_frontier_plan sections n ts types lane_ids mode stat = Some (Inr plan)
    \<or> force_greats_plan sections n ts types lane_ids mode stat = Some (Inr plan)"
  defines "order \<equiv> map int (np_input_order plan)"
  shows "wf_plan n lane_ids plan \<and> order_scan n order (replicate n False)
    \<and> lane_error (map int lane_ids) (invert_order order) = None"
proof -
  have plan: "wf_plan n lane_ids plan" "lanes_play_in_order plan"
    using assms(1) timeline_frontier_plan_wf force_greats_plan_wf by blast+
  then have "length (map int lane_ids) = n" "length order = n" by (simp_all add: wf_plan_def order_def)
  note perm = wf_plan_permutation [OF plan(1), folded order_def]
  show ?thesis
    using plan(1) perm order_scan_permutation [OF \<open>length order = n\<close>]
      lane_error_None [OF perm \<open>length (map int lane_ids) = n\<close>] lanes_play_in_order_int [OF plan]
    by (simp add: order_def)
qed

section \<open>A surface scores its plan\<close>

lemma head_matches_bits:
  assumes "head_matches column h words = Inr ()" "length words = 4" "h \<le> 128" "k < h" "k < length column"
  shows "bit (words ! (k div 32)) (k mod 32) = column ! k"
proof -
  have "take h column = map (\<lambda>i. bit (words ! (i div 32)) (i mod 32)) [0..<h]"
    using assms(1-3) by (auto simp: head_matches_def head_bits_def min_absorb1 split: if_splits)
  from arg_cong [OF this, of "\<lambda>xs. xs ! k"] show ?thesis using assms(4,5) by simp
qed

lemma count_true_zip:
  "length xs = length ys \<Longrightarrow> count_true xs = int (length (filter fst (zip xs ys)))"
  "length xs = length ys \<Longrightarrow> count_true ys = int (length (filter snd (zip xs ys)))"
  "count_true (map2 (\<and>) xs ys) = int (length (filter (\<lambda>x. fst x \<and> snd x) (zip xs ys)))"
proof -
  show "length xs = length ys \<Longrightarrow> count_true xs = int (length (filter fst (zip xs ys)))"
    unfolding count_true_def by (induction xs ys rule: list_induct2) simp_all
  show "length xs = length ys \<Longrightarrow> count_true ys = int (length (filter snd (zip xs ys)))"
    unfolding count_true_def by (induction xs ys rule: list_induct2) simp_all
  show "count_true (map2 (\<and>) xs ys) = int (length (filter (\<lambda>x. fst x \<and> snd x) (zip xs ys)))"
    unfolding count_true_def by (simp add: filter_map comp_def case_prod_beta)
qed

lemma reconciled_score:
  assumes "reconcile_force_greats_plan plan (fever_words s) (great_words s) (body_fever s) (body_great s) (body_fever_great s) = Inr ()"
    and wf: "wf_plan n lane_ids plan"
  shows "fg_surface_score f s n = Inr (play_score f (zip (np_fever plan) (np_great plan)))"
proof -
  let ?play = "zip (np_fever plan) (np_great plan)" and ?h = "min n PLAN_HEAD_NOTES"
  have len: "length (np_fever plan) = n" "length (np_great plan) = n" "length ?play = n" "length (np_hit_ms plan) = n"
    using wf by (simp_all add: wf_plan_def)
  have heads: "head_matches (np_fever plan) ?h (fever_words s) = Inr ()" "head_matches (np_great plan) ?h (great_words s) = Inr ()"
    and bodies: "count_true (drop PLAN_HEAD_NOTES (np_fever plan)) = body_fever s"
      "count_true (drop PLAN_HEAD_NOTES (np_great plan)) = body_great s"
      "count_true (map2 (\<and>) (drop PLAN_HEAD_NOTES (np_fever plan)) (drop PLAN_HEAD_NOTES (np_great plan))) = body_fever_great s"
    using assms(1) by (auto simp: reconcile_force_greats_plan_def Let_def len bind_res_eq_Inr split: if_splits)
  have same: "PLAN_HEAD_NOTES = HEAD_NOTES" "HEAD_NOTES = 100"
    by (simp_all add: PLAN_HEAD_NOTES_def HEAD_NOTES_def COMBO_RAMP_NOTES_def)
  have counts: "body_fever s = body_fever (play_surface ?play)" "body_great s = body_great (play_surface ?play)"
    "body_fever_great s = body_fever_great (play_surface ?play)"
    using bodies count_true_zip [of "drop HEAD_NOTES (np_fever plan)" "drop HEAD_NOTES (np_great plan)"]
    by (simp_all add: play_surface_def Let_def same(1) drop_zip len)
  have "fg_score_value f s n = fg_score_value f (play_surface ?play) n"
  proof (rule fg_score_value_cong)
    fix k assume k: "k < HEAD_NOTES" "k < n"
    then have h: "k < ?h" "?h \<le> 128" by (simp_all add: same)
    show "bit (fever_words s ! (k div 32)) (k mod 32) = bit (fever_words (play_surface ?play) ! (k div 32)) (k mod 32)
        \<and> bit (great_words s ! (k div 32)) (k mod 32) = bit (great_words (play_surface ?play) ! (k div 32)) (k mod 32)"
      using head_matches_bits [OF heads(1) _ h(2,1)] head_matches_bits [OF heads(2) _ h(2,1)] play_surface_bits [of k ?play] k
      by (simp add: fever_words_def great_words_def len)
  qed (rule counts)+
  moreover have "valid_counts s n \<longleftrightarrow> valid_counts (play_surface ?play) n" by (simp add: valid_counts_def counts)
  moreover have "valid_counts (play_surface ?play) n" using play_surface_valid [of ?play] len(3) by simp
  ultimately show ?thesis
    using fg_surface_score_play_value [of f ?play, unfolded len(3)] by (simp add: fg_surface_score_eq)
qed

section \<open>A validated trace plays for its score\<close>

lemma replay_kernel_ok:
  assumes run: "replay_kernel (delta, hit_ms, order, codes, fever) edges note_lanes denom duration check = ((REPLAY_OK, a, b), eo, out)"
    and len: "length delta = n" "length fever = n" and perm: "input_permutation n order"
  shows "a = - 1" "b = - 1" "eo = invert_order order" "out = fever"
proof -
  define event_times where "event_times = map2 add64 hit_ms delta"
  define order' where "order' = invert_order order"
  obtain status fevered where walk: "fever_walk order' event_times codes denom duration (replicate n False) = (status, fevered)"
    and flags: "status = REPLAY_OK \<Longrightarrow> length fevered = n"
    by (rule walk_from_start_flags [OF perm, where at_ms = event_times and codes = codes and denom = denom
          and duration = duration, folded order'_def]) blast
  have "a = - 1 \<and> b = - 1 \<and> eo = order' \<and> status = REPLAY_OK \<and> out = fevered \<and> (\<forall>i < n. fevered ! i = fever ! i)"
    using run
    by (auto simp: replay_kernel_def Let_def len event_times_def [symmetric] order'_def [symmetric] walk find_upt_None
        split: option.splits if_splits)
  then show "a = - 1" "b = - 1" "eo = invert_order order" "out = fever"
    using flags len(2) by (auto simp: order'_def intro: nth_equalityI)
qed

text \<open>Reordering a play inside the body, or between notes of one judgment and fever, keeps its score.\<close>

lemma reordered_play_score:
  assumes "distinct order" "set order = {..<length play}" "length order = length play"
    and "\<forall>pos < min (length play) HEAD_NOTES. play ! (order ! pos) = play ! pos"
  shows "play_score f (map ((!) play) order) = play_score f play"
proof -
  let ?p = "map ((!) play) order"
  have len: "length ?p = length play" using assms(3) by simp
  have "mset order = mset [0..<length play]"
    using assms(1,2) by (subst set_eq_iff_mset_eq_distinct [symmetric]) (simp_all add: lessThan_atLeast0)
  then have "mset ?p = image_mset ((!) play) (mset [0..<length play])" by simp
  also have "\<dots> = mset (map ((!) play) [0..<length play])" by (simp only: mset_map)
  finally have all: "mset ?p = mset play" by (simp add: map_nth)
  have head: "take HEAD_NOTES ?p = take HEAD_NOTES play"
    by (rule nth_equalityI) (use assms(3,4) in \<open>simp_all add: min.commute\<close>)
  have "mset (take HEAD_NOTES ?p) + mset (drop HEAD_NOTES ?p) = mset (take HEAD_NOTES play) + mset (drop HEAD_NOTES play)"
    using all by (simp only: mset_append [symmetric] append_take_drop_id)
  then have body: "mset (drop HEAD_NOTES ?p) = mset (drop HEAD_NOTES play)" by (simp add: head)
  have "(\<Sum>x\<leftarrow>drop HEAD_NOTES ?p. g x) = (\<Sum>x\<leftarrow>drop HEAD_NOTES play. g x)" for g :: "bool \<times> bool \<Rightarrow> int"
    using arg_cong [OF body, of "\<lambda>M. sum_mset (image_mset g M)"] by (simp only: mset_map [symmetric] sum_mset_sum_list)
  moreover have "(\<Sum>k\<leftarrow>[0..<min (length play) HEAD_NOTES]. note_value f (f_ramp f ! k) (fst (?p ! k)) (snd (?p ! k)))
      = (\<Sum>k\<leftarrow>[0..<min (length play) HEAD_NOTES]. note_value f (f_ramp f ! k) (fst (play ! k)) (snd (play ! k)))"
    by (intro arg_cong [where f = sum_list] map_cong) (use assms(3,4) in simp_all)
  ultimately show ?thesis unfolding play_score_split len by simp
qed

text \<open>What the game sees of a replayed plan: its hits in the replay's order, each with its judgment, and
  its score from the fever bar those hits fill.\<close>

definition game_codes :: "note_plan \<Rightarrow> int list \<Rightarrow> int \<Rightarrow> int list" where
  "game_codes plan types stat = map2 judgment_code (np_delta plan) (note_edges types stat)"

definition game_events :: "note_plan \<Rightarrow> int list \<Rightarrow> int \<Rightarrow> nat list \<Rightarrow> (f64 \<times> bool) list" where
  "game_events plan types stat order = events_in (map2 add64 (np_hit_ms plan) (np_delta plan)) (game_codes plan types stat) order"

definition game_score :: "factors \<Rightarrow> f64 \<Rightarrow> f64 \<Rightarrow> (f64 \<times> bool) list \<Rightarrow> int" where
  "game_score f denom duration events =
     play_score f (zip (play_sections (div64 1 denom) (div64 1 (mul64 2 denom)) duration events) (map snd events))"

lemma replayed:
  assumes run: "replay_plan_of plan types lane_ids denom duration stat check = Inr r" and wf: "wf_plan (length types) lane_ids plan"
  defines "n \<equiv> length types" and "order \<equiv> map int (np_input_order plan)"
  shows "pr_event_order r = invert_order order" "pr_fever_mask r = np_fever plan"
    and "game_codes plan types stat = expected_codes plan"
    and "sorted (map ((!) (map2 add64 (np_hit_ms plan) (np_delta plan))) (pr_event_order r))"
    and "map ((!) (np_fever plan)) (pr_event_order r)
      = play_sections (div64 1 denom) (div64 1 (mul64 2 denom)) duration (game_events plan types stat (pr_event_order r))"
    and "check \<Longrightarrow> pos < min n 100 \<Longrightarrow> expected_codes plan ! (pr_event_order r ! pos) = expected_codes plan ! pos
        \<and> np_fever plan ! (pr_event_order r ! pos) = np_fever plan ! pos"
proof -
  let ?edges = "note_edges types stat" and ?codes = "expected_codes plan"
  have len: "length (np_delta plan) = n" "length (np_hit_ms plan) = n" "length (np_fever plan) = n" "length ?codes = n"
    "length order = n" "length (map int lane_ids) = n" "length ?edges = n"
    using wf by (simp_all add: wf_plan_def expected_codes_def note_edges_def Let_def n_def order_def)
  have perm: "input_permutation n order" using wf_plan_permutation [OF wf] by (simp add: n_def order_def)
  obtain a b out where kernel: "replay_kernel (np_delta plan, np_hit_ms plan, order, ?codes, np_fever plan) ?edges
        (map int lane_ids) denom duration check = ((REPLAY_OK, a, b), pr_event_order r, out)" and out: "pr_fever_mask r = out"
  proof -
    obtain status a b eo out where k: "replay_kernel (np_delta plan, np_hit_ms plan, order, ?codes, np_fever plan) ?edges
        (map int lane_ids) denom duration check = ((status, a, b), eo, out)" by (metis prod_cases3 surj_pair)
    have "status = REPLAY_OK \<and> r = \<lparr>pr_event_order = eo, pr_fever_mask = out\<rparr>"
      using run unfolding replay_plan_of_def order_def [symmetric] k prod.case by (cases status) simp_all
    then show thesis using k that by simp
  qed
  note ok = replay_kernel_ok [OF kernel len(1,3) perm]
  show "pr_event_order r = invert_order order" "pr_fever_mask r = np_fever plan" using ok out by simp_all
  have "replay_kernel (np_delta plan, np_hit_ms plan, order, ?codes, np_fever plan) ?edges (map int lane_ids) denom duration check
      = ((REPLAY_OK, - 1, - 1), invert_order order, np_fever plan)"
    using kernel ok by simp
  moreover have "length (np_hit_ms plan) = length (np_delta plan)" "length order = length (np_delta plan)"
      "length ?codes = length (np_delta plan)" "length (np_fever plan) = length (np_delta plan)"
      "length (map int lane_ids) = length (np_delta plan)" "length ?edges = length (np_delta plan)"
    using len by simp_all
  ultimately have "(\<forall>i < n. judgment_code (np_delta plan ! i) (?edges ! i) = ?codes ! i)
      \<and> sorted (map ((!) (map2 add64 (np_hit_ms plan) (np_delta plan))) (invert_order order))
      \<and> map ((!) (np_fever plan)) (invert_order order) = play_sections (div64 1 denom) (div64 1 (mul64 2 denom)) duration
          (events_in (map2 add64 (np_hit_ms plan) (np_delta plan)) ?codes (invert_order order))
      \<and> (check \<longrightarrow> (\<forall>pos < min n 100. ?codes ! (invert_order order ! pos) = ?codes ! pos
          \<and> np_fever plan ! (invert_order order ! pos) = np_fever plan ! pos))"
    using replay_accepts_iff [of "np_hit_ms plan" "np_delta plan" order ?codes "np_fever plan" "map int lane_ids" ?edges
        denom duration check] len(1) by simp
  then have accepted: "\<forall>i < n. judgment_code (np_delta plan ! i) (?edges ! i) = ?codes ! i"
      "sorted (map ((!) (map2 add64 (np_hit_ms plan) (np_delta plan))) (invert_order order))"
      "map ((!) (np_fever plan)) (invert_order order) = play_sections (div64 1 denom) (div64 1 (mul64 2 denom)) duration
          (events_in (map2 add64 (np_hit_ms plan) (np_delta plan)) ?codes (invert_order order))"
      "check \<Longrightarrow> pos < min n 100 \<Longrightarrow> ?codes ! (invert_order order ! pos) = ?codes ! pos
          \<and> np_fever plan ! (invert_order order ! pos) = np_fever plan ! pos"
    by blast+
  show codes: "game_codes plan types stat = ?codes"
    unfolding game_codes_def by (rule nth_equalityI) (use accepted(1) len in simp_all)
  show "sorted (map ((!) (map2 add64 (np_hit_ms plan) (np_delta plan))) (pr_event_order r))"
    using accepted(2) ok(3) by simp
  show "map ((!) (np_fever plan)) (pr_event_order r)
      = play_sections (div64 1 denom) (div64 1 (mul64 2 denom)) duration (game_events plan types stat (pr_event_order r))"
    unfolding game_events_def codes ok(3) by (rule accepted(3))
  show "check \<Longrightarrow> pos < min n 100 \<Longrightarrow> ?codes ! (pr_event_order r ! pos) = ?codes ! pos
        \<and> np_fever plan ! (pr_event_order r ! pos) = np_fever plan ! pos"
    unfolding ok(3) by (rule accepted(4))
qed

lemma validated_force_greats_parts:
  assumes "validate_force_greats_physical_replay sections surface ts types lane_ids denom duration mode stat = Some (Inr r)"
  obtains plan where "force_greats_plan sections (length types) ts types lane_ids mode stat = Some (Inr plan)"
    and "reconcile_force_greats_plan plan (fever_words surface) (great_words surface)
      (body_fever surface) (body_great surface) (body_fever_great surface) = Inr ()"
    and "replay_plan_of plan types lane_ids denom duration stat True = Inr r"
  using assms unfolding validate_force_greats_physical_replay_def by (auto simp: bind_res_eq_Inr)

lemma validated_play:
  assumes "validate_force_greats_physical_replay sections surface ts types lane_ids denom duration mode stat = Some (Inr r)"
  shows "\<exists>plan. force_greats_plan sections (length types) ts types lane_ids mode stat = Some (Inr plan)
    \<and> distinct (pr_event_order r) \<and> set (pr_event_order r) = {..<length types}
    \<and> sorted (map fst (game_events plan types stat (pr_event_order r)))
    \<and> game_codes plan types stat = map (\<lambda>great. if great then GREAT_CODE else PERFECT_CODE) (np_great plan)
    \<and> fg_surface_score f surface (length types) = Inr (game_score f denom duration (game_events plan types stat (pr_event_order r)))"
proof -
  define order where "order = pr_event_order r"
  let ?n = "length types"
  obtain plan where plan: "force_greats_plan sections ?n ts types lane_ids mode stat = Some (Inr plan)"
    and reconciled: "reconcile_force_greats_plan plan (fever_words surface) (great_words surface)
      (body_fever surface) (body_great surface) (body_fever_great surface) = Inr ()"
    and run: "replay_plan_of plan types lane_ids denom duration stat True = Inr r"
    using validated_force_greats_parts [OF assms(1)] .
  have wf: "wf_plan ?n lane_ids plan" using force_greats_plan_wf [OF plan] ..
  note replay = replayed [OF run wf, folded order_def]
  have order: "distinct order" "set order = {..<?n}" "length order = ?n"
    using invert_order_distinct invert_order_set invert_order_nth(1) wf_plan_permutation [OF wf] by (simp_all add: replay(1))
  have len: "length (np_fever plan) = ?n" "length (np_great plan) = ?n" using wf by (simp_all add: wf_plan_def)
  have great: "expected_codes plan ! i = GREAT_CODE \<longleftrightarrow> np_great plan ! i" if "i < ?n" for i
    using that len by (simp add: expected_codes_def judgment_codes)
  have note_at: "order ! i < ?n" if "i < ?n" for i using order nth_mem [of i order] that by simp
  let ?play = "zip (np_fever plan) (np_great plan)"
  have events: "map snd (game_events plan types stat order) = map ((!) (np_great plan)) order"
    using order(2) great by (simp add: game_events_def events_in_def replay(3))
  have "zip (map ((!) (np_fever plan)) order) (map ((!) (np_great plan)) order) = map ((!) ?play) order"
    by (rule nth_equalityI) (use len note_at in \<open>simp_all add: order(3)\<close>)
  then have game: "game_score f denom duration (game_events plan types stat order) = play_score f (map ((!) ?play) order)"
    unfolding game_score_def events replay(5) [symmetric] by simp
  have "?play ! (order ! pos) = ?play ! pos" if pos: "pos < min (length ?play) HEAD_NOTES" for pos
  proof -
    have "pos < min ?n 100" "pos < ?n" using pos len by (simp_all add: HEAD_NOTES_def COMBO_RAMP_NOTES_def)
    moreover from this have "order ! pos < ?n" by (intro note_at)
    ultimately show ?thesis using replay(6) [of pos] great [of pos] great [of "order ! pos"] len by simp
  qed
  then have "play_score f (map ((!) ?play) order) = play_score f ?play"
    by (intro reordered_play_score) (use order len in simp_all)
  then have "fg_surface_score f surface ?n = Inr (game_score f denom duration (game_events plan types stat order))"
    using reconciled_score [OF reconciled wf] game by simp
  moreover have "sorted (map fst (game_events plan types stat order))"
    using replay(4) by (simp add: game_events_def events_in_def comp_def)
  ultimately show ?thesis using plan order(1,2) replay(3) unfolding order_def by (auto simp: expected_codes_def)
qed

text \<open>C1: when a stored Force Greats trace is validated, its plan, hit as scheduled, is a legal play in the
  game's eyes and scores what its surface scores: the hits follow the replay's order without going
  back in time, every note is judged as the plan says, and the game's score of that play, with the
  fever bar those hits fill and the combo each hit has in that order, is the score of the surface.\<close>

theorem validated_force_greats_score:
  assumes "validate_force_greats_physical_replay sections surface ts types lane_ids denom duration mode stat = Some (Inr r)"
  defines "order \<equiv> pr_event_order r"
  shows "\<exists>plan. force_greats_plan sections (length types) ts types lane_ids mode stat = Some (Inr plan)
    \<and> distinct order \<and> set order = {..<length types}
    \<and> sorted (map fst (game_events plan types stat order))
    \<and> game_codes plan types stat = map (\<lambda>great. if great then GREAT_CODE else PERFECT_CODE) (np_great plan)
    \<and> fg_surface_score f surface (length types) = Inr (game_score f denom duration (game_events plan types stat order))"
  unfolding order_def by (rule validated_play [OF assms(1)])

section \<open>A validated trace\<close>

text \<open>A late Great, then the Perfect that fills the bar.\<close>

definition example_section :: trace_section where
  "example_section = \<lparr>sec_number = 1, sec_activation = 1, sec_fever_end = 2, sec_judgment = ''perfect'', sec_hit_offset_ms = 0,
     sec_cutoff_ms = 2100, sec_fever_duration_ms = 1000, sec_forced_start = 0, sec_run_start = 0, sec_run_count = 1,
     sec_early_start = - 1, sec_early_end = - 1, sec_preactivation = [0]\<rparr>"

definition great_then_fever :: fg_surface where
  "great_then_fever = \<lparr>fever0 = 2, fever1 = 0, fever2 = 0, fever3 = 0, great0 = 1, great1 = 0, great2 = 0, great3 = 0,
     body_fever = 0, body_great = 0, body_fever_great = 0\<rparr>"

definition tap_bands :: note_bands where
  "tap_bands = \<lparr>nb_perfect = (- 19, 40), nb_early_great = (- 94, - 20), nb_late_great = (41, 190)\<rparr>"

definition example_plan :: "f64 list \<Rightarrow> note_plan" where
  "example_plan deltas = \<lparr>np_hit_ms = [1000, 1100], np_delta = deltas, np_great = [True, False], np_fever = [False, True],
     np_activation_witness = [False, False], np_section = [1, 1], np_input_order = [0, 1], np_fever_ends = [(1, 2100)],
     np_is_tail = [False, False], np_lanes = [1, 2], np_bands = [tap_bands, tap_bands], np_precise = False\<rparr>"

abbreviation "example_ts \<equiv> [1, 2306867 / 2097152]"

lemma example_bands: "tap_and_tail_bands 0 False = tap_bands" by code_simp

lemma example_times: "chart_times_ms 2 example_ts = [1000, 1100]" by code_simp

definition example_start :: note_plan where
 "example_start = empty_plan [1000, 1100] [False, False] [1, 2] [tap_bands, tap_bands] False"

lemma example_new_plan: "new_plan 2 example_ts [1, 1] [1, 2] ''non-precise'' 0 = Inr example_start"
  by (simp add: new_plan_def example_times example_bands example_start_def TIMING_MODES_def NON_PRECISE_def PRECISE_def HELD_TAIL_TYPE_def)

lemma example_marked: "mark_forced_run example_section example_start = (example_plan [0, 0])\<lparr>np_fever_ends := []\<rparr>"
  by code_simp

lemma example_early: "early_greats ((example_plan [0, 0])\<lparr>np_fever_ends := []\<rparr>) [example_section] = [False, False]"
  by code_simp

lemma example_link: "link_section example_section ((example_plan [0, 0])\<lparr>np_fever_ends := []\<rparr>, [False, False], [])
   = (example_plan [0, 0], [False, False], [(0, 1)])"
  by code_simp

lemma example_merged: "merged_order (example_plan [0, 0]) [(0, 1)] [False, False] = Inr (example_plan [0, 0], [0, 1])"
  by code_simp


definition example_inputs :: inputs where
  "example_inputs = \<lparr>in_chart_ms = [1000, 1100], in_low_ms = [1041, 1100], in_high_ms = [1190, 1100],
    in_reach_ms = [0, 40], in_early_ms = [Some (906, 980), None], in_lane = [1, 2], in_tail = [False, False],
    in_great = [True, False], in_fever = [False, True]\<rparr>"

lemma example_plan_inputs: "plan_inputs (example_plan [0, 0]) [0, 1] [example_section] [False, False] = example_inputs"
  by code_simp

lemma example_windows: "plan_windows (example_plan [0, 0]) [example_section] = [(1, 2, 1000)]"
  by code_simp

lemma example_links: "links_of example_inputs [(1, 2, 1000)] = two_links"
  by code_simp
lemma example_picked: "pick_bands two_links example_inputs FRAME_MARGIN_MS = ([1041, 1100], [1190, 1100])"
  by code_simp

lemma example_first: "earliest_hits two_links [FASTEST_FRAME_MS] [1041, 1100] [1190, 1140] = Some (None, ([1041, 1100], [- 1, - 1]))"
  by code_simp

lemma example_fit: "fitting_bands two_links example_inputs = Some (None, ([1041, 1100], [1190, 1100]), [1041, 1100])"
proof -
  have "map first_margin (link_fixed two_links) = [FASTEST_FRAME_MS]" "map2 add64 [1190, 1100] (in_reach_ms example_inputs) = [1190, 1140]"
    by code_simp+
  then show ?thesis by (simp only: fitting_bands_def Let_def example_picked prod.case example_first) simp
qed

lemma example_ceil:
  "max (sub64 1190 FRAME_MARGIN_MS) 1041 = 5155976526517589 / 4398046511104"
  "max (sub64 1100 FRAME_MARGIN_MS) 1100 = 1100"
  by code_simp+

lemma example_earliest: "earliest_hits two_links [FRAME_MARGIN_MS] [1041, 1100] [5155976526517589 / 4398046511104, 1100]
    = Some (None, ([1041, 1100], [- 1, - 1]))"
  by code_simp

lemma example_settled: "settle_margins two_links [1041, 1100] [1190, 1100] [FRAME_MARGIN_MS] [5155976526517589 / 4398046511104, 1100]
  = Some (Inr (None, [FRAME_MARGIN_MS], [5155976526517589 / 4398046511104, 1100]))"
  by (simp add: settle_margins_def example_earliest)

lemma example_latest: "latest_loop two_links [FRAME_MARGIN_MS] [5155976526517589 / 4398046511104, 1100]
    = Some [4760152340518229 / 4398046511104, 1100]"
  by code_simp

lemma example_picks: "pick_activations two_links example_inputs [FRAME_MARGIN_MS] [(1, False)]
    ([1041, 1100], [5155976526517589 / 4398046511104, 1100])
  = Some ([1041, 1100], [5155976526517589 / 4398046511104, 1100])"
  by (simp add: example_earliest example_latest example_inputs_def)

lemma example_at:
  "hit_at two_links example_inputs [FRAME_MARGIN_MS] [1041, 1100] [4760152340518229 / 4398046511104, 1100] 0 [] = [1041]"
  "hit_at two_links example_inputs [FRAME_MARGIN_MS] [1041, 1100] [4760152340518229 / 4398046511104, 1100] (Suc 0) [1041] = [1041, 1100]"
  by code_simp+

lemma example_hits: "hits_of two_links example_inputs [1041, 1100] [FRAME_MARGIN_MS] [5155976526517589 / 4398046511104, 1100] [(1, False)]
    = Some [1041, 1100]"
  by (simp only: hits_of_def example_picks option.case prod.case example_latest) (simp add: example_at upt_rec)

lemma example_apart: "unseparated two_links [1041, 1100] = None"
  by (simp add: two_links_def unseparated_def)

lemma example_schedule: "schedule_hits example_inputs [(1, 2, 1000)] [False] = Some (Inr (None, [1041, 1100]))"
  unfolding schedule_hits_def Let_def example_links
  by (simp add: example_fit example_ceil example_settled example_hits [unfolded One_nat_def] example_apart two_taps_apart(1))

lemma example_unmoved: "(np_precise (example_plan [0, 0]) \<and> moved_activation example_section) = False"
  by (simp add: example_plan_def)

lemma example_scheduled:
  "schedule_plan (example_plan [0, 0]) [0, 1] [example_section] [False, False] = Some (Inr (example_plan [41, 0]))"
proof -
  have "activations_in (example_plan [0, 0]) [example_section]" by code_simp
  moreover have "(example_plan [0, 0])\<lparr>np_delta := scatter [0, 1] (map2 sub64 [1041, 1100] (in_chart_ms example_inputs))
      (np_delta (example_plan [0, 0]))\<rparr> = example_plan [41, 0]" by code_simp
  ultimately show ?thesis
    unfolding schedule_plan_def Let_def example_plan_inputs example_windows
    by (simp only: list.map example_unmoved example_schedule option.map bind_res_simps prod.case) (simp add: example_plan_def)
qed

lemma example_force_greats: "force_greats_plan [example_section] 2 example_ts [1, 1] [1, 2] ''non-precise'' 0
    = Some (Inr (example_plan [41, 0]))"
proof -
  have "activations_in example_start [example_section]" "\<not> np_precise (example_plan [0, 0])" by code_simp+
  then show ?thesis
    unfolding force_greats_plan_def example_new_plan
    by (simp add: Let_def example_marked example_early example_link example_merged example_scheduled del: One_nat_def)
qed

lemma example_validated:
  "validate_force_greats_physical_replay [example_section] great_then_fever example_ts [1, 1] [1, 2] (3 / 2) 1 ''non-precise'' 0
    = Some (Inr \<lparr>pr_event_order = [0, 1], pr_fever_mask = [False, True]\<rparr>)"
proof -
  have "replay_plan_of (example_plan [41, 0]) [1, 1] [1, 2] (3 / 2) 1 0 True = Inr \<lparr>pr_event_order = [0, 1], pr_fever_mask = [False, True]\<rparr>"
    by code_simp
  moreover have "reconcile_force_greats_plan (example_plan [41, 0]) (fever_words great_then_fever) (great_words great_then_fever)
      (body_fever great_then_fever) (body_great great_then_fever) (body_fever_great great_then_fever) = Inr ()"
    by code_simp
  ultimately show ?thesis
    unfolding validate_force_greats_physical_replay_def
    by (simp add: example_force_greats numeral_2_eq_2 [symmetric] del: One_nat_def)
qed

lemma validated_force_greats_score_witness:
  "fg_surface_score example_factors great_then_fever 2
     = Inr (game_score example_factors (3 / 2) 1 (game_events (example_plan [41, 0]) [1, 1] 0 [0, 1]))"
  using validated_force_greats_score [OF example_validated, of example_factors]
  by (simp add: example_force_greats numeral_2_eq_2 [symmetric] del: One_nat_def)

lemma plans_input_every_note_once_witness:
  "wf_plan 2 [1, 2] (example_plan [41, 0])
    \<and> lane_error (map int [1, 2]) (invert_order (map int (np_input_order (example_plan [41, 0])))) = None"
  using plans_input_every_note_once [OF disjI2 [OF example_force_greats]] by blast

end
