(* ===== verification/Rescore.thy ===== *)
theory Rescore
  imports TraceSearch PhysicalReplay FeverTimeline Chart
begin

text \<open>
  solver/scoring/fg_policy.py and solver/scoring/exact_rescore.py: a timed song as the Force Greats solver sees
  it, and the exact scores of stat rows on a song: on its Perfect-window timing frontier, at its hit times, and
  of a solved Force Greats surface. A timing frontier's payload and its cache key come from the frontier cache
  (files) and are arguments here; the memo of validated base traces is a dictionary passed through.
\<close>

section \<open>Results of loops that may not end\<close>

definition run_res :: "'a res option \<Rightarrow> ('a \<Rightarrow> 'b res option) \<Rightarrow> 'b res option" where
  "run_res m k = Option.bind m (\<lambda>r. case r of Inl e \<Rightarrow> Some (Inl e) | Inr x \<Rightarrow> k x)"

lemma run_res_simps [simp, res_simps]:
  "run_res None k = None" "run_res (Some (Inl e)) k = Some (Inl e)" "run_res (Some (Inr x)) k = k x"
  by (simp_all add: run_res_def)

lemma run_res_eq_Inr: "run_res m k = Some (Inr y) \<longleftrightarrow> (\<exists>x. m = Some (Inr x) \<and> k x = Some (Inr y))"
  by (cases m; cases "the m") (auto simp: run_res_def)

definition at_index :: "'a list \<Rightarrow> nat \<Rightarrow> 'a res" where
  "at_index xs i = (if i < length xs then Inr (xs ! i) else Inl IndexError)"

section \<open>The solver's view of a song\<close>

text \<open>A song timed for Precise has its envelopes (\<open>time_song\<close>).\<close>

definition fg_song_inputs_of :: "timed_song \<Rightarrow> fg_song_inputs" where
  "fg_song_inputs_of song =
     (let hits = hit_timestamps song; c = song_chart song
      in case (if song_mode song \<noteq> NON_PRECISE then song_envelopes song else None) of
           Some e \<Rightarrow>
             \<lparr>fi_timestamps = hits, fi_perfect = perfect_candidates e, fi_great = great_candidates e,
              fi_perfect_floor = perfect_floor e, fi_great_floor = great_floor e,
              fi_late_great_floor = Some (late_great_floor e), fi_exit_ceiling = Some (exit_ceiling e),
              fi_lanes = lanes c, fi_forced_great_timing = True\<rparr>
         | None \<Rightarrow>
             \<lparr>fi_timestamps = hits, fi_perfect = hits, fi_great = hits, fi_perfect_floor = hits, fi_great_floor = hits,
              fi_late_great_floor = None, fi_exit_ceiling = None, fi_lanes = lanes c, fi_forced_great_timing = False\<rparr>)"

text \<open>A section of a trace as the note plans read it (trace/note_graph.py).\<close>

definition trace_section_of :: "stored_section \<times> nat \<Rightarrow> trace_section" where
  "trace_section_of = (\<lambda>(x, number).
     \<lparr>sec_number = int number, sec_activation = st_activation x, sec_fever_end = st_fever_end x,
      sec_judgment = st_judgment x, sec_hit_offset_ms = st_hit_offset_ms x, sec_cutoff_ms = st_fever_window_end_ms x,
      sec_fever_duration_ms = st_fever_duration_ms x, sec_forced_start = st_forced_start x,
      sec_run_start = st_run_start x, sec_run_count = st_run_count x, sec_early_start = st_early_start x,
      sec_early_end = st_early_end x, sec_preactivation = st_preactivation_order x\<rparr>)"

section \<open>Scores on the timing frontier\<close>

definition stats_row :: "stats \<Rightarrow> stats" where
  "stats_row stats = map (\<lambda>stat. (stat, get_or stats stat 0)) STATS"

definition song_colors :: "timed_song \<Rightarrow> (string \<times> string) res" where
  "song_colors song = bind_res (chart_primary (song_chart song)) (\<lambda>primary.
     bind_res (chart_secondary (song_chart song)) (\<lambda>secondary. Inr (primary, secondary)))"

text \<open>The best score over the row's cell and the winning surface's place in the pool.\<close>

definition frontier_best_score :: "timeline_payload \<Rightarrow> stat_curves \<Rightarrow> string \<Rightarrow> string \<Rightarrow> stats \<Rightarrow> nat \<Rightarrow> (int \<times> int) res" where
  "frontier_best_score payload curves primary secondary stats note_count =
     bind_res (factors_of stats curves primary secondary) (\<lambda>f.
     bind_res (timeline_cell_of payload (fever_time_row f) (fever_fill_row f) MAX_STAT) (\<lambda>(cell, offset).
     bind_res (best_timeline_score f cell note_count) (\<lambda>(best, index). Inr (best, offset + int index))))"

definition score_stats_exact_batch :: "timeline_payload \<Rightarrow> stats list \<Rightarrow> timed_song \<Rightarrow> stat_curves \<Rightarrow> int list res" where
  "score_stats_exact_batch payload rows song curves =
     (if rows = [] then Inr []
      else bind_res (song_colors song) (\<lambda>(primary, secondary).
        map_res (\<lambda>stats. bind_res (frontier_best_score payload curves primary secondary (stats_row stats)
            (total_notes (song_chart song))) (\<lambda>(best, index). Inr best)) rows))"

section \<open>Scores at fixed hit times\<close>

text \<open>The cells of the (Fever Time, Fever Fill) rows seen so far are kept.\<close>

fun timing_scores :: "f32 list \<Rightarrow> f64 list \<Rightarrow> f64 list \<Rightarrow> stat_curves \<Rightarrow> string \<Rightarrow> string \<Rightarrow>
    (int \<times> int, timeline_cell) dict \<Rightarrow> stats list \<Rightarrow> int list res option" where
  "timing_scores hits durations thresholds curves primary secondary cells [] = Some (Inr [])"
| "timing_scores hits durations thresholds curves primary secondary cells (stats # rows) =
     run_res (Some (factors_of (stats_row stats) curves primary secondary)) (\<lambda>f.
       let key = (clamp 0 MAX_STAT (fever_time_row f), clamp 0 MAX_STAT (fever_fill_row f))
       in run_res (case map_of cells key of
              Some cell \<Rightarrow> Some (Inr (cell, cells))
            | None \<Rightarrow>
                run_res (Some (at_index thresholds (nat (snd key)))) (\<lambda>threshold.
                run_res (Some (at_index durations (nat (fst key)))) (\<lambda>duration.
                run_res (fixed_timeline_cell hits \<lceil>threshold\<rceil> duration) (\<lambda>cell.
                  Some (Inr (cell, AList.update key cell cells))))))
          (\<lambda>(cell, cells').
             run_res (Some (best_timeline_score f cell (length hits))) (\<lambda>(best, index).
             run_res (timing_scores hits durations thresholds curves primary secondary cells' rows) (\<lambda>scores.
               Some (Inr (best # scores))))))"

definition score_stats_timing_exact_batch :: "stats list \<Rightarrow> timed_song \<Rightarrow> stat_curves \<Rightarrow> f64 list \<Rightarrow> int list res option" where
  "score_stats_timing_exact_batch rows song curves hit_times =
     (if rows = [] then Some (Inr [])
      else let c = song_chart song; hits = map r32 hit_times
      in if length hits \<noteq> length (timestamps c) \<or> \<not> sorted hits then Some (Inl ValueError)
         else run_res (fever_axes (int (total_notes c)) (long_notes c) (last_note_time c) curves) (\<lambda>(durations, thresholds).
              run_res (Some (song_colors song)) (\<lambda>(primary, secondary).
                timing_scores hits durations thresholds curves primary secondary [] rows)))"

definition score_stats_fixed_timing_exact_batch :: "stats list \<Rightarrow> timed_song \<Rightarrow> stat_curves \<Rightarrow> int list res option" where
  "score_stats_fixed_timing_exact_batch rows song curves =
     score_stats_timing_exact_batch rows song curves (hit_timestamps song)"

definition score_base_exact_batch :: "timeline_payload \<Rightarrow> stats list \<Rightarrow> timed_song \<Rightarrow> stat_curves \<Rightarrow> int list res option" where
  "score_base_exact_batch payload rows song curves =
     (if song_mode song = NON_PRECISE then score_stats_fixed_timing_exact_batch rows song curves
      else Some (score_stats_exact_batch payload rows song curves))"

section \<open>The trace of a base score\<close>

record timeline_meta =
  tm_trace :: "(stored_section \<times> nat) list"
  tm_surface :: "int list"
  tm_pool_index :: int
  tm_raw_fever_fill :: f64
  tm_fever_duration_ms :: f64

definition timeline_trace_for_payload_surface ::
    "timeline_payload \<Rightarrow> int \<Rightarrow> nat \<Rightarrow> nat \<Rightarrow> timed_song \<Rightarrow> stat_curves \<Rightarrow> int \<Rightarrow> timeline_meta res option" where
  "timeline_trace_for_payload_surface payload pool_idx ft_idx ff_idx song curves perfect_stat =
     (if pool_idx < 0 \<or> pool_idx \<ge> frontier_pool_used payload then Some (Inl ValueError)
      else
        run_res (Some (at_index (grid_frontier_body_fever_pool payload) (nat pool_idx))) (\<lambda>bf.
        run_res (Some (at_index (grid_frontier_body_normal_pool payload) (nat pool_idx))) (\<lambda>bn.
        run_res (Some (at_index (grid_frontier_masks_bits_pool payload) (nat pool_idx))) (\<lambda>mask.
        run_res (Some (map_res (at_index mask) [0..<4])) (\<lambda>bits.
        let ws = map uint bits; c = song_chart song
        in run_res (fever_axes (int (total_notes c)) (long_notes c) (last_note_time c) curves) (\<lambda>(durations, thresholds).
           run_res (Some (at_index thresholds ff_idx)) (\<lambda>raw_fever_fill.
           run_res (Some (lookup (curve_f64 curves) ''Fever Fill Rate'')) (\<lambda>bases.
           run_res (Some (at_index (fever_fill_denominators (int (total_notes c) - long_notes c) bases) ff_idx)) (\<lambda>denom.
           run_res (Some (at_index durations ft_idx)) (\<lambda>real_fever_time.
           run_res (reconstruct_base_trace (fg_song_inputs_of song) ws bf raw_fever_fill real_fever_time) (\<lambda>trace.
           run_res (validate_base_physical_replay (map trace_section_of trace) (ws @ [bf, bn]) (timestamps c) (note_types c)
                      (map nat (lanes c)) denom (mul64 real_fever_time 1000) (song_mode song) perfect_stat) (\<lambda>_.
             Some (Inr \<lparr>tm_trace = trace, tm_surface = ws @ [bf, bn], tm_pool_index = pool_idx,
                        tm_raw_fever_fill = denom, tm_fever_duration_ms = mul64 real_fever_time 1000\<rparr>)))))))))))))"

definition TIMELINE_TRACE_MEMO_MAX :: nat where "TIMELINE_TRACE_MEMO_MAX = 1024"

type_synonym trace_memo = "(string \<times> int \<times> int \<times> int \<times> int, timeline_meta) dict"

text \<open>The oldest entries go until there is room, then the new one is written.\<close>

definition remember_trace :: "string \<times> int \<times> int \<times> int \<times> int \<Rightarrow> timeline_meta \<Rightarrow> trace_memo \<Rightarrow> trace_memo" where
  "remember_trace key meta memo =
     AList.update key meta (drop (length memo - (TIMELINE_TRACE_MEMO_MAX - 1)) memo)"

definition score_stats_exact_with_timeline_trace ::
    "string \<Rightarrow> timeline_payload \<Rightarrow> stats \<Rightarrow> timed_song \<Rightarrow> stat_curves \<Rightarrow> int \<Rightarrow> trace_memo \<Rightarrow>
     ((int \<times> timeline_meta) \<times> trace_memo) res option" where
  "score_stats_exact_with_timeline_trace cache_key payload stats song curves perfect_stat memo =
     run_res (Some (song_colors song)) (\<lambda>(primary, secondary).
       let row = stats_row stats
       in run_res (Some (frontier_best_score payload curves primary secondary row (total_notes (song_chart song)))) (\<lambda>(best, pool_idx).
          let ft = clamp 0 MAX_STAT (get_or row ''Fever Time'' 0); ff = clamp 0 MAX_STAT (get_or row ''Fever Fill Rate'' 0);
              key = (cache_key, ft, ff, pool_idx, perfect_stat)
          in case map_of memo key of
               Some meta \<Rightarrow> Some (Inr ((best, meta), memo))
             | None \<Rightarrow>
                 run_res (timeline_trace_for_payload_surface payload pool_idx (nat ft) (nat ff) song curves perfect_stat) (\<lambda>meta.
                   Some (Inr ((best, meta), remember_trace key meta memo)))))"

section \<open>The score of a Force Greats surface\<close>

definition score_force_greats_response_surface_exact :: "stats \<Rightarrow> timed_song \<Rightarrow> stat_curves \<Rightarrow> fg_surface \<Rightarrow> int res" where
  "score_force_greats_response_surface_exact stats song curves surface =
     (if stats = [] then Inl ValueError
      else bind_res (song_colors song) (\<lambda>(primary, secondary).
           bind_res (factors_of (stats_row stats) curves primary secondary) (\<lambda>f.
             fg_surface_score f surface (total_notes (song_chart song)))))"


section \<open>The memo of cells changes nothing\<close>

text \<open>A kept cell is the one its key's axes give.\<close>

definition cells_ok :: "f32 list \<Rightarrow> f64 list \<Rightarrow> f64 list \<Rightarrow> (int \<times> int, timeline_cell) dict \<Rightarrow> bool" where
  "cells_ok hits durations thresholds cells \<longleftrightarrow>
     (\<forall>key cell. map_of cells key = Some cell \<longrightarrow> nat (fst key) < length durations \<and> nat (snd key) < length thresholds
        \<and> fixed_timeline_cell hits \<lceil>thresholds ! nat (snd key)\<rceil> (durations ! nat (fst key)) = Some (Inr cell))"

lemma at_index_eq_Inr: "at_index xs i = Inr x \<longleftrightarrow> i < length xs \<and> x = xs ! i"
  by (auto simp: at_index_def)

definition axis_row :: "int \<Rightarrow> nat" where "axis_row v = nat (clamp 0 MAX_STAT v)"

lemma timing_scores_rows:
  assumes "timing_scores hits durations thresholds curves primary secondary cells rows = Some (Inr scores)"
    and "cells_ok hits durations thresholds cells"
  shows "list_all2 (\<lambda>stats score. \<exists>f cell index. factors_of (stats_row stats) curves primary secondary = Inr f
      \<and> axis_row (fever_time_row f) < length durations \<and> axis_row (fever_fill_row f) < length thresholds
      \<and> fixed_timeline_cell hits \<lceil>thresholds ! axis_row (fever_fill_row f)\<rceil> (durations ! axis_row (fever_time_row f))
          = Some (Inr cell)
      \<and> best_timeline_score f cell (length hits) = Inr (score, index)) rows scores"
  using assms
proof (induction rows arbitrary: cells scores)
  case (Cons stats rows)
  obtain f where f: "factors_of (stats_row stats) curves primary secondary = Inr f"
    using Cons.prems(1) by (cases "factors_of (stats_row stats) curves primary secondary") auto
  let ?key = "(clamp 0 MAX_STAT (fever_time_row f), clamp 0 MAX_STAT (fever_fill_row f))"
  obtain cell cells' where cell: "(case map_of cells ?key of
              Some cell \<Rightarrow> Some (Inr (cell, cells))
            | None \<Rightarrow>
                run_res (Some (at_index thresholds (nat (snd ?key)))) (\<lambda>threshold.
                run_res (Some (at_index durations (nat (fst ?key)))) (\<lambda>duration.
                run_res (fixed_timeline_cell hits \<lceil>threshold\<rceil> duration) (\<lambda>cell.
                  Some (Inr (cell, AList.update ?key cell cells)))))) = Some (Inr (cell, cells'))"
    and rest: "run_res (Some (best_timeline_score f cell (length hits))) (\<lambda>(best, index).
             run_res (timing_scores hits durations thresholds curves primary secondary cells' rows) (\<lambda>scores.
               Some (Inr (best # scores)))) = Some (Inr scores)"
    using Cons.prems(1) by (auto simp: f Let_def run_res_eq_Inr)
  have ok: "cells_ok hits durations thresholds cells'"
    and here: "nat (fst ?key) < length durations \<and> nat (snd ?key) < length thresholds
        \<and> fixed_timeline_cell hits \<lceil>thresholds ! nat (snd ?key)\<rceil> (durations ! nat (fst ?key)) = Some (Inr cell)"
    using cell Cons.prems(2) unfolding cells_ok_def
    by (auto simp: run_res_eq_Inr at_index_eq_Inr split: option.splits if_splits)
  obtain best index scores' where best: "best_timeline_score f cell (length hits) = Inr (best, index)"
      "timing_scores hits durations thresholds curves primary secondary cells' rows = Some (Inr scores')"
      "scores = best # scores'"
    using rest by (auto simp: run_res_eq_Inr)
  show ?case
    unfolding best(3) using Cons.IH [OF best(2) ok] f here best(1) by (auto simp: axis_row_def)
qed simp

text \<open>C40: rescoring a batch at fixed hit times, whatever rows share a cell: every score is the note-by-note
  score of the walked fever bar at the row's own fever duration and fill.\<close>

theorem timing_scores_walk:
  assumes "timing_scores hits durations thresholds curves primary secondary [] rows = Some (Inr scores)"
    and "i < length rows" "factors_of (stats_row (rows ! i)) curves primary secondary = Inr f" "length (f_ramp f) = HEAD_NOTES"
    and "playable hits (durations ! axis_row (fever_time_row f))" "2 \<le> \<lceil>thresholds ! axis_row (fever_fill_row f)\<rceil>"
  shows "length scores = length rows \<and> scores ! i = play_score f (map (\<lambda>b. (b, False))
      (bar_walk (nat \<lceil>thresholds ! axis_row (fever_fill_row f)\<rceil>) (durations ! axis_row (fever_time_row f)) (Filling 0) hits))"
proof -
  have "cells_ok hits durations thresholds []" by (simp add: cells_ok_def)
  note all = timing_scores_rows [OF assms(1) this]
  then have len: "length scores = length rows" by (simp add: list_all2_lengthD)
  obtain cell index where cell: "fixed_timeline_cell hits \<lceil>thresholds ! axis_row (fever_fill_row f)\<rceil>
        (durations ! axis_row (fever_time_row f)) = Some (Inr cell)"
      "best_timeline_score f cell (length hits) = Inr (scores ! i, index)"
    using list_all2_nthD [OF all assms(2)] assms(3) by auto
  have "int (nat \<lceil>thresholds ! axis_row (fever_fill_row f)\<rceil>) = \<lceil>thresholds ! axis_row (fever_fill_row f)\<rceil>"
    "2 \<le> nat \<lceil>thresholds ! axis_row (fever_fill_row f)\<rceil>" using assms(6) nat_mono [OF assms(6)] by simp_all
  then show ?thesis using fixed_cell_score [OF assms(5) _ assms(4)] cell len by fastforce
qed

declare fever_loop.simps [code]

lemma timing_scores_walk_witness:
  "timing_scores [0, 1, 2, 3] (replicate 161 (3 / 2)) (replicate 161 2) example_curves ''Chill'' ''Flow'' []
     [example_stats, example_stats] = Some (Inr [6450, 6450])
   \<and> (6450 :: int) = play_score example_factors (map (\<lambda>b. (b, False)) (bar_walk 2 (3 / 2) (Filling 0) [0, 1, 2, 3]))"
proof -
  have run: "timing_scores [0, 1, 2, 3] (replicate 161 (3 / 2)) (replicate 161 2) example_curves ''Chill'' ''Flow'' []
     [example_stats, example_stats] = Some (Inr [6450, 6450])" by code_simp
  have f: "factors_of (stats_row ([example_stats, example_stats] ! 1)) example_curves ''Chill'' ''Flow'' = Inr example_factors"
    by code_simp
  have row: "replicate 161 (3 / 2) ! axis_row (fever_time_row example_factors) = (3 / 2 :: rat)"
    "replicate 161 2 ! axis_row (fever_fill_row example_factors) = (2 :: rat)" by code_simp+
  have "playable [0, 1, 2, 3] (3 / 2)" by code_simp
  moreover have "length (f_ramp example_factors) = HEAD_NOTES"
    by (simp add: example_factors_def HEAD_NOTES_def COMBO_RAMP_NOTES_def)
  ultimately show ?thesis using timing_scores_walk [OF run _ f] run by (simp add: row)
qed

section \<open>The memo of traces changes nothing\<close>

definition trace_memo_ok :: "string \<Rightarrow> timeline_payload \<Rightarrow> timed_song \<Rightarrow> stat_curves \<Rightarrow> trace_memo \<Rightarrow> bool" where
  "trace_memo_ok cache_key payload song curves memo \<longleftrightarrow> wf_dict memo \<and> length memo \<le> TIMELINE_TRACE_MEMO_MAX
     \<and> (\<forall>ft ff pool_idx perfect_stat meta. map_of memo (cache_key, ft, ff, pool_idx, perfect_stat) = Some meta \<longrightarrow>
          timeline_trace_for_payload_surface payload pool_idx (nat ft) (nat ff) song curves perfect_stat = Some (Inr meta))"

lemma map_of_drop: "wf_dict m \<Longrightarrow> map_of (drop k m) x = Some y \<Longrightarrow> map_of m x = Some y"
  unfolding wf_dict_def by (metis distinct_map drop_map distinct_drop in_set_dropD map_of_SomeD map_of_eq_Some_iff)

lemma length_update_le: "length (AList.update k v m) \<le> length m + 1"
  by (induction m) auto

lemma remember_trace_ok:
  assumes "trace_memo_ok cache_key payload song curves memo"
    and "timeline_trace_for_payload_surface payload pool_idx (nat ft) (nat ff) song curves perfect_stat = Some (Inr meta)"
  shows "trace_memo_ok cache_key payload song curves (remember_trace (cache_key, ft, ff, pool_idx, perfect_stat) meta memo)"
proof -
  let ?kept = "drop (length memo - (TIMELINE_TRACE_MEMO_MAX - 1)) memo"
  have wf: "wf_dict memo" using assms(1) by (simp add: trace_memo_ok_def)
  then have "wf_dict ?kept" by (simp add: wf_dict_def distinct_drop flip: drop_map)
  moreover have "length ?kept \<le> TIMELINE_TRACE_MEMO_MAX - 1" by simp
  then have "length (AList.update (cache_key, ft, ff, pool_idx, perfect_stat) meta ?kept) \<le> TIMELINE_TRACE_MEMO_MAX"
    using length_update_le [of "(cache_key, ft, ff, pool_idx, perfect_stat)" meta ?kept]
    by (simp add: TIMELINE_TRACE_MEMO_MAX_def)
  ultimately show ?thesis
    using assms map_of_drop [OF wf] unfolding trace_memo_ok_def remember_trace_def
    by (auto simp del: length_drop split: if_splits)
qed

lemma trace_memo_transparent:
  assumes "score_stats_exact_with_timeline_trace cache_key payload stats song curves perfect_stat memo
      = Some (Inr ((best, meta), memo'))"
    and "trace_memo_ok cache_key payload song curves memo"
  shows "trace_memo_ok cache_key payload song curves memo'
    \<and> (\<exists>primary secondary pool_idx. song_colors song = Inr (primary, secondary)
        \<and> frontier_best_score payload curves primary secondary (stats_row stats) (total_notes (song_chart song))
            = Inr (best, pool_idx)
        \<and> timeline_trace_for_payload_surface payload pool_idx (axis_row (get_or (stats_row stats) ''Fever Time'' 0))
            (axis_row (get_or (stats_row stats) ''Fever Fill Rate'' 0)) song curves perfect_stat = Some (Inr meta))"
proof -
  obtain primary secondary where colors: "song_colors song = Inr (primary, secondary)"
    using assms(1) by (auto simp: score_stats_exact_with_timeline_trace_def run_res_eq_Inr)
  let ?ft = "clamp 0 MAX_STAT (get_or (stats_row stats) ''Fever Time'' 0)"
  let ?ff = "clamp 0 MAX_STAT (get_or (stats_row stats) ''Fever Fill Rate'' 0)"
  let ?best = "frontier_best_score payload curves primary secondary (stats_row stats) (total_notes (song_chart song))"
  obtain b where b: "?best = Inr b"
    using assms(1) by (cases ?best) (simp_all add: score_stats_exact_with_timeline_trace_def colors Let_def)
  obtain value' pool_idx where bp: "b = (value', pool_idx)" by (cases b)
  let ?key = "(cache_key, ?ft, ?ff, pool_idx, perfect_stat)"
  have memo: "(case map_of memo ?key of
               Some meta \<Rightarrow> Some (Inr ((value', meta), memo))
             | None \<Rightarrow>
                 run_res (timeline_trace_for_payload_surface payload pool_idx (nat ?ft) (nat ?ff) song curves perfect_stat) (\<lambda>meta.
                   Some (Inr ((value', meta), remember_trace ?key meta memo)))) = Some (Inr ((best, meta), memo'))"
    using assms(1)
    by (simp only: score_stats_exact_with_timeline_trace_def colors Let_def run_res_simps prod.case b bp)
  have score: "?best = Inr (best, pool_idx)"
    using memo b bp by (cases "map_of memo ?key") (auto simp: run_res_eq_Inr)
  have "timeline_trace_for_payload_surface payload pool_idx (nat ?ft) (nat ?ff) song curves perfect_stat = Some (Inr meta)
      \<and> trace_memo_ok cache_key payload song curves memo'"
  proof (cases "map_of memo (cache_key, ?ft, ?ff, pool_idx, perfect_stat)")
    case None
    then show ?thesis using memo remember_trace_ok [OF assms(2)] by (auto simp: run_res_eq_Inr)
  next
    case (Some m)
    then show ?thesis using memo assms(2) by (auto simp: trace_memo_ok_def)
  qed
  then show ?thesis using colors score unfolding axis_row_def by blast
qed

end
