(* ===== verification/Materialize.thy ===== *)
theory Materialize
  imports Rescore
begin

text \<open>
  trace/materialize.py with the solve result of frontier/types.py, and the replay loop of
  trace/fixed_timing.py: a solved Force Greats surface becomes a stored payload once its trace is found and
  validated. The cache of validated traces is one song's and is passed through; the cache of section tables
  holds pure results and is left out.
\<close>

section \<open>Solve results and payloads\<close>

record fg_solve_result =
  sr_best_score :: int
  sr_ft :: int
  sr_ff :: int
  sr_gem_counts :: "(string, int) dict"
  sr_stats :: stats
  sr_surface :: fg_surface
  sr_non_fever_base :: int
  sr_raw_fever_fill :: f64
  sr_real_fever_time :: f64

record force_payload =
  fp_base_stats :: stats
  fp_stats :: stats
  fp_base_score :: int
  fp_score :: int
  fp_element :: string
  fp_gem_counts :: "(string, int) dict"
  fp_ft :: int
  fp_ff :: int
  fp_surface :: fg_surface
  fp_raw_fever_fill :: f64
  fp_real_fever_time :: f64
  fp_trace :: "(stored_section \<times> nat) list"
  fp_non_fever_base :: int

text \<open>\<open>xs[i]\<close> with Python's negative places.\<close>

definition py_index :: "'a list \<Rightarrow> int \<Rightarrow> 'a res" where
  "py_index xs i =
     (let j = (if i < 0 then i + int (length xs) else i)
      in if 0 \<le> j \<and> j < int (length xs) then Inr (xs ! nat j) else Inl IndexError)"

text \<open>What the trace cache's key holds: non-fever base, surface, fill denominator, fever time, forced-Great
  timing and Perfect Time.\<close>

type_synonym trace_key = "int \<times> fg_surface \<times> f64 \<times> f64 \<times> bool \<times> int"
type_synonym trace_cache = "(trace_key, (stored_section \<times> nat) list) dict"

definition game_fill_denominator :: "fg_solve_result \<Rightarrow> timed_song \<Rightarrow> stat_curves \<Rightarrow> f64 res" where
  "game_fill_denominator result song curves =
     (let c = song_chart song
      in bind_res (lookup (curve_f64 curves) ''Fever Fill Rate'') (\<lambda>bases.
         bind_res (lookup (sr_stats result) ''Fever Fill Rate'') (\<lambda>fill_stat.
         bind_res (py_index bases (min fill_stat MAX_STAT)) (\<lambda>fill_base.
           Inr (mul64 (r64 (of_int (int (total_notes c) - long_notes c))) fill_base)))))"

definition validated_trace ::
    "timed_song \<Rightarrow> (stored_section \<times> nat) list \<Rightarrow> fg_surface \<Rightarrow> f64 \<Rightarrow> f64 \<Rightarrow> int \<Rightarrow> physical_replay res option" where
  "validated_trace song trace surface denom real_fever_time perfect_stat =
     (let c = song_chart song
      in validate_force_greats_physical_replay (map trace_section_of trace) surface (hit_timestamps song) (note_types c)
           (map nat (lanes c)) denom real_fever_time (song_mode song) perfect_stat)"

definition materialize_force_payload ::
    "stats \<Rightarrow> int \<Rightarrow> string \<Rightarrow> fg_solve_result \<Rightarrow> timed_song \<Rightarrow> stat_curves \<Rightarrow> int \<Rightarrow> trace_cache \<Rightarrow>
     (force_payload \<times> trace_cache) res option" where
  "materialize_force_payload base_stats paired_base selected result song curves perfect_stat cache =
     (if paired_base \<le> 0 then Some (Inl ValueError)
      else run_res (Some (game_fill_denominator result song curves)) (\<lambda>denom.
        let inp = fg_song_inputs_of song; surface = sr_surface result;
            key = (sr_non_fever_base result, surface, denom, sr_real_fever_time result, fi_forced_great_timing inp, perfect_stat)
        in run_res
             (case map_of cache key of
                Some trace \<Rightarrow> Some (Inr (trace, cache))
              | None \<Rightarrow>
                  run_res (reconstruct_trace inp (sr_non_fever_base result) surface (sr_raw_fever_fill result)
                      (sr_real_fever_time result)) (\<lambda>trace.
                  run_res (validated_trace song trace surface denom (sr_real_fever_time result) perfect_stat) (\<lambda>_.
                    Some (Inr (trace, AList.update key trace cache)))))
             (\<lambda>(trace, cache').
                run_res (Some (score_force_greats_response_surface_exact (sr_stats result) song curves surface)) (\<lambda>score.
                  Some (Inr (\<lparr>fp_base_stats = base_stats, fp_stats = sr_stats result, fp_base_score = paired_base,
                      fp_score = score, fp_element = selected, fp_gem_counts = sr_gem_counts result, fp_ft = sr_ft result,
                      fp_ff = sr_ff result, fp_surface = surface, fp_raw_fever_fill = denom,
                      fp_real_fever_time = sr_real_fever_time result, fp_trace = trace,
                      fp_non_fever_base = sr_non_fever_base result\<rparr>, cache'))))))"

text \<open>The replays of a song's loadouts: a plan no hit timing plays has no Force Greats result. The payloads come
  in order; the zip of results, paired bases and Perfect Times is strict.\<close>

definition replay_force ::
    "timed_song \<Rightarrow> stat_curves \<Rightarrow> string \<Rightarrow> fg_solve_result \<Rightarrow> int \<Rightarrow> int \<Rightarrow> trace_cache \<Rightarrow>
     (force_payload option \<times> trace_cache) res option" where
  "replay_force song curves selected r b t cache =
     (case materialize_force_payload (sr_stats r) b selected r song curves t cache of
        Some (Inl UnplayableTrace) \<Rightarrow> Some (Inr (None, cache))
      | other \<Rightarrow> map_option (map_sum id (\<lambda>(p, cache'). (Some p, cache'))) other)"

fun force_replays ::
    "timed_song \<Rightarrow> stat_curves \<Rightarrow> string \<Rightarrow> fg_solve_result list \<Rightarrow> int list \<Rightarrow> int list \<Rightarrow> trace_cache \<Rightarrow>
     (force_payload option list \<times> trace_cache) res option" where
  "force_replays song curves selected (r # rs) (b # bs) (t # ts) cache =
     run_res (replay_force song curves selected r b t cache)
       (\<lambda>(force, cache').
          run_res (force_replays song curves selected rs bs ts cache') (\<lambda>(forces, cache''). Some (Inr (force # forces, cache''))))"
| "force_replays song curves selected [] [] [] cache = Some (Inr ([], cache))"
| "force_replays song curves selected _ _ _ cache = Some (Inl ValueError)"

section \<open>A payload's trace plays its surface\<close>

text \<open>Every kept trace was validated for its key.\<close>

definition trace_cache_ok :: "timed_song \<Rightarrow> trace_cache \<Rightarrow> bool" where
  "trace_cache_ok song cache \<longleftrightarrow>
     (\<forall>nfb surface denom fever_time forced perfect_stat trace.
        map_of cache (nfb, surface, denom, fever_time, forced, perfect_stat) = Some trace \<longrightarrow>
        (\<exists>r. validated_trace song trace surface denom fever_time perfect_stat = Some (Inr r)))"

lemma trace_cache_ok_empty: "trace_cache_ok song []"
  by (simp add: trace_cache_ok_def)

lemma materialized_parts:
  assumes "materialize_force_payload base_stats paired_base selected result song curves perfect_stat cache
      = Some (Inr (payload, cache'))"
    and "trace_cache_ok song cache"
  shows "trace_cache_ok song cache'"
    and "\<exists>r. validated_trace song (fp_trace payload) (fp_surface payload) (fp_raw_fever_fill payload)
          (fp_real_fever_time payload) perfect_stat = Some (Inr r)"
    and "score_force_greats_response_surface_exact (fp_stats payload) song curves (fp_surface payload) = Inr (fp_score payload)"
    and "game_fill_denominator result song curves = Inr (fp_raw_fever_fill payload)"
    and "fp_surface payload = sr_surface result \<and> fp_stats payload = sr_stats result"
proof -
  let ?inp = "fg_song_inputs_of song" and ?surface = "sr_surface result" and ?time = "sr_real_fever_time result"
  obtain denom where denom: "game_fill_denominator result song curves = Inr denom"
    using assms(1) by (cases "game_fill_denominator result song curves")
      (simp_all add: materialize_force_payload_def split: if_splits)
  let ?key = "(sr_non_fever_base result, ?surface, denom, ?time, fi_forced_great_timing ?inp, perfect_stat)"
  obtain trace kept where found: "(case map_of cache ?key of
                Some trace \<Rightarrow> Some (Inr (trace, cache))
              | None \<Rightarrow>
                  run_res (reconstruct_trace ?inp (sr_non_fever_base result) ?surface (sr_raw_fever_fill result) ?time) (\<lambda>trace.
                  run_res (validated_trace song trace ?surface denom ?time perfect_stat) (\<lambda>_.
                    Some (Inr (trace, AList.update ?key trace cache))))) = Some (Inr (trace, kept))"
    and rest: "run_res (Some (score_force_greats_response_surface_exact (sr_stats result) song curves ?surface)) (\<lambda>score.
                  Some (Inr (\<lparr>fp_base_stats = base_stats, fp_stats = sr_stats result, fp_base_score = paired_base,
                      fp_score = score, fp_element = selected, fp_gem_counts = sr_gem_counts result, fp_ft = sr_ft result,
                      fp_ff = sr_ff result, fp_surface = ?surface, fp_raw_fever_fill = denom,
                      fp_real_fever_time = ?time, fp_trace = trace,
                      fp_non_fever_base = sr_non_fever_base result\<rparr>, kept))) = Some (Inr (payload, cache'))"
    using assms(1) by (auto simp: materialize_force_payload_def denom Let_def run_res_eq_Inr split: if_splits)
  obtain score where score: "score_force_greats_response_surface_exact (sr_stats result) song curves ?surface = Inr score"
    using rest by (cases "score_force_greats_response_surface_exact (sr_stats result) song curves ?surface") simp_all
  have payload: "fp_trace payload = trace" "fp_surface payload = ?surface" "fp_raw_fever_fill payload = denom"
    "fp_real_fever_time payload = ?time" "fp_score payload = score" "fp_stats payload = sr_stats result" "cache' = kept"
    using rest unfolding score by auto
  have "(\<exists>r. validated_trace song trace ?surface denom ?time perfect_stat = Some (Inr r)) \<and> trace_cache_ok song kept"
  proof (cases "map_of cache ?key")
    case None
    then obtain r where r: "validated_trace song trace ?surface denom ?time perfect_stat = Some (Inr r)"
      "kept = AList.update ?key trace cache"
      using found by (auto simp: run_res_eq_Inr)
    moreover have "trace_cache_ok song kept"
      using assms(2) r(1) unfolding r(2) trace_cache_ok_def by auto
    ultimately show ?thesis by blast
  next
    case (Some old)
    then show ?thesis using found assms(2) by (auto simp: trace_cache_ok_def)
  qed
  then show "trace_cache_ok song cache'"
    and "\<exists>r. validated_trace song (fp_trace payload) (fp_surface payload) (fp_raw_fever_fill payload)
          (fp_real_fever_time payload) perfect_stat = Some (Inr r)"
    by (simp_all add: payload)
  show "score_force_greats_response_surface_exact (fp_stats payload) song curves (fp_surface payload) = Inr (fp_score payload)"
    using score by (simp add: payload)
  show "game_fill_denominator result song curves = Inr (fp_raw_fever_fill payload)" using denom by (simp add: payload)
  show "fp_surface payload = ?surface \<and> fp_stats payload = sr_stats result" by (simp add: payload)
qed

text \<open>The play a payload's trace plans, in the game's eyes: legal hits in the replay's order, each judged as
  planned, and the payload's score as the game's score of them with the payload's own bar and fever time.\<close>

definition plays_payload :: "timed_song \<Rightarrow> stat_curves \<Rightarrow> int \<Rightarrow> force_payload \<Rightarrow> bool" where
  "plays_payload song curves perfect_stat payload \<longleftrightarrow>
     (\<exists>plan order primary secondary f. let c = song_chart song; n = length (note_types c) in
        force_greats_plan (map trace_section_of (fp_trace payload)) n (hit_timestamps song) (note_types c)
          (map nat (lanes c)) (song_mode song) perfect_stat = Some (Inr plan)
        \<and> distinct order \<and> set order = {..<n}
        \<and> sorted (map fst (game_events plan (note_types c) perfect_stat order))
        \<and> game_codes plan (note_types c) perfect_stat
            = map (\<lambda>great. if great then GREAT_CODE else PERFECT_CODE) (np_great plan)
        \<and> song_colors song = Inr (primary, secondary)
        \<and> factors_of (stats_row (fp_stats payload)) curves primary secondary = Inr f
        \<and> fp_score payload = game_score f (fp_raw_fever_fill payload) (fp_real_fever_time payload)
            (game_events plan (note_types c) perfect_stat order))"

lemma validated_payload_plays:
  assumes "validated_trace song (fp_trace payload) (fp_surface payload) (fp_raw_fever_fill payload)
      (fp_real_fever_time payload) perfect_stat = Some (Inr r)"
    and "score_force_greats_response_surface_exact (fp_stats payload) song curves (fp_surface payload) = Inr (fp_score payload)"
    and "length (note_types (song_chart song)) = total_notes (song_chart song)"
  shows "plays_payload song curves perfect_stat payload"
proof -
  obtain primary secondary f where f: "song_colors song = Inr (primary, secondary)"
      "factors_of (stats_row (fp_stats payload)) curves primary secondary = Inr f"
      "fg_surface_score f (fp_surface payload) (total_notes (song_chart song)) = Inr (fp_score payload)"
    using assms(2) by (auto simp: score_force_greats_response_surface_exact_def bind_res_eq_Inr split: if_splits)
  show ?thesis
    using validated_play [OF assms(1) [unfolded validated_trace_def Let_def], of f] f assms(3)
    unfolding plays_payload_def Let_def by fastforce
qed

lemma replay_step:
  assumes "replay_force song curves selected r b t cache = Some (Inr (force, cache'))"
    and "trace_cache_ok song cache" "length (note_types (song_chart song)) = total_notes (song_chart song)"
  shows "trace_cache_ok song cache'"
    and "force = Some payload \<Longrightarrow> plays_payload song curves t payload \<and> fp_surface payload = sr_surface r
      \<and> fp_stats payload = sr_stats r"
proof -
  let ?m = "materialize_force_payload (sr_stats r) b selected r song curves t cache"
  consider (unplayable) "force = None" "cache' = cache" | (made) p where "?m = Some (Inr (p, cache'))" "force = Some p"
  proof (cases ?m)
    case (Some res)
    show thesis
    proof (cases res)
      case (Inl e)
      then show thesis using assms(1) Some that(1) unfolding replay_force_def by (cases e) auto
    next
      case (Inr x)
      then show thesis using assms(1) Some that(2) unfolding replay_force_def by (cases x) auto
    qed
  qed (use assms(1) in \<open>simp add: replay_force_def\<close>)
  then have "trace_cache_ok song cache' \<and> (force = Some payload \<longrightarrow> plays_payload song curves t payload
      \<and> fp_surface payload = sr_surface r \<and> fp_stats payload = sr_stats r)"
  proof cases
    case made
    note parts = materialized_parts [OF made(1) assms(2)]
    obtain a where "validated_trace song (fp_trace p) (fp_surface p) (fp_raw_fever_fill p) (fp_real_fever_time p) t = Some (Inr a)"
      using parts(2) by blast
    then have "plays_payload song curves t p" by (rule validated_payload_plays [OF _ parts(3) assms(3)])
    then show ?thesis using parts(1,5) made(2) by auto
  qed (use assms(2) in simp)
  then show "trace_cache_ok song cache'" and "force = Some payload \<Longrightarrow> plays_payload song curves t payload
      \<and> fp_surface payload = sr_surface r \<and> fp_stats payload = sr_stats r" by blast+
qed

lemma force_replays_sound:
  assumes "force_replays song curves selected results bases perfect_stats cache = Some (Inr (forces, cache'))"
    and "trace_cache_ok song cache" "length (note_types (song_chart song)) = total_notes (song_chart song)"
  shows "trace_cache_ok song cache' \<and> length forces = length results
    \<and> (\<forall>i < length forces. \<forall>payload. forces ! i = Some payload \<longrightarrow>
          plays_payload song curves (perfect_stats ! i) payload
          \<and> fp_surface payload = sr_surface (results ! i) \<and> fp_stats payload = sr_stats (results ! i))"
  using assms
proof (induction song curves selected results bases perfect_stats cache arbitrary: forces cache' rule: force_replays.induct)
  case (1 song curves selected r rs b bs t ts cache)
  from "1.prems"(1) obtain force mid rest where head: "replay_force song curves selected r b t cache = Some (Inr (force, mid))"
    and rest: "force_replays song curves selected rs bs ts mid = Some (Inr (rest, cache'))" and forces: "forces = force # rest"
    unfolding force_replays.simps(1) by (auto simp: run_res_eq_Inr)
  note step = replay_step [OF head "1.prems"(2,3)]
  note IH = "1.IH" [OF rest step(1) "1.prems"(3)]
  show ?case
  proof (intro conjI allI impI)
    show "trace_cache_ok song cache'" "length forces = length (r # rs)" using IH by (simp_all add: forces)
    fix i payload assume i: "i < length forces" "forces ! i = Some payload"
    have "plays_payload song curves ((t # ts) ! i) payload \<and> fp_surface payload = sr_surface ((r # rs) ! i)
        \<and> fp_stats payload = sr_stats ((r # rs) ! i)"
    proof (cases i)
      case 0
      then show ?thesis using step(2) i(2) by (simp add: forces)
    next
      case (Suc j)
      then show ?thesis using IH i by (simp add: forces)
    qed
    then show "plays_payload song curves ((t # ts) ! i) payload" "fp_surface payload = sr_surface ((r # rs) ! i)"
      "fp_stats payload = sr_stats ((r # rs) ! i)" by blast+
  qed
qed simp_all

text \<open>C3: every payload a song's replays produce, with whatever traces its cache shares, stores a trace that is
  a legal play, and its Score is what the game scores for that play.\<close>

theorem force_replays_play:
  assumes "force_replays song curves selected results bases perfect_stats cache = Some (Inr (forces, cache'))"
    and "trace_cache_ok song cache" "length (note_types (song_chart song)) = total_notes (song_chart song)"
  shows "trace_cache_ok song cache' \<and> length forces = length results
    \<and> (\<forall>i < length forces. \<forall>payload. forces ! i = Some payload \<longrightarrow>
          plays_payload song curves (perfect_stats ! i) payload
          \<and> fp_surface payload = sr_surface (results ! i) \<and> fp_stats payload = sr_stats (results ! i))"
  by (rule force_replays_sound [OF assms])


section \<open>A two-note song\<close>

text \<open>The trace of the two-note example, as a section the search stores.\<close>

definition pair_trace :: "(stored_section \<times> nat) list" where
  "pair_trace = [(\<lparr>st_next_state = 2, st_activation = 1, st_activation_ms = 1100, st_judgment = ''perfect'', st_hit_ms = 1100,
     st_hit_offset_ms = 0, st_window_lower_ms = 1100, st_window_upper_ms = 1100, st_offset_lower_ms = 0, st_offset_upper_ms = 0,
     st_window_width_ms = 0, st_forced_start = 0, st_run_start = 0, st_run_count = 1, st_fever_end = 2, st_fever_end_ms = None,
     st_fever_duration_ms = 1000, st_fever_window_end_ms = 2100, st_fever_start_source = ''chart_perfect'',
     st_fever_start_note = None, st_fever_start_hit_ms = 1100, st_early_start = - 1, st_early_end = - 1,
     st_preactivation_order = [0], st_lane_prefixes = [], st_fill_half_units = 1, st_event_count = 1, st_great_count = 1,
     st_forced_count = 1, st_body_fever = 0, st_body_great = 0, st_body_fever_great = 0\<rparr>, 1)]"

definition pair_song :: timed_song where
  "pair_song = \<lparr>song_chart = \<lparr>header = [(''Primary Color'', ''Chill''), (''Secondary Color'', ''Flow'')],
      timestamps = example_ts, note_types = [1, 1], lanes = [1, 2], last_note_time = 1, long_notes = 0\<rparr>,
    song_mode = ''non-precise'', baseline_hash = [], hit_timestamps = example_ts, song_envelopes = None\<rparr>"

definition pair_curves :: stat_curves where
  "pair_curves = example_curves\<lparr>curve_f64 := curve_f64 example_curves @ [(''Fever Fill Rate'', replicate 161 (3 / 4))]\<rparr>"

definition pair_result :: fg_solve_result where
  "pair_result = \<lparr>sr_best_score = 2884, sr_ft = 0, sr_ff = 0, sr_gem_counts = [], sr_stats = example_stats,
     sr_surface = great_then_fever, sr_non_fever_base = 1, sr_raw_fever_fill = 3 / 2, sr_real_fever_time = 1\<rparr>"

definition pair_cache :: trace_cache where
  "pair_cache = [((1, great_then_fever, 3 / 2, 1, False, 0), pair_trace)]"

lemma pair_trace_sections: "map trace_section_of pair_trace = [example_section]"
  by (simp add: pair_trace_def trace_section_of_def example_section_def)

lemma pair_cache_ok: "trace_cache_ok pair_song pair_cache"
proof -
  have "validated_trace pair_song pair_trace great_then_fever (3 / 2) 1 0
      = Some (Inr \<lparr>pr_event_order = [0, 1], pr_fever_mask = [False, True]\<rparr>)"
    using example_validated by (simp add: validated_trace_def pair_trace_sections pair_song_def)
  then show ?thesis unfolding trace_cache_ok_def pair_cache_def by (simp del: times_divide_eq_left divide_eq_eq_numeral1 eq_divide_eq_numeral1)
qed

lemma pair_materialized:
  "\<exists>payload. materialize_force_payload example_stats 645 ''Chill'' pair_result pair_song pair_curves 0 pair_cache
      = Some (Inr (payload, pair_cache)) \<and> fp_trace payload = pair_trace"
proof -
  have "game_fill_denominator pair_result pair_song pair_curves = Inr (3 / 2)" by code_simp
  moreover have "map_of pair_cache (sr_non_fever_base pair_result, sr_surface pair_result, 3 / 2, sr_real_fever_time pair_result,
      fi_forced_great_timing (fg_song_inputs_of pair_song), 0) = Some pair_trace"
    by (simp add: pair_cache_def pair_result_def fg_song_inputs_of_def pair_song_def NON_PRECISE_def Let_def)
  moreover have "\<exists>score. score_force_greats_response_surface_exact (sr_stats pair_result) pair_song pair_curves
      (sr_surface pair_result) = Inr score"
  proof -
    have "factors_of (stats_row example_stats) pair_curves ''Chill'' ''Flow'' = Inr example_factors" by code_simp
    moreover have "song_colors pair_song = Inr (''Chill'', ''Flow'')" by code_simp
    moreover have "valid_counts great_then_fever n" for n by (simp add: valid_counts_def great_then_fever_def)
    moreover have "example_stats \<noteq> []" by (simp add: example_stats_def)
    ultimately show ?thesis
      by (simp add: score_force_greats_response_surface_exact_def pair_result_def fg_surface_score_eq)
  qed
  ultimately show ?thesis by (auto simp: materialize_force_payload_def Let_def)
qed

lemma force_replays_play_witness:
  "\<exists>payload. force_replays pair_song pair_curves ''Chill'' [pair_result] [645] [0] pair_cache = Some (Inr ([Some payload], pair_cache))
    \<and> fp_trace payload = pair_trace \<and> plays_payload pair_song pair_curves 0 payload"
proof -
  obtain payload where payload: "materialize_force_payload example_stats 645 ''Chill'' pair_result pair_song pair_curves 0 pair_cache
      = Some (Inr (payload, pair_cache))" "fp_trace payload = pair_trace"
    using pair_materialized by blast
  have "sr_stats pair_result = example_stats" by (simp add: pair_result_def)
  then have run: "force_replays pair_song pair_curves ''Chill'' [pair_result] [645] [0] pair_cache
      = Some (Inr ([Some payload], pair_cache))"
    using payload(1) by (simp add: replay_force_def)
  have lengths: "length (note_types (song_chart pair_song)) = total_notes (song_chart pair_song)"
    by (simp add: pair_song_def total_notes_def)
  show ?thesis using force_replays_play [OF run pair_cache_ok lengths] run payload(2) by fastforce
qed

end
