(* ===== verification/GemGroups.thy ===== *)
theory GemGroups
  imports Score
begin

text \<open>
  The first half of solver/gem_search.py, with the split enumeration of solver/ftff_combos.py: how a gem budget
  can be split between Fever Time and Fever Fill gems, and which splits the search keeps for a pre-gem
  stat row. A frontier's chain of splits (the arrays stamp, head, tail, next_pos and best of the kernel) is
  a record holding the chain as a list; the splits of a row reach frontiers in the order of the list of chains.
\<close>

section \<open>The splits\<close>

definition triu_indices :: "nat \<Rightarrow> (nat \<times> nat) list" where
  "triu_indices n = concat (map (\<lambda>i. map (Pair i) [i..<n]) [0..<n])"

text \<open>Fever Time gems, Fever Fill gems and the gems left, split by split.\<close>

definition ftff_combo_arrays :: "nat \<Rightarrow> int list \<times> int list \<times> int list" where
  "ftff_combo_arrays total_budget =
     (let tri = triu_indices (total_budget + 1);
          ft = map (\<lambda>(i, j). int i) tri; ff = map (\<lambda>(i, j). int j - int i) tri
      in (ft, ff, map2 (\<lambda>x y. int total_budget - x - y) ft ff))"

text \<open>Per split the gems left and what its gems add to the song's colors; what an element gem adds to the base.\<close>

record split_arrays =
  sp_residual :: "int list"
  sp_primary :: "int list"
  sp_secondary :: "int list"
  sp_element :: int

definition split_value :: "split_arrays \<Rightarrow> nat \<Rightarrow> int" where
  "split_value arr pos = 2 * (sp_primary arr ! pos) + sp_secondary arr ! pos + sp_element arr * (sp_residual arr ! pos)"

definition color_gains :: "nat \<Rightarrow> string \<Rightarrow> int list" where
  "color_gains budget color =
     (let (ft, ff, residual) = ftff_combo_arrays budget
      in map2 (\<lambda>x y. (x * of_bool (color = gem_element ''Fever Time'')
                       + y * of_bool (color = gem_element ''Fever Fill Rate'')) * STAT_GEM_ELEMENT_GAIN) ft ff)"

definition song_splits :: "nat \<Rightarrow> string \<Rightarrow> string \<Rightarrow> string \<Rightarrow> split_arrays" where
  "song_splits budget primary_color secondary_color selected_color =
     \<lparr>sp_residual = snd (snd (ftff_combo_arrays budget)),
      sp_primary = color_gains budget primary_color,
      sp_secondary = color_gains budget secondary_color,
      sp_element = ELEMENT_GEM_GAIN
        * (2 * of_bool (primary_color = selected_color) + of_bool (secondary_color = selected_color))\<rparr>"

section \<open>The kept splits of a pre-gem row\<close>

text \<open>A stat after some fever gems.\<close>

definition key_stat :: "int \<Rightarrow> nat \<Rightarrow> int" where
  "key_stat v n = min (max (v + int n * STAT_GEM_GAIN_FEVER) 0) MAX_STAT"

record chain =
  ch_frontier :: int
  ch_splits :: "nat list"
  ch_best :: nat

text \<open>A split reaches a frontier: it opens the frontier's chain or joins it (with no colors to gain only the
  split with the most gems left matters).\<close>

fun reach_split :: "bool \<Rightarrow> int list \<Rightarrow> int \<Rightarrow> nat \<Rightarrow> chain list \<Rightarrow> chain list" where
  "reach_split constant residual fid pos [] = [\<lparr>ch_frontier = fid, ch_splits = [pos], ch_best = pos\<rparr>]"
| "reach_split constant residual fid pos (c # cs) =
     (if ch_frontier c = fid
      then c\<lparr>ch_splits := (if constant then ch_splits c else ch_splits c @ [pos]),
             ch_best := (if residual ! pos > residual ! ch_best c then pos else ch_best c)\<rparr> # cs
      else c # reach_split constant residual fid pos cs)"

text \<open>The Fever Fill gems of one count of Fever Time gems, whose splits start at \<open>first\<close>.\<close>

function scan_ff :: "bool \<Rightarrow> bool \<Rightarrow> int list \<Rightarrow> int list \<Rightarrow> (nat \<Rightarrow> int) \<Rightarrow> nat \<Rightarrow> nat \<Rightarrow> nat \<Rightarrow>
    chain list \<Rightarrow> chain list res" where
  "scan_ff constant ff_caps residual row_frontiers ff_stat first ff_top ff_gems reached =
     (if ff_gems > ff_top then Inr reached
      else
        let fid = row_frontiers ! nat (ff_stat ff_gems)
        in if fid < 0 then Inl ValueError
           else
             let reached' = reach_split constant residual fid (first + ff_gems) reached
             in if ff_caps \<and> ff_gems + 1 \<le> ff_top \<and> ff_stat (ff_gems + 1) = ff_stat ff_gems then Inr reached'
                else scan_ff constant ff_caps residual row_frontiers ff_stat first ff_top (ff_gems + 1) reached')"
  by auto
termination by (relation "measure (\<lambda>(_, _, _, _, _, _, top, ff, _). top + 1 - ff)") auto

function scan_ft :: "bool \<Rightarrow> bool \<Rightarrow> bool \<Rightarrow> int list \<Rightarrow> int list list \<Rightarrow> (nat \<Rightarrow> int) \<Rightarrow> (nat \<Rightarrow> int) \<Rightarrow> nat \<Rightarrow>
    nat \<Rightarrow> nat \<Rightarrow> chain list \<Rightarrow> chain list res" where
  "scan_ft constant ft_caps ff_caps residual frontier_idx ft_stat ff_stat budget ft_gems first reached =
     (if ft_gems > budget then Inr reached
      else bind_res (scan_ff constant ff_caps residual (frontier_idx ! nat (ft_stat ft_gems)) ff_stat first
             (budget - ft_gems) 0 reached) (\<lambda>reached'.
        if ft_caps \<and> ft_gems < budget \<and> ft_stat (ft_gems + 1) = ft_stat ft_gems then Inr reached'
        else scan_ft constant ft_caps ff_caps residual frontier_idx ft_stat ff_stat budget (ft_gems + 1)
               (first + (budget + 1 - ft_gems)) reached'))"
  by auto
termination by (relation "measure (\<lambda>(_, _, _, _, _, _, _, budget, ft, _). budget + 1 - ft)") auto

declare scan_ff.simps [simp del] scan_ft.simps [simp del]

definition split_beats :: "split_arrays \<Rightarrow> nat \<Rightarrow> nat \<Rightarrow> bool" where
  "split_beats arr other row \<longleftrightarrow> other \<noteq> row \<and> sp_residual arr ! other \<ge> sp_residual arr ! row
     \<and> (split_value arr other > split_value arr row
        \<or> sp_primary arr ! other \<ge> sp_primary arr ! row \<and> sp_secondary arr ! other \<ge> sp_secondary arr ! row
          \<and> (sp_residual arr ! other > sp_residual arr ! row \<or> sp_primary arr ! other > sp_primary arr ! row
             \<or> sp_secondary arr ! other > sp_secondary arr ! row \<or> other < row))"

definition kept_chain :: "bool \<Rightarrow> split_arrays \<Rightarrow> chain \<Rightarrow> nat list" where
  "kept_chain constant arr c =
     (if constant then [ch_best c]
      else filter (\<lambda>row. \<not> list_ex (\<lambda>other. split_beats arr other row) (ch_best c # ch_splits c)) (ch_splits c))"

record gem_group =
  gr_residual :: int
  gr_primary :: int
  gr_secondary :: int
  gr_frontier :: int
  gr_split :: nat

definition split_group :: "split_arrays \<Rightarrow> int \<Rightarrow> nat \<Rightarrow> gem_group" where
  "split_group arr fid pos =
     \<lparr>gr_residual = sp_residual arr ! pos, gr_primary = sp_primary arr ! pos, gr_secondary = sp_secondary arr ! pos,
      gr_frontier = fid, gr_split = pos\<rparr>"

definition key_groups :: "split_arrays \<Rightarrow> int list list \<Rightarrow> int \<times> int \<Rightarrow> gem_group list res" where
  "key_groups arr frontier_idx key =
     (let budget = nat (sp_residual arr ! 0);
          constant = (Max (set (sp_primary arr)) = 0 \<and> Max (set (sp_secondary arr)) = 0);
          ff_caps = (split_value arr 1 < split_value arr 0 \<or> sp_primary arr ! 1 + sp_secondary arr ! 1 = 0);
          ft_caps = (split_value arr (budget + 1) < split_value arr 0
                     \<or> sp_primary arr ! (budget + 1) + sp_secondary arr ! (budget + 1) = 0)
      in bind_res (scan_ft constant ft_caps ff_caps (sp_residual arr) frontier_idx (key_stat (fst key))
           (key_stat (snd key)) budget 0 0 []) (\<lambda>reached.
         Inr (concat (map (\<lambda>c. map (split_group arr (ch_frontier c)) (kept_chain constant arr c)) reached))))"

text \<open>The rows of all keys in key order, and how many each key has.\<close>

definition kept_splits :: "(int \<times> int) list \<Rightarrow> split_arrays \<Rightarrow> int list list \<Rightarrow> (gem_group list \<times> nat list) res" where
  "kept_splits keys arr frontier_idx =
     bind_res (map_res (key_groups arr frontier_idx) keys) (\<lambda>groups. Inr (concat groups, map length groups))"

section \<open>A batch's groups\<close>

type_synonym components = "int \<times> int \<times> int \<times> int \<times> int \<times> int \<times> int"

text \<open>PP, CM, FM, primary, secondary and the place of the pre-gem (FT, FF) among the keys.\<close>

record gem_loadout =
  lo_pp :: int
  lo_cm :: int
  lo_fm :: int
  lo_primary :: int
  lo_secondary :: int
  lo_key :: nat

record gem_memo =
  me_key_groups :: "(int, gem_group list) dict"
  me_shapes :: "(f64 \<times> f64 \<times> f64 \<times> f64) list"
  me_done :: "bool list"

record gem_groups_of =
  gg_loadouts :: "gem_loadout list"
  gg_keys :: "(int \<times> int) list"
  gg_key_starts :: "nat list"
  gg_groups :: "gem_group list"
  gg_head_len :: nat
  gg_body_total :: int
  gg_memo :: gem_memo

definition pack_key :: "int \<times> int \<Rightarrow> int" where
  "pack_key key = fst key * 2 ^ 32 + snd key"

definition fever_key :: "components \<Rightarrow> int \<times> int" where
  "fever_key = (\<lambda>(pp, cm, fm, primary, secondary, ft, ff). (ft, ff))"

text \<open>\<open>np.unique\<close> finds the sorted keys, the first row of each and each row's place among them.\<close>

definition key_place :: "'a \<Rightarrow> 'a list \<Rightarrow> nat" where
  "key_place x xs = length (takeWhile (\<lambda>y. y \<noteq> x) xs)"

text \<open>\<open>np.split\<close> at the running counts.\<close>

fun split_counts :: "nat list \<Rightarrow> 'a list \<Rightarrow> 'a list list" where
  "split_counts [] xs = []"
| "split_counts (n # ns) xs = take n xs # split_counts ns (drop n xs)"

definition gem_groups :: "components list \<Rightarrow> string \<Rightarrow> string \<Rightarrow> string \<Rightarrow> int list list \<Rightarrow> nat \<Rightarrow> gem_memo \<Rightarrow>
    gem_groups_of res" where
  "gem_groups base_components primary_color secondary_color selected_color frontier_idx total_notes memo =
     (let packed = map (pack_key \<circ> fever_key) base_components;
          packed_keys = sort (remdups packed);
          keys = map (\<lambda>k. fever_key (base_components ! key_place k packed)) packed_keys;
          key_of = map (\<lambda>k. key_place k packed_keys) packed;
          new_keys = filter (\<lambda>i. map_of (me_key_groups memo) (packed_keys ! i) = None) [0..<length packed_keys]
      in bind_res
           (if new_keys = [] then Inr (me_key_groups memo)
            else bind_res (kept_splits (map (\<lambda>i. keys ! i) new_keys)
                   (song_splits (nat GEM_BUDGET) primary_color secondary_color selected_color) frontier_idx)
                 (\<lambda>(rows, counts).
                   Inr (fold (\<lambda>(k, kept). AList.update k kept)
                     (zip (map (\<lambda>i. packed_keys ! i) new_keys) (split_counts counts rows)) (me_key_groups memo))))
           (\<lambda>known. bind_res (map_res (lookup known) packed_keys) (\<lambda>key_rows.
              if key_rows = [] then Inl ValueError
              else Inr \<lparr>gg_loadouts = map2 (\<lambda>(pp, cm, fm, primary, secondary, ft, ff) key.
                          \<lparr>lo_pp = pp, lo_cm = cm, lo_fm = fm, lo_primary = primary, lo_secondary = secondary,
                           lo_key = key\<rparr>) base_components key_of,
                        gg_keys = keys,
                        gg_key_starts = map (\<lambda>i. sum_list (map length (take i key_rows))) [0..<length key_rows + 1],
                        gg_groups = concat key_rows,
                        gg_head_len = min total_notes 100,
                        gg_body_total = int (total_notes - 100),
                        gg_memo = memo\<lparr>me_key_groups := known\<rparr>\<rparr>)))"


section \<open>Dominance\<close>

text \<open>A pruning keeps the elements nothing beats. What it needs: to be beaten is to be covered, covering is
  reflexive and transitive, and who beats has the higher rank, or the same rank and an earlier place.\<close>

locale dominance =
  fixes covers beats :: "'a \<Rightarrow> 'a \<Rightarrow> bool" and rank :: "'a \<Rightarrow> int" and place :: "'a \<Rightarrow> nat"
  assumes covers_refl: "covers x x"
    and covers_trans: "covers x y \<Longrightarrow> covers y z \<Longrightarrow> covers x z"
    and beats_covers: "beats x y \<Longrightarrow> covers x y"
    and beats_rank: "beats x y \<Longrightarrow> rank y < rank x \<or> rank y = rank x \<and> place x < place y"
begin

lemma unbeaten_covers:
  assumes "finite S" "x \<in> S"
  obtains y where "y \<in> S" "covers y x" "\<And>z. z \<in> S \<Longrightarrow> \<not> beats z y"
proof -
  let ?C = "{y \<in> S. covers y x}"
  define top where "top = Max (rank ` ?C)"
  let ?T = "{y \<in> ?C. rank y = top}"
  have C: "finite ?C" "x \<in> ?C" using assms covers_refl by auto
  then have "top \<in> rank ` ?C" unfolding top_def by (intro Max_in) auto
  then obtain y0 where "y0 \<in> ?T" by auto
  then obtain y where y: "y \<in> ?T" and least: "\<And>z. z \<in> ?T \<Longrightarrow> place y \<le> place z"
    using arg_min_nat_lemma [of "\<lambda>y. y \<in> ?T" y0 place] by blast
  have "\<not> beats z y" if "z \<in> S" for z
  proof
    assume beats: "beats z y"
    have z: "z \<in> ?C" using that beats_covers [OF beats] covers_trans y by blast
    then have "rank z \<le> top" unfolding top_def using C by (intro Max_ge) auto
    then show False using beats_rank [OF beats] y z least [of z] by fastforce
  qed
  then show thesis using that y by blast
qed

end

text \<open>A split with as many gems left and more value, or no less of each color, serves every allocation of
  the other.\<close>

definition split_covers :: "split_arrays \<Rightarrow> nat \<Rightarrow> nat \<Rightarrow> bool" where
  "split_covers arr a b \<longleftrightarrow> sp_residual arr ! a \<ge> sp_residual arr ! b
     \<and> (split_value arr a > split_value arr b
        \<or> sp_primary arr ! a \<ge> sp_primary arr ! b \<and> sp_secondary arr ! a \<ge> sp_secondary arr ! b)"

lemma song_splits_element: "0 \<le> sp_element (song_splits budget primary secondary selected)"
  by (simp add: song_splits_def rules_defs)

lemma split_value_mono:
  assumes "0 \<le> sp_element arr" "sp_residual arr ! b \<le> sp_residual arr ! a"
    and "sp_primary arr ! b \<le> sp_primary arr ! a" "sp_secondary arr ! b \<le> sp_secondary arr ! a"
  shows "split_value arr b \<le> split_value arr a"
  using mult_left_mono [OF assms(2,1)] assms(3,4) by (simp add: split_value_def)

lemma split_covers_value: "0 \<le> sp_element arr \<Longrightarrow> split_covers arr a b \<Longrightarrow> split_value arr b \<le> split_value arr a"
  using split_value_mono [of arr b a] by (auto simp: split_covers_def)

lemma split_covers_trans:
  assumes "0 \<le> sp_element arr" "split_covers arr a b" "split_covers arr b c"
  shows "split_covers arr a c"
  using assms split_covers_value [OF assms(1,2)] split_covers_value [OF assms(1,3)]
  by (auto simp: split_covers_def)

interpretation splits: dominance
  "split_covers (song_splits budget primary secondary selected)" "split_beats (song_splits budget primary secondary selected)"
  "\<lambda>pos. sp_residual (song_splits budget primary secondary selected) ! pos
         + split_value (song_splits budget primary secondary selected) pos" "\<lambda>pos. pos"
  for budget primary secondary selected
proof unfold_locales
  let ?arr = "song_splits budget primary secondary selected"
  show "split_covers ?arr x x" for x by (simp add: split_covers_def)
  show "split_covers ?arr x y \<Longrightarrow> split_covers ?arr y z \<Longrightarrow> split_covers ?arr x z" for x y z
    by (rule split_covers_trans [OF song_splits_element])
  show "split_beats ?arr x y \<Longrightarrow> split_covers ?arr x y" for x y
    by (auto simp: split_beats_def split_covers_def)
  show "sp_residual ?arr ! y + split_value ?arr y < sp_residual ?arr ! x + split_value ?arr x
      \<or> sp_residual ?arr ! y + split_value ?arr y = sp_residual ?arr ! x + split_value ?arr x \<and> x < y"
    if "split_beats ?arr x y" for x y
  proof (cases "split_value ?arr y < split_value ?arr x")
    case False
    have "sp_element ?arr * (sp_residual ?arr ! y) \<le> sp_element ?arr * (sp_residual ?arr ! x)"
      using that song_splits_element by (intro mult_left_mono) (auto simp: split_beats_def)
    then show ?thesis using that False unfolding split_beats_def split_value_def by linarith
  qed (use that in \<open>auto simp: split_beats_def\<close>)
qed


section \<open>Where a split is\<close>

definition split_pos :: "nat \<Rightarrow> nat \<Rightarrow> nat \<Rightarrow> nat" where
  "split_pos budget ft ff = (\<Sum>k<ft. budget + 1 - k) + ff"

lemma triu_length: "length (concat (map (\<lambda>i. map (Pair i) [i..<n]) [0..<m])) = (\<Sum>k<m. n - k)"
  by (induction m) simp_all

lemma triu_indices_nth:
  assumes "i + d < n"
  shows "triu_indices n ! ((\<Sum>k<i. n - k) + d) = (i, i + d)" "(\<Sum>k<i. n - k) + d < length (triu_indices n)"
proof -
  let ?row = "\<lambda>i. map (Pair i) [i..<n]"
  have "[0..<n] = [0..<i] @ i # [Suc i..<n]"
    using assms upt_add_eq_append [of 0 i "n - i"] upt_conv_Cons [of i n] by simp
  then have "triu_indices n = concat (map ?row [0..<i]) @ ?row i @ concat (map ?row [Suc i..<n])"
    by (simp add: triu_indices_def)
  moreover have "d < n - i" using assms by simp
  ultimately show "triu_indices n ! ((\<Sum>k<i. n - k) + d) = (i, i + d)" "(\<Sum>k<i. n - k) + d < length (triu_indices n)"
    by (simp_all add: nth_append triu_length)
qed

lemma split_pos_nth:
  assumes "ft + ff \<le> budget"
  shows "fst (ftff_combo_arrays budget) ! split_pos budget ft ff = int ft"
    and "fst (snd (ftff_combo_arrays budget)) ! split_pos budget ft ff = int ff"
    and "snd (snd (ftff_combo_arrays budget)) ! split_pos budget ft ff = int budget - int ft - int ff"
    and "split_pos budget ft ff < length (triu_indices (budget + 1))"
  using triu_indices_nth [of ft ff "budget + 1"] assms
  by (simp_all add: ftff_combo_arrays_def split_pos_def Let_def)

lemma ftff_lengths:
  "length (fst (ftff_combo_arrays budget)) = length (triu_indices (budget + 1))"
  "length (fst (snd (ftff_combo_arrays budget))) = length (triu_indices (budget + 1))"
  "length (snd (snd (ftff_combo_arrays budget))) = length (triu_indices (budget + 1))"
  by (simp_all add: ftff_combo_arrays_def Let_def)

definition ft_gain :: "string \<Rightarrow> int" where
  "ft_gain color = of_bool (color = gem_element ''Fever Time'') * STAT_GEM_ELEMENT_GAIN"

definition ff_gain :: "string \<Rightarrow> int" where
  "ff_gain color = of_bool (color = gem_element ''Fever Fill Rate'') * STAT_GEM_ELEMENT_GAIN"

lemma gains_nonneg [simp]: "0 \<le> ft_gain color" "0 \<le> ff_gain color"
  by (simp_all add: ft_gain_def ff_gain_def rules_defs)

lemma color_gains_nth:
  assumes "ft + ff \<le> budget"
  shows "color_gains budget color ! split_pos budget ft ff = int ft * ft_gain color + int ff * ff_gain color"
  using split_pos_nth [OF assms] unfolding color_gains_def split_def Let_def
  by (simp add: ftff_lengths ft_gain_def ff_gain_def distrib_right)

lemma song_splits_nth:
  assumes "ft + ff \<le> budget"
  shows "sp_residual (song_splits budget p s sel) ! split_pos budget ft ff = int budget - int ft - int ff"
    and "sp_primary (song_splits budget p s sel) ! split_pos budget ft ff = int ft * ft_gain p + int ff * ff_gain p"
    and "sp_secondary (song_splits budget p s sel) ! split_pos budget ft ff = int ft * ft_gain s + int ff * ff_gain s"
  using split_pos_nth [OF assms] color_gains_nth [OF assms] by (simp_all add: song_splits_def)

lemma split_pos_row: "split_pos budget (ft + 1) 0 = split_pos budget ft 0 + (budget + 1 - ft)"
  by (simp add: split_pos_def)

lemma split_pos_add: "split_pos budget ft ff = split_pos budget ft 0 + ff"
  by (simp add: split_pos_def)

text \<open>A gem past a cap that takes value away, or adds no colors, leaves a split the one before it covers.\<close>

definition caps_at :: "split_arrays \<Rightarrow> nat \<Rightarrow> bool" where
  "caps_at arr pos \<longleftrightarrow> split_value arr pos < split_value arr 0 \<or> sp_primary arr ! pos + sp_secondary arr ! pos = 0"

lemma split_value_linear:
  assumes "ft + ff \<le> budget"
  shows "split_value (song_splits budget p s sel) (split_pos budget ft ff) =
      split_value (song_splits budget p s sel) 0
      + int ft * (2 * ft_gain p + ft_gain s - sp_element (song_splits budget p s sel))
      + int ff * (2 * ff_gain p + ff_gain s - sp_element (song_splits budget p s sel))"
proof -
  let ?arr = "song_splits budget p s sel"
  have "split_pos budget 0 0 = 0" by (simp add: split_pos_def)
  with song_splits_nth [of 0 0 budget p s sel]
  have start: "sp_residual ?arr ! 0 = int budget" "sp_primary ?arr ! 0 = 0" "sp_secondary ?arr ! 0 = 0" by simp_all
  show ?thesis unfolding split_value_def song_splits_nth [OF assms] start by (simp add: algebra_simps)
qed

lemma ff_caps_cover:
  assumes "caps_at (song_splits budget p s sel) 1" "ft + ff' \<le> budget" "ff \<le> ff'" "1 \<le> budget"
  shows "split_covers (song_splits budget p s sel) (split_pos budget ft ff) (split_pos budget ft ff')"
proof (cases "ff = ff'")
  case False
  let ?arr = "song_splits budget p s sel" and ?v = "2 * ff_gain p + ff_gain s - sp_element (song_splits budget p s sel)"
  have pos: "split_pos budget 0 1 = 1" by (simp add: split_pos_def)
  have one: "split_value ?arr 1 = split_value ?arr 0 + ?v"
    "sp_primary ?arr ! 1 = ff_gain p" "sp_secondary ?arr ! 1 = ff_gain s"
    using split_value_linear [of 0 1 budget p s sel] song_splits_nth [of 0 1 budget p s sel] assms(4) pos by simp_all
  have "ft + ff \<le> budget" using assms by simp
  note here = song_splits_nth [OF this, of p s sel] split_value_linear [OF this, of p s sel]
    song_splits_nth [OF assms(2), of p s sel] split_value_linear [OF assms(2), of p s sel]
  consider "?v < 0" | "ff_gain p = 0 \<and> ff_gain s = 0"
    using assms(1) one gains_nonneg(2) [of p] gains_nonneg(2) [of s] unfolding caps_at_def by linarith
  then show ?thesis
  proof cases
    case 1
    have "int ff' * ?v < int ff * ?v" using 1 False assms(3) by (intro mult_strict_right_mono_neg) auto
    then show ?thesis using here assms(3) unfolding split_covers_def by linarith
  next
    case 2
    then show ?thesis using here assms(3) by (simp add: split_covers_def)
  qed
qed (simp add: split_covers_def)

lemma ft_caps_cover:
  assumes "caps_at (song_splits budget p s sel) (budget + 1)" "ft' + ff \<le> budget" "ft \<le> ft'" "1 \<le> budget"
  shows "split_covers (song_splits budget p s sel) (split_pos budget ft ff) (split_pos budget ft' ff)"
proof (cases "ft = ft'")
  case False
  let ?arr = "song_splits budget p s sel" and ?v = "2 * ft_gain p + ft_gain s - sp_element (song_splits budget p s sel)"
  have pos: "split_pos budget 1 0 = budget + 1" by (simp add: split_pos_def)
  have one: "split_value ?arr (budget + 1) = split_value ?arr 0 + ?v"
    "sp_primary ?arr ! (budget + 1) = ft_gain p" "sp_secondary ?arr ! (budget + 1) = ft_gain s"
    using split_value_linear [of 1 0 budget p s sel] song_splits_nth [of 1 0 budget p s sel] assms(4) pos by simp_all
  have "ft + ff \<le> budget" using assms by simp
  note here = song_splits_nth [OF this, of p s sel] split_value_linear [OF this, of p s sel]
    song_splits_nth [OF assms(2), of p s sel] split_value_linear [OF assms(2), of p s sel]
  consider "?v < 0" | "ft_gain p = 0 \<and> ft_gain s = 0"
    using assms(1) one gains_nonneg(1) [of p] gains_nonneg(1) [of s] unfolding caps_at_def by linarith
  then show ?thesis
  proof cases
    case 1
    have "int ft' * ?v < int ft * ?v" using 1 False assms(3) by (intro mult_strict_right_mono_neg) auto
    then show ?thesis using here assms(3) unfolding split_covers_def by linarith
  next
    case 2
    then show ?thesis using here assms(3) by (simp add: split_covers_def)
  qed
qed (simp add: split_covers_def)

lemma key_stat_capped:
  assumes "0 \<le> v" "key_stat v (n + 1) = key_stat v n" "n \<le> m"
  shows "key_stat v m = key_stat v n"
  using assms by (auto simp: key_stat_def rules_defs min_def max_def split: if_splits)


section \<open>What a scan leaves in the chains\<close>

text \<open>\<open>V\<close> is what has been visited: pairs of a frontier and a split that reaches it.\<close>

definition chains_ok :: "bool \<Rightarrow> int list \<Rightarrow> (int \<times> nat) set \<Rightarrow> chain list \<Rightarrow> bool" where
  "chains_ok constant residual V cs \<longleftrightarrow> distinct (map ch_frontier cs)
     \<and> (\<forall>c \<in> set cs. (ch_frontier c, ch_best c) \<in> V \<and> (\<forall>p \<in> set (ch_splits c). (ch_frontier c, p) \<in> V)
          \<and> (constant \<or> ch_best c \<in> set (ch_splits c)))
     \<and> (\<forall>(f, p) \<in> V. \<exists>c \<in> set cs. ch_frontier c = f
          \<and> (if constant then residual ! p \<le> residual ! ch_best c else p \<in> set (ch_splits c)))"

definition joined :: "bool \<Rightarrow> int list \<Rightarrow> nat \<Rightarrow> chain \<Rightarrow> chain" where
  "joined constant residual pos c =
     c\<lparr>ch_splits := (if constant then ch_splits c else ch_splits c @ [pos]),
       ch_best := (if residual ! pos > residual ! ch_best c then pos else ch_best c)\<rparr>"

lemma joined_simps [simp]:
  "ch_frontier (joined constant residual pos c) = ch_frontier c"
  "ch_splits (joined constant residual pos c) = (if constant then ch_splits c else ch_splits c @ [pos])"
  "ch_best (joined constant residual pos c) = (if residual ! pos > residual ! ch_best c then pos else ch_best c)"
  by (simp_all add: joined_def)

lemma reach_split_new:
  "fid \<notin> ch_frontier ` set cs \<Longrightarrow>
     reach_split constant residual fid pos cs = cs @ [\<lparr>ch_frontier = fid, ch_splits = [pos], ch_best = pos\<rparr>]"
  by (induction cs) auto

lemma reach_split_old:
  assumes "distinct (map ch_frontier cs)" "c \<in> set cs" "ch_frontier c = fid"
  shows "reach_split constant residual fid pos cs
      = map (\<lambda>d. if ch_frontier d = fid then joined constant residual pos d else d) cs"
  using assms
proof (induction cs)
  case (Cons d cs)
  show ?case
  proof (cases "ch_frontier d = fid")
    case True
    then have "ch_frontier e \<noteq> fid" if "e \<in> set cs" for e
      using Cons.prems(1) that by (metis distinct.simps(2) imageI list.set_map list.simps(9))
    then have "map (\<lambda>d. if ch_frontier d = fid then joined constant residual pos d else d) cs = cs"
      by (intro map_idI) auto
    then show ?thesis using True by (simp add: joined_def)
  next
    case False
    then show ?thesis using Cons by auto
  qed
qed simp

lemma reach_split_ok:
  assumes ok: "chains_ok constant residual V cs"
  shows "chains_ok constant residual (insert (fid, pos) V) (reach_split constant residual fid pos cs)"
proof (cases "fid \<in> ch_frontier ` set cs")
  case False
  have here: "(\<exists>c \<in> set cs. ch_frontier c = f \<and> Q c) \<Longrightarrow> f \<noteq> fid" for f Q using False by auto
  show ?thesis using ok False unfolding chains_ok_def reach_split_new [OF False] by (auto dest: here)
next
  case True
  then obtain c where c: "c \<in> set cs" "ch_frontier c = fid" by auto
  have distinct: "distinct (map ch_frontier cs)" using ok by (simp add: chains_ok_def)
  let ?j = "\<lambda>d. if ch_frontier d = fid then joined constant residual pos d else d"
  have front: "ch_frontier (?j d) = ch_frontier d" for d by simp
  have fronts: "map ch_frontier (map ?j cs) = map ch_frontier cs" by simp
  have members: "\<forall>d \<in> set cs. (ch_frontier d, ch_best (?j d)) \<in> insert (fid, pos) V
      \<and> (\<forall>p \<in> set (ch_splits (?j d)). (ch_frontier d, p) \<in> insert (fid, pos) V)
      \<and> (constant \<or> ch_best (?j d) \<in> set (ch_splits (?j d)))"
    using ok unfolding chains_ok_def by auto
  have found: "\<exists>d \<in> set cs. ch_frontier d = f
      \<and> (if constant then residual ! p \<le> residual ! ch_best (?j d) else p \<in> set (ch_splits (?j d)))"
    if "(f, p) \<in> insert (fid, pos) V" for f p
  proof (cases "(f, p) = (fid, pos)")
    case True
    then show ?thesis using c by (intro bexI [of _ c]) auto
  next
    case False
    then have "(f, p) \<in> V" using that by blast
    then obtain d where "d \<in> set cs" "ch_frontier d = f"
        "if constant then residual ! p \<le> residual ! ch_best d else p \<in> set (ch_splits d)"
      using ok unfolding chains_ok_def by blast
    then show ?thesis by (intro bexI [of _ d]) (auto split: if_splits)
  qed
  show ?thesis
    unfolding chains_ok_def reach_split_old [OF distinct c] fronts
    by (simp only: set_map ball_simps bex_simps front) (use distinct members found in blast)
qed

text \<open>The frontier a split reaches from a key.\<close>

definition reached_frontier :: "int list list \<Rightarrow> int \<times> int \<Rightarrow> nat \<Rightarrow> nat \<Rightarrow> int" where
  "reached_frontier frontier_idx key ft ff =
     frontier_idx ! nat (key_stat (fst key) ft) ! nat (key_stat (snd key) ff)"

lemma scan_ff_visits:
  assumes "scan_ff constant ff_caps residual (frontier_idx ! nat (key_stat (fst key) ft)) (key_stat (snd key))
      (split_pos budget ft 0) (budget - ft) ff cs = Inr cs'"
    and "chains_ok constant residual V cs" "ft \<le> budget" "0 \<le> snd key" "1 \<le> budget"
    and "ff_caps \<longrightarrow> caps_at (song_splits budget p s sel) 1"
  shows "\<exists>V'. V \<subseteq> V' \<and> chains_ok constant residual V' cs'
    \<and> (\<forall>(f, q) \<in> V' - V. \<exists>ff'. ft + ff' \<le> budget \<and> f = reached_frontier frontier_idx key ft ff' \<and> q = split_pos budget ft ff')
    \<and> (\<forall>ff'. ff \<le> ff' \<longrightarrow> ft + ff' \<le> budget \<longrightarrow>
        (\<exists>q. (reached_frontier frontier_idx key ft ff', q) \<in> V'
            \<and> split_covers (song_splits budget p s sel) q (split_pos budget ft ff')))"
  using assms(1,2)
proof (induction "budget + 1 - ft - ff" arbitrary: ff cs V)
  case 0
  then have "ff > budget - ft" using assms(3) by simp
  then have "cs' = cs" using 0(2) by (subst (asm) scan_ff.simps) simp
  then show ?case using 0 \<open>ff > budget - ft\<close> by (intro exI [of _ V]) auto
next
  case (Suc n)
  have top: "\<not> ff > budget - ft" "ft + ff \<le> budget" using Suc(2) by simp_all
  let ?fid = "reached_frontier frontier_idx key ft ff" and ?pos = "split_pos budget ft ff"
  let ?cs = "reach_split constant residual ?fid ?pos cs" and ?V = "insert (?fid, ?pos) V"
  let ?stop = "ff_caps \<and> ff + 1 \<le> budget - ft \<and> key_stat (snd key) (ff + 1) = key_stat (snd key) ff"
  have ok: "chains_ok constant residual ?V ?cs" by (rule reach_split_ok [OF Suc.prems(2)])
  have fid: "frontier_idx ! nat (key_stat (fst key) ft) ! nat (key_stat (snd key) ff) = ?fid"
    by (simp add: reached_frontier_def)
  have step: "(if ?stop then Inr ?cs else scan_ff constant ff_caps residual
      (frontier_idx ! nat (key_stat (fst key) ft)) (key_stat (snd key)) (split_pos budget ft 0) (budget - ft) (ff + 1) ?cs)
      = Inr cs'"
    using Suc.prems(1) top(1) unfolding split_pos_add [of budget ft ff]
    by (subst (asm) scan_ff.simps) (auto simp: Let_def fid split: if_splits)
  have self: "split_covers (song_splits budget p s sel) q q" for q by (simp add: split_covers_def)
  have new: "\<forall>(f, q) \<in> ?V - V. \<exists>ff'. ft + ff' \<le> budget \<and> f = reached_frontier frontier_idx key ft ff'
      \<and> q = split_pos budget ft ff'" using top(2) by auto
  show ?case
  proof (cases ?stop)
    case True
    have "\<exists>q. (reached_frontier frontier_idx key ft ff', q) \<in> ?V
        \<and> split_covers (song_splits budget p s sel) q (split_pos budget ft ff')"
      if "ff \<le> ff'" "ft + ff' \<le> budget" for ff'
    proof -
      have "key_stat (snd key) ff' = key_stat (snd key) ff"
        using key_stat_capped [OF assms(4)] True that(1) by blast
      then have "reached_frontier frontier_idx key ft ff' = ?fid" by (simp add: reached_frontier_def)
      then show ?thesis using ff_caps_cover [OF _ that(2,1) assms(5)] assms(6) True by blast
    qed
    moreover have "cs' = ?cs" using step True by simp
    ultimately show ?thesis using ok new by (intro exI [of _ ?V]) blast
  next
    case False
    then have rest: "scan_ff constant ff_caps residual (frontier_idx ! nat (key_stat (fst key) ft)) (key_stat (snd key))
        (split_pos budget ft 0) (budget - ft) (ff + 1) ?cs = Inr cs'" using step unfolding if_not_P [OF False] by blast
    have "n = budget + 1 - ft - (ff + 1)" using Suc(2) by simp
    from Suc(1) [OF this rest ok] obtain V' where V': "?V \<subseteq> V'" "chains_ok constant residual V' cs'"
      "\<forall>(f, q) \<in> V' - ?V. \<exists>ff'. ft + ff' \<le> budget \<and> f = reached_frontier frontier_idx key ft ff' \<and> q = split_pos budget ft ff'"
      and covered: "\<And>ff'. ff + 1 \<le> ff' \<Longrightarrow> ft + ff' \<le> budget \<Longrightarrow>
        (\<exists>q. (reached_frontier frontier_idx key ft ff', q) \<in> V'
            \<and> split_covers (song_splits budget p s sel) q (split_pos budget ft ff'))"
      by blast
    have "\<exists>q. (reached_frontier frontier_idx key ft ff', q) \<in> V'
        \<and> split_covers (song_splits budget p s sel) q (split_pos budget ft ff')"
      if "ff \<le> ff'" "ft + ff' \<le> budget" for ff'
    proof (cases "ff' = ff")
      case True
      then show ?thesis using V'(1) self by blast
    next
      case False
      then show ?thesis using covered that by simp
    qed
    moreover have "\<forall>(f, q) \<in> V' - V. \<exists>ff'. ft + ff' \<le> budget \<and> f = reached_frontier frontier_idx key ft ff'
        \<and> q = split_pos budget ft ff'" using V'(3) new by blast
    ultimately show ?thesis using V'(1,2) by (intro exI [of _ V']) blast
  qed
qed


lemma scan_ft_visits:
  assumes "scan_ft constant ft_caps ff_caps residual frontier_idx (key_stat (fst key)) (key_stat (snd key))
      budget ft (split_pos budget ft 0) cs = Inr cs'"
    and "chains_ok constant residual V cs" "0 \<le> fst key" "0 \<le> snd key" "1 \<le> budget"
    and "ff_caps \<longrightarrow> caps_at (song_splits budget p s sel) 1"
    and "ft_caps \<longrightarrow> caps_at (song_splits budget p s sel) (budget + 1)"
  shows "\<exists>V'. V \<subseteq> V' \<and> chains_ok constant residual V' cs'
    \<and> (\<forall>(f, q) \<in> V' - V. \<exists>ft' ff'. ft' + ff' \<le> budget \<and> f = reached_frontier frontier_idx key ft' ff'
          \<and> q = split_pos budget ft' ff')
    \<and> (\<forall>ft' ff'. ft \<le> ft' \<longrightarrow> ft' + ff' \<le> budget \<longrightarrow>
        (\<exists>q. (reached_frontier frontier_idx key ft' ff', q) \<in> V'
            \<and> split_covers (song_splits budget p s sel) q (split_pos budget ft' ff')))"
  using assms(1,2)
proof (induction "budget + 1 - ft" arbitrary: ft cs V)
  case 0
  then have "ft > budget" by simp
  then have "cs' = cs" using 0(2) by (subst (asm) scan_ft.simps) simp
  then show ?case using 0 \<open>ft > budget\<close> by (intro exI [of _ V]) auto
next
  case (Suc n)
  have top: "\<not> ft > budget" "ft \<le> budget" using Suc(2) by simp_all
  let ?stop = "ft_caps \<and> ft < budget \<and> key_stat (fst key) (ft + 1) = key_stat (fst key) ft"
  obtain mid where row: "scan_ff constant ff_caps residual (frontier_idx ! nat (key_stat (fst key) ft))
      (key_stat (snd key)) (split_pos budget ft 0) (budget - ft) 0 cs = Inr mid"
    and step: "(if ?stop then Inr mid else scan_ft constant ft_caps ff_caps residual frontier_idx
      (key_stat (fst key)) (key_stat (snd key)) budget (ft + 1) (split_pos budget (ft + 1) 0) mid) = Inr cs'"
    using Suc.prems(1) unfolding scan_ft.simps [of _ _ _ _ _ _ _ budget ft] if_not_P [OF top(1)] split_pos_row
      bind_res_eq_Inr by blast
  obtain V1 where V1: "V \<subseteq> V1" "chains_ok constant residual V1 mid"
    "\<forall>(f, q) \<in> V1 - V. \<exists>ff'. ft + ff' \<le> budget \<and> f = reached_frontier frontier_idx key ft ff' \<and> q = split_pos budget ft ff'"
    and visited: "\<forall>ff'. 0 \<le> ff' \<longrightarrow> ft + ff' \<le> budget \<longrightarrow> (\<exists>q. (reached_frontier frontier_idx key ft ff', q) \<in> V1
        \<and> split_covers (song_splits budget p s sel) q (split_pos budget ft ff'))"
    using scan_ff_visits [OF row Suc.prems(2) top(2) assms(4,5,6)] by (elim exE conjE) (rule that)
  have here: "\<exists>q. (reached_frontier frontier_idx key ft ff', q) \<in> V1
      \<and> split_covers (song_splits budget p s sel) q (split_pos budget ft ff')" if "ft + ff' \<le> budget" for ff'
    using visited that by simp
  show ?case
  proof (cases ?stop)
    case True
    have "\<exists>q. (reached_frontier frontier_idx key ft' ff', q) \<in> V1
        \<and> split_covers (song_splits budget p s sel) q (split_pos budget ft' ff')"
      if "ft \<le> ft'" "ft' + ff' \<le> budget" for ft' ff'
    proof -
      have "key_stat (fst key) ft' = key_stat (fst key) ft"
        using key_stat_capped [OF assms(3)] True that(1) by blast
      then have "reached_frontier frontier_idx key ft' ff' = reached_frontier frontier_idx key ft ff'"
        by (simp add: reached_frontier_def)
      moreover have "ft + ff' \<le> budget" using that by simp
      ultimately show ?thesis
        using here [of ff'] ft_caps_cover [OF assms(7) [rule_format] that(2,1) assms(5)] True split_covers_trans [OF song_splits_element]
        by metis
    qed
    moreover have "cs' = mid" using step True by simp
    ultimately show ?thesis using V1 by (intro exI [of _ V1]) blast
  next
    case False
    then have rest: "scan_ft constant ft_caps ff_caps residual frontier_idx (key_stat (fst key)) (key_stat (snd key))
        budget (ft + 1) (split_pos budget (ft + 1) 0) mid = Inr cs'" using step unfolding if_not_P [OF False] by blast
    have "n = budget + 1 - (ft + 1)" using Suc(2) by simp
    from Suc(1) [OF this rest V1(2)] obtain V' where V': "V1 \<subseteq> V'" "chains_ok constant residual V' cs'"
      "\<forall>(f, q) \<in> V' - V1. \<exists>ft' ff'. ft' + ff' \<le> budget \<and> f = reached_frontier frontier_idx key ft' ff'
          \<and> q = split_pos budget ft' ff'"
      and covered: "\<And>ft' ff'. ft + 1 \<le> ft' \<Longrightarrow> ft' + ff' \<le> budget \<Longrightarrow>
        (\<exists>q. (reached_frontier frontier_idx key ft' ff', q) \<in> V'
            \<and> split_covers (song_splits budget p s sel) q (split_pos budget ft' ff'))"
      by blast
    have "\<exists>q. (reached_frontier frontier_idx key ft' ff', q) \<in> V'
        \<and> split_covers (song_splits budget p s sel) q (split_pos budget ft' ff')"
      if "ft \<le> ft'" "ft' + ff' \<le> budget" for ft' ff'
    proof (cases "ft' = ft")
      case True
      then show ?thesis using here that(2) V'(1) by blast
    next
      case False
      then show ?thesis using covered that by simp
    qed
    moreover have "\<forall>(f, q) \<in> V' - V. \<exists>ft' ff'. ft' + ff' \<le> budget \<and> f = reached_frontier frontier_idx key ft' ff'
        \<and> q = split_pos budget ft' ff'" using V'(3) V1(3) by blast
    ultimately show ?thesis using V'(1,2) V1(1) by (intro exI [of _ V']) blast
  qed
qed

section \<open>No split that matters is dropped\<close>

lemma chains_ok_empty: "chains_ok constant residual {} []"
  by (simp add: chains_ok_def)

text \<open>With no color to gain a split's gains are nil.\<close>

lemma constant_gains:
  assumes "Max (set (sp_primary (song_splits budget p s sel))) = 0" "Max (set (sp_secondary (song_splits budget p s sel))) = 0"
    and "ft + ff \<le> budget"
  shows "sp_primary (song_splits budget p s sel) ! split_pos budget ft ff = 0"
    and "sp_secondary (song_splits budget p s sel) ! split_pos budget ft ff = 0"
proof -
  let ?arr = "song_splits budget p s sel" and ?pos = "split_pos budget ft ff"
  have "?pos < length (sp_primary ?arr)" "?pos < length (sp_secondary ?arr)"
    using split_pos_nth(4) [OF assms(3)] by (simp_all add: song_splits_def color_gains_def split_def Let_def ftff_lengths)
  then have "sp_primary ?arr ! ?pos \<le> 0" "sp_secondary ?arr ! ?pos \<le> 0"
    using Max_ge [of "set (sp_primary ?arr)" "sp_primary ?arr ! ?pos"]
      Max_ge [of "set (sp_secondary ?arr)" "sp_secondary ?arr ! ?pos"] assms(1,2) by simp_all
  moreover have "0 \<le> sp_primary ?arr ! ?pos" "0 \<le> sp_secondary ?arr ! ?pos"
    using song_splits_nth [OF assms(3), of p s sel] by simp_all
  ultimately show "sp_primary ?arr ! ?pos = 0" "sp_secondary ?arr ! ?pos = 0" by linarith+
qed

text \<open>A split of the budget with the frontier it reaches from a key.\<close>

definition real_split :: "nat \<Rightarrow> int list list \<Rightarrow> int \<times> int \<Rightarrow> int \<Rightarrow> nat \<Rightarrow> bool" where
  "real_split budget frontier_idx key f q \<longleftrightarrow>
     (\<exists>ft ff. ft + ff \<le> budget \<and> f = reached_frontier frontier_idx key ft ff \<and> q = split_pos budget ft ff)"

lemma kept_chain_covers:
  fixes budget p s sel
  defines "arr \<equiv> song_splits budget p s sel"
  assumes "chains_ok constant (sp_residual arr) V cs" "(f, q) \<in> V"
    and "constant = (Max (set (sp_primary arr)) = 0 \<and> Max (set (sp_secondary arr)) = 0)"
    and "\<And>f q. (f, q) \<in> V \<Longrightarrow> real_split budget frontier_idx key f q"
  shows "\<exists>c \<in> set cs. ch_frontier c = f \<and> (\<exists>r \<in> set (kept_chain constant arr c). split_covers arr r q)"
proof -
  obtain c where c: "c \<in> set cs" "ch_frontier c = f"
      "if constant then sp_residual arr ! q \<le> sp_residual arr ! ch_best c else q \<in> set (ch_splits c)"
    using assms(2,3) unfolding chains_ok_def by blast
  have best: "(f, ch_best c) \<in> V" "constant \<or> ch_best c \<in> set (ch_splits c)"
    using assms(2) c(1,2) unfolding chains_ok_def by blast+
  have "\<exists>r \<in> set (kept_chain constant arr c). split_covers arr r q"
  proof (cases "constant = True")
    case True
    have zero: "sp_primary arr ! r = 0" "sp_secondary arr ! r = 0" if "(f, r) \<in> V" for r
      using constant_gains [of budget p s sel] True assms(4) assms(5) [OF that] unfolding real_split_def arr_def by blast+
    then show ?thesis
      using True c(3) zero [OF best(1)] zero [OF assms(3)] by (simp add: kept_chain_def split_covers_def)
  next
    case False
    then have "q \<in> set (ch_splits c)" using c(3) by simp
    then obtain r where r: "r \<in> set (ch_splits c)" "split_covers arr r q"
        "\<And>z. z \<in> set (ch_splits c) \<Longrightarrow> \<not> split_beats arr z r"
      using splits.unbeaten_covers [of "set (ch_splits c)" q budget p s sel] unfolding arr_def by (metis List.finite_set)
    then have "r \<in> set (kept_chain constant arr c)"
      using False best(2) by (auto simp: kept_chain_def list_ex_iff)
    then show ?thesis using r(2) by blast
  qed
  then show ?thesis using c by blast
qed

lemma in_concat_map: "x \<in> set xs \<Longrightarrow> y \<in> set (g x) \<Longrightarrow> y \<in> set (concat (map g xs))"
  by auto

lemma kept_chain_real: "r \<in> set (kept_chain constant arr c) \<Longrightarrow> r = ch_best c \<or> r \<in> set (ch_splits c)"
  by (auto simp: kept_chain_def split: if_splits)

text \<open>The groups of a key are splits of the budget, and every split is covered by one on the same frontier.\<close>

lemma key_groups_lossless:
  assumes "key_groups (song_splits budget p s sel) frontier_idx key = Inr groups"
    and "0 \<le> fst key" "0 \<le> snd key" "1 \<le> budget"
  shows "ft + ff \<le> budget \<Longrightarrow> \<exists>g \<in> set groups. gr_frontier g = reached_frontier frontier_idx key ft ff
      \<and> split_covers (song_splits budget p s sel) (gr_split g) (split_pos budget ft ff)"
    and "g \<in> set groups \<Longrightarrow> real_split budget frontier_idx key (gr_frontier g) (gr_split g)
      \<and> g = split_group (song_splits budget p s sel) (gr_frontier g) (gr_split g)"
proof -
  let ?arr = "song_splits budget p s sel"
  let ?constant = "Max (set (sp_primary ?arr)) = 0 \<and> Max (set (sp_secondary ?arr)) = 0"
  have "nat (sp_residual ?arr ! 0) = budget"
    using song_splits_nth(1) [of 0 0 budget p s sel] by (simp add: split_pos_def)
  moreover have start: "split_pos budget 0 0 = 0" by (simp add: split_pos_def)
  ultimately obtain cs where scan: "scan_ft ?constant (caps_at ?arr (budget + 1)) (caps_at ?arr 1) (sp_residual ?arr)
      frontier_idx (key_stat (fst key)) (key_stat (snd key)) budget 0 (split_pos budget 0 0) [] = Inr cs"
    and groups: "groups = concat (map (\<lambda>c. map (split_group ?arr (ch_frontier c)) (kept_chain ?constant ?arr c)) cs)"
    using assms(1) by (auto simp: key_groups_def Let_def bind_res_eq_Inr caps_at_def)
  obtain V where V: "chains_ok ?constant (sp_residual ?arr) V cs"
    and real: "\<And>f q. (f, q) \<in> V \<Longrightarrow> real_split budget frontier_idx key f q"
    and covered: "\<And>ft ff. ft + ff \<le> budget \<Longrightarrow> (\<exists>q. (reached_frontier frontier_idx key ft ff, q) \<in> V
        \<and> split_covers ?arr q (split_pos budget ft ff))"
    using scan_ft_visits [OF scan chains_ok_empty assms(2-4)] unfolding real_split_def by fast
  show "\<exists>g \<in> set groups. gr_frontier g = reached_frontier frontier_idx key ft ff
      \<and> split_covers ?arr (gr_split g) (split_pos budget ft ff)" if fits: "ft + ff \<le> budget"
  proof -
    obtain q where q: "(reached_frontier frontier_idx key ft ff, q) \<in> V" "split_covers ?arr q (split_pos budget ft ff)"
      using covered [OF fits] by blast
    obtain c r where c: "c \<in> set cs" "ch_frontier c = reached_frontier frontier_idx key ft ff"
        "r \<in> set (kept_chain ?constant ?arr c)" "split_covers ?arr r q"
      using kept_chain_covers [OF V q(1) refl real] by blast
    have "split_group ?arr (ch_frontier c) r \<in> set groups"
      unfolding groups by (rule in_concat_map [OF c(1)]) (use c(3) in simp)
    then show ?thesis
      using c(2) split_covers_trans [OF song_splits_element c(4) q(2)] by (intro bexI) (simp_all add: split_group_def)
  qed
  show "real_split budget frontier_idx key (gr_frontier g) (gr_split g)
      \<and> g = split_group ?arr (gr_frontier g) (gr_split g)" if kept: "g \<in> set groups"
  proof -
    obtain c r where c: "c \<in> set cs" "r \<in> set (kept_chain ?constant ?arr c)" "g = split_group ?arr (ch_frontier c) r"
      using kept unfolding groups by auto
    then have "(ch_frontier c, r) \<in> V" using V kept_chain_real [OF c(2)] unfolding chains_ok_def by blast
    then show ?thesis using real c(3) by (simp add: split_group_def)
  qed
qed


section \<open>A batch gives every loadout its key's groups\<close>

definition loadout_groups :: "gem_groups_of \<Rightarrow> nat \<Rightarrow> gem_group list" where
  "loadout_groups g c =
     (let key = lo_key (gg_loadouts g ! c); start = gg_key_starts g ! key
      in take (gg_key_starts g ! (key + 1) - start) (drop start (gg_groups g)))"

text \<open>What a song's memo may hold: the groups of the keys it names (keys of 32 bits pack into one number).\<close>

definition int32_key :: "int \<times> int \<Rightarrow> bool" where
  "int32_key key \<longleftrightarrow> - (2 ^ 31) \<le> fst key \<and> fst key < 2 ^ 31 \<and> - (2 ^ 31) \<le> snd key \<and> snd key < 2 ^ 31"

definition memo_ok :: "split_arrays \<Rightarrow> int list list \<Rightarrow> (int, gem_group list) dict \<Rightarrow> bool" where
  "memo_ok arr frontier_idx memo \<longleftrightarrow>
     (\<forall>key groups. int32_key key \<longrightarrow> map_of memo (pack_key key) = Some groups \<longrightarrow> key_groups arr frontier_idx key = Inr groups)"

lemma pack_key_inject:
  assumes "int32_key key" "int32_key key'" "pack_key key = pack_key key'"
  shows "key = key'"
proof -
  have *: "fst key * 4294967296 + snd key = fst key' * 4294967296 + snd key'"
    using assms(3) by (simp add: pack_key_def)
  then have "fst key = fst key'" using assms(1,2) by (simp add: int32_key_def)
  moreover have "snd key = snd key'" using * calculation by simp
  ultimately show ?thesis by (simp add: prod_eq_iff)
qed

lemma key_place_nth: "x \<in> set xs \<Longrightarrow> key_place x xs < length xs \<and> xs ! key_place x xs = x"
  unfolding key_place_def by (induction xs) auto

lemma fold_update_lookup:
  "map_of (fold (\<lambda>(k, v). AList.update k v) kvs m) k = Some v \<Longrightarrow> (k, v) \<in> set kvs \<or> map_of m k = Some v"
proof (induction kvs arbitrary: m)
  case (Cons kv kvs)
  obtain a b where kv: "kv = (a, b)" by (cases kv)
  then show ?case using Cons.IH [of "AList.update a b m"] Cons.prems by (auto split: if_splits)
qed simp

lemma split_counts_concat: "split_counts (map length xss) (concat xss) = xss"
  by (induction xss) auto

lemma concat_slice:
  "k < length xss \<Longrightarrow> take (length (xss ! k)) (drop (sum_list (map length (take k xss))) (concat xss)) = xss ! k"
  by (induction xss arbitrary: k) (auto simp: nth_Cons take_Cons split: nat.splits)

lemma concat_starts:
  "k < length xss \<Longrightarrow> sum_list (map length (take (Suc k) xss)) = sum_list (map length (take k xss)) + length (xss ! k)"
  by (simp add: take_Suc_conv_app_nth)

lemma gem_groups_rows:
  assumes "gem_groups comps p s sel frontier_idx total_notes memo = Inr g"
    and "memo_ok (song_splits (nat GEM_BUDGET) p s sel) frontier_idx (me_key_groups memo)"
    and "\<And>row. row \<in> set comps \<Longrightarrow> int32_key (fever_key row)"
  shows "memo_ok (song_splits (nat GEM_BUDGET) p s sel) frontier_idx (me_key_groups (gg_memo g))"
    and "c < length comps \<Longrightarrow>
      key_groups (song_splits (nat GEM_BUDGET) p s sel) frontier_idx (fever_key (comps ! c)) = Inr (loadout_groups g c)"
    and "c < length comps \<Longrightarrow> comps ! c = (pp, cm, fm, pv, sv, ft, ff) \<Longrightarrow>
      lo_pp (gg_loadouts g ! c) = pp \<and> lo_cm (gg_loadouts g ! c) = cm \<and> lo_fm (gg_loadouts g ! c) = fm
        \<and> lo_primary (gg_loadouts g ! c) = pv \<and> lo_secondary (gg_loadouts g ! c) = sv"
proof -
  let ?arr = "song_splits (nat GEM_BUDGET) p s sel" and ?known = "me_key_groups memo"
  define packed where "packed = map (pack_key \<circ> fever_key) comps"
  define packed_keys where "packed_keys = sort (remdups packed)"
  define keys where "keys = map (\<lambda>k. fever_key (comps ! key_place k packed)) packed_keys"
  define new where "new = filter (\<lambda>i. map_of ?known (packed_keys ! i) = None) [0..<length packed_keys]"
  obtain known key_rows where known: "(if new = [] then Inr ?known
      else bind_res (kept_splits (map (\<lambda>i. keys ! i) new) ?arr frontier_idx) (\<lambda>(rows, counts).
        Inr (fold (\<lambda>(k, kept). AList.update k kept) (zip (map (\<lambda>i. packed_keys ! i) new) (split_counts counts rows)) ?known)))
      = Inr known"
    and rows: "map_res (lookup known) packed_keys = Inr key_rows"
    and g: "gg_loadouts g = map2 (\<lambda>(pp, cm, fm, primary, secondary, ft, ff) key.
        \<lparr>lo_pp = pp, lo_cm = cm, lo_fm = fm, lo_primary = primary, lo_secondary = secondary, lo_key = key\<rparr>) comps
          (map (\<lambda>k. key_place k packed_keys) packed)"
      "gg_key_starts g = map (\<lambda>i. sum_list (map length (take i key_rows))) [0..<length key_rows + 1]"
      "gg_groups g = concat key_rows" "me_key_groups (gg_memo g) = known"
    using assms(1) unfolding gem_groups_def Let_def packed_def [symmetric] packed_keys_def [symmetric]
      keys_def [symmetric] new_def [symmetric]
    by (auto simp: bind_res_eq_Inr split: if_splits)
  have member: "k \<in> set packed" if "k \<in> set packed_keys" for k using that by (simp add: packed_keys_def)
  have key: "keys ! i \<in> fever_key ` set comps \<and> pack_key (keys ! i) = packed_keys ! i" if "i < length packed_keys" for i
  proof -
    let ?j = "key_place (packed_keys ! i) packed"
    have "?j < length comps" "packed ! ?j = packed_keys ! i"
      using key_place_nth [OF member [OF nth_mem [OF that]]] by (simp_all add: packed_def)
    then show ?thesis using that by (simp add: keys_def packed_def)
  qed
  show ok: "memo_ok ?arr frontier_idx (me_key_groups (gg_memo g))"
    unfolding memo_ok_def g(4)
  proof (intro allI impI)
    fix k groups assume k: "int32_key k" "map_of known (pack_key k) = Some groups"
    show "key_groups ?arr frontier_idx k = Inr groups"
    proof (cases "map_of ?known (pack_key k) = Some groups")
      case True
      then show ?thesis using assms(2) k(1) unfolding memo_ok_def by blast
    next
      case False
      then obtain gs where gs: "map_res (key_groups ?arr frontier_idx) (map (\<lambda>i. keys ! i) new) = Inr gs"
        and "known = fold (\<lambda>(k, kept). AList.update k kept) (zip (map (\<lambda>i. packed_keys ! i) new) gs) ?known"
        using known k(2) by (auto simp: kept_splits_def bind_res_eq_Inr split_counts_concat split: if_splits)
      then have "(pack_key k, groups) \<in> set (zip (map (\<lambda>i. packed_keys ! i) new) gs)"
        using fold_update_lookup [of _ ?known "pack_key k" groups] k(2) False by blast
      then obtain j where j: "j < length new" "packed_keys ! (new ! j) = pack_key k" "gs ! j = groups"
        using map_res_length [OF gs] by (auto simp: set_zip)
      then have i: "new ! j < length packed_keys" using nth_mem [OF j(1)] by (simp add: new_def)
      have "int32_key (keys ! (new ! j))" using key [OF i] assms(3) by auto
      then have "keys ! (new ! j) = k" using key [OF i] j(2) k(1) pack_key_inject by metis
      then show ?thesis using map_res_nth [OF gs, of j] j by simp
    qed
  qed
  show "key_groups ?arr frontier_idx (fever_key (comps ! c)) = Inr (loadout_groups g c)" if c: "c < length comps"
  proof -
    let ?k = "pack_key (fever_key (comps ! c))"
    let ?i = "key_place ?k packed_keys"
    have "?k \<in> set packed_keys" using c by (auto simp: packed_keys_def packed_def)
    then have i: "?i < length packed_keys" "packed_keys ! ?i = ?k" using key_place_nth by metis+
    have len: "length key_rows = length packed_keys" by (rule map_res_length [OF rows])
    have "lookup known ?k = Inr (key_rows ! ?i)" using map_res_nth [OF rows i(1)] i(2) by simp
    then have "map_of known ?k = Some (key_rows ! ?i)" by (simp add: lookup_def split: option.splits)
    moreover have "int32_key (fever_key (comps ! c))" using assms(3) c by simp
    ultimately have "key_groups ?arr frontier_idx (fever_key (comps ! c)) = Inr (key_rows ! ?i)"
      using ok unfolding memo_ok_def g(4) by blast
    moreover have "lo_key (gg_loadouts g ! c) = ?i"
      using c by (simp add: g(1) packed_def split: prod.splits)
    then have "loadout_groups g c = key_rows ! ?i"
      using i(1) len concat_slice [of ?i key_rows] concat_starts [of ?i key_rows]
      by (simp add: loadout_groups_def Let_def g(2,3) nth_append del: upt_Suc)
    ultimately show ?thesis by simp
  qed
  show "lo_pp (gg_loadouts g ! c) = pp \<and> lo_cm (gg_loadouts g ! c) = cm \<and> lo_fm (gg_loadouts g ! c) = fm
      \<and> lo_primary (gg_loadouts g ! c) = pv \<and> lo_secondary (gg_loadouts g ! c) = sv"
    if "c < length comps" "comps ! c = (pp, cm, fm, pv, sv, ft, ff)"
    using that by (simp add: g(1) packed_def)
qed

end
