(* ===== verification/GemSearch.thy ===== *)
theory GemSearch
  imports GemGroups
begin

text \<open>
  solver/gem_search.py, the search itself: what a gem allocation of a loadout scores on a surface, and that the
  splits GemGroups drops never hold a better one.
\<close>

section \<open>Allocations\<close>

text \<open>Which gem elements raise the song's colors: PP, CM, FM and element gems to the primary and the
  secondary, and whether the song has a single color.\<close>

record gem_flags =
  fl_pp_p :: int
  fl_pp_s :: int
  fl_cm_p :: int
  fl_cm_s :: int
  fl_fm_p :: int
  fl_fm_s :: int
  fl_ov_p :: int
  fl_ov_s :: int
  fl_single :: int

definition color_flags :: "string \<Rightarrow> string \<Rightarrow> string \<Rightarrow> gem_flags" where
  "color_flags primary_color secondary_color selected_color =
     \<lparr>fl_pp_p = of_bool (primary_color = gem_element ''Perfect Points''),
      fl_pp_s = of_bool (secondary_color = gem_element ''Perfect Points''),
      fl_cm_p = of_bool (primary_color = gem_element ''Combo Multiplier''),
      fl_cm_s = of_bool (secondary_color = gem_element ''Combo Multiplier''),
      fl_fm_p = of_bool (primary_color = gem_element ''Fever Multiplier''),
      fl_fm_s = of_bool (secondary_color = gem_element ''Fever Multiplier''),
      fl_ov_p = of_bool (selected_color \<noteq> [] \<and> primary_color = selected_color),
      fl_ov_s = of_bool (selected_color \<noteq> [] \<and> secondary_color = selected_color),
      fl_single = of_bool (primary_color = secondary_color)\<rparr>"

definition stat_row :: "int \<Rightarrow> int" where
  "stat_row stat = (if stat < 0 then 0 else if stat > MAX_STAT then MAX_STAT else stat)"

text \<open>A stat curve per gem count, up to the gems that take the stat to its cap.\<close>

definition gem_curve :: "f64 list \<Rightarrow> int \<Rightarrow> int \<Rightarrow> bool \<Rightarrow> f64 list" where
  "gem_curve ref stat gain allowed =
     (let gems = (if allowed then min (max 0 ((MAX_STAT - stat + gain - 1) div gain)) GEM_BUDGET else 0)
      in map (\<lambda>k. ref ! nat (stat_row (stat + int k * gain))) [0..<nat gems + 1])"

text \<open>The Perfect Points, Combo Multiplier, combo ramp and Fever Multiplier tables.\<close>

record gem_tables =
  gt_pp :: "f64 list"
  gt_cm :: "f64 list"
  gt_ramp :: "f64 list list"
  gt_fm :: "f64 list"

definition allow_pp :: "gem_flags \<Rightarrow> bool" where
  "allow_pp fl \<longleftrightarrow> STAT_GEM_ELEMENT_GAIN * fl_pp_p fl \<noteq> 0 \<or> STAT_GEM_ELEMENT_GAIN * fl_pp_s fl \<noteq> 0"

definition pp_curve :: "gem_flags \<Rightarrow> gem_tables \<Rightarrow> gem_loadout \<Rightarrow> f64 list" where
  "pp_curve fl tables lo = gem_curve (gt_pp tables) (lo_pp lo) STAT_GEM_GAIN_NORMAL (allow_pp fl)"

definition cm_curve :: "gem_tables \<Rightarrow> gem_loadout \<Rightarrow> f64 list" where
  "cm_curve tables lo = gem_curve (gt_cm tables) (lo_cm lo) STAT_GEM_GAIN_NORMAL True"

definition fm_curve :: "gem_tables \<Rightarrow> gem_loadout \<Rightarrow> f64 list" where
  "fm_curve tables lo = gem_curve (gt_fm tables) (lo_fm lo) STAT_GEM_GAIN_FEVER True"

text \<open>The gem counts the search's three loops visit: PP, CM and FM gems, the rest element gems.\<close>

definition feasible :: "gem_flags \<Rightarrow> gem_tables \<Rightarrow> gem_loadout \<Rightarrow> int \<Rightarrow> nat \<times> nat \<times> nat \<Rightarrow> bool" where
  "feasible fl tables lo residual = (\<lambda>(g_pp, g_cm, g_fm).
     g_cm < length (cm_curve tables lo) \<and> g_fm < length (fm_curve tables lo) \<and> g_pp < length (pp_curve fl tables lo)
     \<and> int g_pp + int g_cm + int g_fm \<le> residual)"

text \<open>An allocation's element values and its score on a surface.\<close>

definition gem_element_value :: "int \<Rightarrow> int \<Rightarrow> int \<Rightarrow> int \<Rightarrow> int \<Rightarrow> int \<Rightarrow> nat \<times> nat \<times> nat \<Rightarrow> int" where
  "gem_element_value current pp_delta cm_delta fm_delta ov_delta residual = (\<lambda>(g_pp, g_cm, g_fm).
     current + int g_cm * cm_delta + int g_fm * fm_delta + (residual - int g_cm - int g_fm) * ov_delta
     + int g_pp * (pp_delta - ov_delta))"

definition gem_primary :: "gem_flags \<Rightarrow> int \<Rightarrow> int \<Rightarrow> nat \<times> nat \<times> nat \<Rightarrow> int" where
  "gem_primary fl cur_primary =
     gem_element_value cur_primary (STAT_GEM_ELEMENT_GAIN * fl_pp_p fl) (STAT_GEM_ELEMENT_GAIN * fl_cm_p fl)
       (STAT_GEM_ELEMENT_GAIN * fl_fm_p fl) (ELEMENT_GEM_GAIN * fl_ov_p fl)"

definition gem_secondary :: "gem_flags \<Rightarrow> int \<Rightarrow> int \<Rightarrow> nat \<times> nat \<times> nat \<Rightarrow> int" where
  "gem_secondary fl cur_secondary =
     gem_element_value cur_secondary (STAT_GEM_ELEMENT_GAIN * fl_pp_s fl) (STAT_GEM_ELEMENT_GAIN * fl_cm_s fl)
       (STAT_GEM_ELEMENT_GAIN * fl_fm_s fl) (ELEMENT_GEM_GAIN * fl_ov_s fl)"

definition allocation_score :: "gem_flags \<Rightarrow> gem_tables \<Rightarrow> gem_loadout \<Rightarrow> nat \<times> int \<Rightarrow> int list \<Rightarrow> int \<times> int \<times> int \<Rightarrow>
    int \<Rightarrow> int \<Rightarrow> int \<Rightarrow> nat \<times> nat \<times> nat \<Rightarrow> int" where
  "allocation_score fl tables lo notes words counts cur_primary cur_secondary residual = (\<lambda>(g_pp, g_cm, g_fm).
     surface_score words counts notes
       (gem_primary fl cur_primary residual (g_pp, g_cm, g_fm)) (gem_secondary fl cur_secondary residual (g_pp, g_cm, g_fm))
       (pp_curve fl tables lo ! g_pp)
       (cm_curve tables lo ! g_cm, gt_ramp tables ! nat (stat_row (lo_cm lo + int g_cm * STAT_GEM_GAIN_NORMAL)),
        fm_curve tables lo ! g_fm)
       (fl_single fl \<noteq> 0))"

section \<open>A Great's base, exactly\<close>

text \<open>The nearest float to a third of an integer, a little below it, still floors to the integer's third.\<close>

lemma r64_at_quantum:
  "y \<noteq> 0 \<Longrightarrow> quantum_exp 53 (- 1074) y = e \<Longrightarrow> r64 y = of_int (rne (y / 2 powi e)) * 2 powi e"
  by (simp add: r64_def fround_def Let_def)

lemma le_r64_near:
  assumes "0 < n" "n \<le> 2 ^ 53"
  shows "of_int n \<le> r64 (of_int n * (1 - 1 / 2 ^ 54))"
proof -
  let ?x = "of_int n :: rat" and ?y = "of_int n * (1 - 1 / 2 ^ 54) :: rat"
  define k where "k = ilog2 ?x"
  have x: "2 powi k \<le> ?x" "?x < 2 powi (k + 1)" "0 < ?x" "?x \<le> 2 ^ 53"
  proof -
    show "0 < ?x" using assms(1) by simp
    then show "2 powi k \<le> ?x" "?x < 2 powi (k + 1)" using ilog2_bounds [of ?x] by (simp_all add: k_def)
    have "(of_int n :: rat) \<le> of_int (2 ^ 53)" using assms(2) by (simp only: of_int_le_iff)
    then show "?x \<le> 2 ^ 53" by simp
  qed
  have k0: "0 \<le> k"
  proof (rule ccontr)
    assume "\<not> 0 \<le> k"
    then have "(2::rat) powi (k + 1) \<le> 2 powi 0" by (intro iffD2 [OF powi_2_le_iff]) simp
    then show False using x(2) assms(1) by simp
  qed
  have y: "?y = ?x - ?x / 2 ^ 54" by (simp add: algebra_simps)
  have y_pos: "0 < ?y" using x(3) by simp
  show ?thesis
  proof (cases "2 powi k \<le> ?y")
    case True
    have "?y < ?x" using x(3) by (simp add: y)
    then have log: "ilog2 ?y = k" using ilog2_unique [OF True] x(2) by simp
    have "k < 53"
    proof (rule ccontr)
      assume "\<not> k < 53"
      then have "(2::rat) powi 53 \<le> 2 powi k" by (intro iffD2 [OF powi_2_le_iff]) simp
      then show False using True \<open>?y < ?x\<close> x(4) by simp
    qed
    then have q: "quantum_exp 53 (- 1074) ?y = k - 52" using log k0 y_pos by (simp add: quantum_exp_def)
    define N where "N = n * 2 ^ nat (52 - k)"
    have pow: "(2::rat) powi (52 - k) = of_int (2 ^ nat (52 - k))" using \<open>k < 53\<close> by (intro powi_2_int) simp
    have scale: "2 powi (52 - k) * 2 powi (k - 52) = (1::rat)" by (simp flip: power_int_add)
    have Nx: "of_int N = ?x * 2 powi (52 - k)" by (simp add: N_def pow)
    have "of_int N < (2::rat) powi (k + 1) * 2 powi (52 - k)" using x(2) by (simp add: Nx)
    also have "\<dots> = 2 ^ 53" by (simp flip: power_int_add)
    finally have N: "(of_int N :: rat) < 2 ^ 53" .
    have yq: "?y / 2 powi (k - 52) = of_int N - of_int N / 2 ^ 54"
    proof -
      have "?y / 2 powi (k - 52) = ?y * 2 powi (52 - k)"
        using scale by (simp add: field_simps)
      then show ?thesis by (simp add: Nx y algebra_simps)
    qed
    have below: "z - 1 / 2 \<le> of_int (rne z)" for z :: rat using rne_error [of z] unfolding abs_le_iff by linarith
    have "of_int N / 2 ^ 54 < (1 / 2 :: rat)" using N by simp
    then have "of_int N - 1 < (of_int (rne (?y / 2 powi (k - 52))) :: rat)"
      using below [of "?y / 2 powi (k - 52)"] unfolding yq by linarith
    then have "N \<le> rne (?y / 2 powi (k - 52))" by linarith
    then have "(of_int N :: rat) * 2 powi (k - 52) \<le> of_int (rne (?y / 2 powi (k - 52))) * 2 powi (k - 52)" by simp
    moreover have "of_int N * 2 powi (k - 52) = ?x" using scale by (simp add: Nx mult.assoc)
    moreover have "r64 ?y = of_int (rne (?y / 2 powi (k - 52))) * 2 powi (k - 52)"
      using y_pos by (intro r64_at_quantum q) simp
    ultimately show ?thesis by simp
  next
    case False
    have "?x / 2 ^ 54 < 1" using x(4) by simp
    then have "?x < 2 powi k + 1" using False y by linarith
    moreover have "(2::rat) powi k = of_int (2 ^ nat k)" by (rule powi_2_int [OF k0])
    ultimately have "n = 2 ^ nat k" using x(1) by linarith
    then have xk: "?x = 2 powi k" using \<open>(2::rat) powi k = of_int (2 ^ nat k)\<close> by simp
    have half: "(2::rat) powi k = 2 * 2 powi (k - 1)" using power_int_add [of "2::rat" 1 "k - 1"] by simp
    have "2 powi (k - 1) \<le> ?y" unfolding y xk half by simp
    then have log: "ilog2 ?y = k - 1" using ilog2_unique [of "k - 1" ?y] False by simp
    have q: "quantum_exp 53 (- 1074) ?y = k - 53" using log k0 y_pos by (simp add: quantum_exp_def)
    have scale: "(2::rat) powi k / 2 powi (k - 53) = 2 ^ 53" by (simp flip: power_int_diff)
    have "?y / 2 powi (k - 53) = 2 ^ 53 - 1 / 2" unfolding y xk diff_divide_distrib using scale by simp
    moreover have "rne (2 ^ 53 - 1 / 2) = 2 ^ 53" by code_simp
    moreover have "r64 ?y = of_int (rne (?y / 2 powi (k - 53))) * 2 powi (k - 53)"
      using y_pos by (intro r64_at_quantum q) simp
    ultimately have "r64 ?y = 2 ^ 53 * 2 powi (k - 53)" by (simp only: of_int_power of_int_numeral)
    also have "\<dots> = ?x" using scale xk by (simp add: field_simps)
    finally show ?thesis by simp
  qed
qed


lemma floor_thirds:
  assumes "0 \<le> m" "m \<le> 2 ^ 51"
  shows "\<lfloor>r64 (of_int m / 3 * (1 - 1 / 2 ^ 54))\<rfloor> = m div 3"
proof -
  let ?x = "of_int m / 3 :: rat" and ?n = "m div 3"
  have "(of_int m :: rat) \<le> of_int (2 ^ 51)" using assms(2) by (simp only: of_int_le_iff)
  then have small: "?x / 2 ^ 54 < 1 / 3" by simp
  have y: "?x * (1 - 1 / 2 ^ 54) = ?x - ?x / 2 ^ 54" by (simp add: algebra_simps)
  have "0 \<le> ?x" using assms(1) by simp
  then have "r64 (?x * (1 - 1 / 2 ^ 54)) \<le> r64 ?x" unfolding y by (intro r64_mono) simp
  moreover have "\<lfloor>r64 ?x\<rfloor> = ?n" using floor_r64_div [of m 3] assms by simp
  ultimately have "\<lfloor>r64 (?x * (1 - 1 / 2 ^ 54))\<rfloor> \<le> ?n" using floor_mono by metis
  moreover have "of_int ?n \<le> r64 (?x * (1 - 1 / 2 ^ 54))"
  proof (cases "m mod 3 = 0")
    case True
    then have m: "m = 3 * ?n" by (simp add: mult.commute mod_0_imp_dvd)
    then have "?x = of_int ?n" by (metis (no_types, opaque_lifting) nonzero_mult_div_cancel_left of_int_mult of_int_numeral zero_neq_numeral)
    moreover have "of_int ?n \<le> r64 (of_int ?n * (1 - 1 / 2 ^ 54))"
    proof (cases "?n = 0")
      case False
      have "(2::int) ^ 51 \<le> 2 ^ 53" by simp
      then show ?thesis using False assms m by (intro le_r64_near) linarith+
    qed simp
    ultimately show ?thesis by simp
  next
    case False
    have "m = 3 * ?n + m mod 3" "1 \<le> m mod 3" using False pos_mod_sign [of 3 m] by (simp, linarith)
    then have "3 * ?n + 1 \<le> m" by linarith
    then have "(of_int (3 * ?n + 1) :: rat) \<le> of_int m" by (simp only: of_int_le_iff)
    then have "of_int ?n \<le> ?x * (1 - 1 / 2 ^ 54)" unfolding y using small by simp
    then show ?thesis using assms by (intro le_r64 is_f64_of_int) (auto simp: abs_le_iff)
  qed
  ultimately show ?thesis by linarith
qed

lemma floor_four_thirds:
  assumes "0 \<le> v" "v \<le> 2 ^ 49"
  shows "\<lfloor>mul64 (r64 (of_int v)) (div64 4 3)\<rfloor> = 4 * v div 3"
proof -
  have d: "div64 4 3 = 4 / 3 * (1 - 1 / 2 ^ 54)" by code_simp
  have r: "r64 (of_int v) = of_int v" using assms by (intro r64_of_int) simp
  have "mul64 (r64 (of_int v)) (div64 4 3) = r64 (of_int (4 * v) / 3 * (1 - 1 / 2 ^ 54))"
    unfolding mul64_def d r by (rule arg_cong [of _ _ r64]) simp
  then show ?thesis using floor_thirds [of "4 * v"] assms by simp
qed

lemma floor_two_thirds:
  assumes "0 \<le> v" "v \<le> 2 ^ 49"
  shows "\<lfloor>mul64 (r64 (of_int v)) (div64 2 3)\<rfloor> = 2 * v div 3"
proof -
  have d: "div64 2 3 = 2 / 3 * (1 - 1 / 2 ^ 54)" by code_simp
  have r: "r64 (of_int v) = of_int v" using assms by (intro r64_of_int) simp
  have "mul64 (r64 (of_int v)) (div64 2 3) = r64 (of_int (2 * v) / 3 * (1 - 1 / 2 ^ 54))"
    unfolding mul64_def d r by (rule arg_cong [of _ _ r64]) simp
  then show ?thesis using floor_thirds [of "2 * v"] assms by simp
qed

text \<open>The base of a Great, before its rounding to a float.\<close>

definition great_value :: "bool \<Rightarrow> int \<Rightarrow> int \<Rightarrow> int" where
  "great_value single primary_val secondary_val =
     (if single then primary_val * 2 + 150
      else \<lfloor>mul64 (r64 (of_int primary_val)) (div64 4 3)\<rfloor>
           + \<lfloor>mul64 (r64 (of_int secondary_val)) (div64 2 3)\<rfloor> + 150)"

text \<open>Colors that move in threes lower no Great as long as they do not lower the Perfect base.\<close>

lemma great_value_mono:
  assumes "0 \<le> p" "p \<le> 2 ^ 49" "0 \<le> s" "s \<le> 2 ^ 49" "0 \<le> p'" "p' \<le> 2 ^ 49" "0 \<le> s'" "s' \<le> 2 ^ 49"
    and "p' = p + 3 * a" "s' = s + 3 * b" "0 \<le> 2 * a + b" "single \<Longrightarrow> a = b"
  shows "great_value single p s \<le> great_value single p' s'"
proof (cases single)
  case True
  then show ?thesis using assms(9,11,12) by (simp add: great_value_def)
next
  case False
  have "4 * p' div 3 = 4 * p div 3 + 4 * a" "2 * s' div 3 = 2 * s div 3 + 2 * b"
    using assms(9,10) by (simp_all add: algebra_simps)
  then show ?thesis
    using False assms(11) by (simp only: great_value_def if_False floor_four_thirds [OF assms(1,2)]
        floor_four_thirds [OF assms(5,6)] floor_two_thirds [OF assms(3,4)] floor_two_thirds [OF assms(7,8)])
qed

section \<open>A score rises with the bases\<close>

lemma note_value_mono:
  assumes "0 \<le> b" "b \<le> b'" "0 \<le> scaling" "0 \<le> fever"
  shows "\<lfloor>mul64 b scaling\<rfloor> \<le> \<lfloor>mul64 b' scaling\<rfloor>"
    and "\<lfloor>mul64 (mul64 b scaling) fever\<rfloor> \<le> \<lfloor>mul64 (mul64 b' scaling) fever\<rfloor>"
  using assms by (auto intro!: floor_mono mul64_mono mul64_nonneg)

lemma surface_score_note_mono:
  assumes "0 \<le> b" "b \<le> b'" "0 \<le> g" "g \<le> g'" "0 \<le> ramp ! i" "0 \<le> fever"
  shows "surface_score_note words b g ramp fever i \<le> surface_score_note words b' g' ramp fever i"
  using note_value_mono [OF assms(1,2,5,6)] note_value_mono [OF assms(3-6)]
  unfolding surface_score_note_def Let_def by (auto simp: min_def)

lemma body_score_mono:
  fixes cv :: int
  assumes "cv \<le> cv'" "fv \<le> fv'" "gc \<le> gc'" "gf \<le> gf'"
    and "0 \<le> bfg" "bfg \<le> bf" "bfg \<le> bg" "bf + bg - bfg \<le> n"
  shows "bf * fv + (n - bf) * cv - (bg - bfg) * max 0 (cv - gc) - bfg * max 0 (fv - gf)
       \<le> bf * fv' + (n - bf) * cv' - (bg - bfg) * max 0 (cv' - gc') - bfg * max 0 (fv' - gf')"
proof -
  have eq: "max 0 (c - g) = c - min c g" for c g :: int by auto
  have "0 \<le> (bf - bfg) * (fv' - fv)" "0 \<le> bfg * (min fv' gf' - min fv gf)"
    "0 \<le> (n - bf - bg + bfg) * (cv' - cv)" "0 \<le> (bg - bfg) * (min cv' gc' - min cv gc)"
    using assms by (auto intro!: mult_nonneg_nonneg simp: min_def)
  then show ?thesis unfolding eq by (simp add: algebra_simps)
qed

text \<open>The body counts of a surface of a song of so many body notes.\<close>

definition counts_ok :: "int \<times> int \<times> int \<Rightarrow> int \<Rightarrow> bool" where
  "counts_ok counts body_total \<longleftrightarrow>
     (let (bf, bg, bfg) = counts in 0 \<le> bfg \<and> bfg \<le> bf \<and> bfg \<le> bg \<and> bf + bg - bfg \<le> body_total)"

lemma surface_score_mono:
  assumes "counts_ok counts body_total" "0 \<le> combo" "0 \<le> fever" "head_len \<le> length ramp" "\<forall>v \<in> set ramp. 0 \<le> v"
    and "0 \<le> pp_factor" "0 \<le> 2 * p + s" "2 * p + s \<le> 2 * p' + s'"
    and "0 \<le> great_value single p s" "great_value single p s \<le> great_value single p' s'"
  shows "surface_score words counts (head_len, body_total) p s pp_factor (combo, ramp, fever) single
       \<le> surface_score words counts (head_len, body_total) p' s' pp_factor (combo, ramp, fever) single"
proof -
  obtain bf bg bfg where counts: "counts = (bf, bg, bfg)" by (cases counts)
  have ok: "0 \<le> bfg" "bfg \<le> bf" "bfg \<le> bg" "bf + bg - bfg \<le> body_total"
    using assms(1) by (simp_all add: counts counts_ok_def)
  let ?greats = "bg > 0 \<or> words ! 4 OR words ! 5 OR words ! 6 OR words ! 7 \<noteq> 0"
  define b b' where "b = add64 (r64 (of_int (p * 2 + s))) pp_factor" and "b' = add64 (r64 (of_int (p' * 2 + s'))) pp_factor"
  define g g' where "g = (if ?greats then r64 (of_int (great_value single p s)) else 0)"
    and "g' = (if ?greats then r64 (of_int (great_value single p' s')) else 0)"
  have pos: "0 \<le> p * 2 + s" "p * 2 + s \<le> p' * 2 + s'" using assms(7,8) by linarith+
  have b: "0 \<le> b" "b \<le> b'"
    unfolding b_def b'_def add64_def using pos assms(6)
    by (auto intro!: r64_nonneg r64_mono add_nonneg_nonneg add_mono simp del: of_int_add of_int_mult simp: of_int_0_le_iff)
  have g: "0 \<le> g" "g \<le> g'" unfolding g_def g'_def using assms(9,10) by (auto intro!: r64_nonneg r64_mono)
  have heads: "(\<Sum>i\<leftarrow>[0..<head_len]. surface_score_note words b g ramp fever i)
      \<le> (\<Sum>i\<leftarrow>[0..<head_len]. surface_score_note words b' g' ramp fever i)"
    using assms(3-5) by (intro sum_list_mono_upt surface_score_note_mono b g) auto
  note perfect = note_value_mono [OF b assms(2,3)] and great = note_value_mono [OF g assms(2,3)]
  have none: "bg = 0 \<and> bfg = 0" if "\<not> 0 < bg" using ok that by linarith
  have score: "surface_score words counts (head_len, body_total) q t pp_factor (combo, ramp, fever) single
      = bf * \<lfloor>mul64 (mul64 x combo) fever\<rfloor> + (body_total - bf) * \<lfloor>mul64 x combo\<rfloor>
        - (bg - bfg) * max 0 (\<lfloor>mul64 x combo\<rfloor> - \<lfloor>mul64 y combo\<rfloor>)
        - bfg * max 0 (\<lfloor>mul64 (mul64 x combo) fever\<rfloor> - \<lfloor>mul64 (mul64 y combo) fever\<rfloor>)
        + (\<Sum>i\<leftarrow>[0..<head_len]. surface_score_note words x y ramp fever i)"
    if "x = add64 (r64 (of_int (q * 2 + t))) pp_factor"
      "y = (if ?greats then r64 (of_int (great_value single q t)) else 0)" for q t x y
    unfolding surface_score_def Let_def counts that great_value_def [symmetric] case_prod_conv
    by (cases "0 < bg") (simp_all add: none)
  show ?thesis
    unfolding score [OF b_def g_def] score [OF b'_def g'_def]
    by (intro add_mono body_score_mono perfect great ok heads)
qed


section \<open>A covering split serves as well\<close>

text \<open>The curves a song's tables give: no value is negative, and the ramp has the head's notes.\<close>

definition tables_ok :: "gem_tables \<Rightarrow> nat \<Rightarrow> bool" where
  "tables_ok tables head_len \<longleftrightarrow>
     length (gt_pp tables) = nat MAX_STAT + 1 \<and> length (gt_cm tables) = nat MAX_STAT + 1
     \<and> length (gt_fm tables) = nat MAX_STAT + 1 \<and> length (gt_ramp tables) = nat MAX_STAT + 1
     \<and> (\<forall>v \<in> set (gt_pp tables) \<union> set (gt_cm tables) \<union> set (gt_fm tables). 0 \<le> v)
     \<and> (\<forall>ramp \<in> set (gt_ramp tables). head_len \<le> length ramp \<and> (\<forall>v \<in> set ramp. 0 \<le> v))"

lemma stat_row_less: "nat (stat_row v) < nat MAX_STAT + 1"
  by (auto simp: stat_row_def rules_defs nat_less_iff)

lemma gem_curve_nonneg:
  assumes "\<forall>v \<in> set ref. 0 \<le> v" "length ref = nat MAX_STAT + 1" "k < length (gem_curve ref stat gain allowed)"
  shows "0 \<le> gem_curve ref stat gain allowed ! k"
proof -
  have "ref ! nat (stat_row (stat + int k * gain)) \<in> set ref" using assms(2) stat_row_less by (intro nth_mem) simp
  then show ?thesis using assms(1,3) by (auto simp: gem_curve_def Let_def simp del: upt_Suc)
qed

lemma allocation_score_mono:
  assumes "tables_ok tables head_len" "counts_ok counts body_total"
    and "g_pp < length (pp_curve fl tables lo)" "g_cm < length (cm_curve tables lo)" "g_fm < length (fm_curve tables lo)"
    and "gem_primary fl p residual (g_pp, g_cm, g_fm) = x" "gem_secondary fl s residual (g_pp, g_cm, g_fm) = y"
    and "gem_primary fl p' residual' (g_pp, g_cm, g_fm) = x'" "gem_secondary fl s' residual' (g_pp, g_cm, g_fm) = y'"
    and "0 \<le> 2 * x + y" "2 * x + y \<le> 2 * x' + y'"
    and "0 \<le> great_value (fl_single fl \<noteq> 0) x y" "great_value (fl_single fl \<noteq> 0) x y \<le> great_value (fl_single fl \<noteq> 0) x' y'"
  shows "allocation_score fl tables lo (head_len, body_total) words counts p s residual (g_pp, g_cm, g_fm)
      \<le> allocation_score fl tables lo (head_len, body_total) words counts p' s' residual' (g_pp, g_cm, g_fm)"
proof -
  let ?ramp = "gt_ramp tables ! nat (stat_row (lo_cm lo + int g_cm * STAT_GEM_GAIN_NORMAL))"
  have lengths: "length (gt_pp tables) = nat MAX_STAT + 1" "length (gt_cm tables) = nat MAX_STAT + 1"
    "length (gt_fm tables) = nat MAX_STAT + 1" "length (gt_ramp tables) = nat MAX_STAT + 1"
    and nonneg: "\<forall>v \<in> set (gt_pp tables). 0 \<le> v" "\<forall>v \<in> set (gt_cm tables). 0 \<le> v" "\<forall>v \<in> set (gt_fm tables). 0 \<le> v"
    and ramps: "\<forall>ramp \<in> set (gt_ramp tables). head_len \<le> length ramp \<and> (\<forall>v \<in> set ramp. 0 \<le> v)"
    using assms(1) unfolding tables_ok_def by blast+
  have "?ramp \<in> set (gt_ramp tables)" using lengths(4) stat_row_less by (intro nth_mem) simp
  then have ramp: "head_len \<le> length ?ramp" "\<forall>v \<in> set ?ramp. 0 \<le> v" using ramps by blast+
  have mult: "0 \<le> pp_curve fl tables lo ! g_pp" "0 \<le> cm_curve tables lo ! g_cm" "0 \<le> fm_curve tables lo ! g_fm"
    using gem_curve_nonneg [OF nonneg(1) lengths(1)] gem_curve_nonneg [OF nonneg(2) lengths(2)]
      gem_curve_nonneg [OF nonneg(3) lengths(3)] assms(3-5) unfolding pp_curve_def cm_curve_def fm_curve_def by blast+
  show ?thesis
    unfolding allocation_score_def case_prod_conv assms(6-9)
    by (rule surface_score_mono [OF assms(2) mult(2,3) ramp mult(1) assms(10-13)])
qed

lemma color_gain_thirds:
  assumes "ft + ff \<le> budget" "ft' + ff' \<le> budget"
  obtains a where "color_gains budget color ! split_pos budget ft' ff'
      = color_gains budget color ! split_pos budget ft ff + 3 * a"
proof -
  have "\<exists>a. ft_gain color = 3 * a" "\<exists>a. ff_gain color = 3 * a"
    by (simp_all add: ft_gain_def ff_gain_def rules_defs)
  then obtain a b where ab: "ft_gain color = 3 * a" "ff_gain color = 3 * b" by blast
  show thesis
    by (rule that [of "(int ft' - int ft) * a + (int ff' - int ff) * b"])
      (simp add: color_gains_nth [OF assms(1)] color_gains_nth [OF assms(2)] ab algebra_simps)
qed

text \<open>A song whose primary and secondary are one color gains alike on both.\<close>

lemma song_splits_single: "sp_secondary (song_splits budget p p sel) = sp_primary (song_splits budget p p sel)"
  by (simp add: song_splits_def)

lemma gem_element_value_shift:
  "gem_element_value c' pp cm fm ov r' alloc = gem_element_value c pp cm fm ov r alloc + (c' - c) + ov * (r' - r)"
  by (cases alloc) (simp add: gem_element_value_def algebra_simps)

text \<open>The element values a song's loadouts can have with any gems stay below this.\<close>

definition color_bound :: int where "color_bound = 2 ^ 40"


lemma gem_element_value_bounds:
  assumes "feasible fl tables lo residual alloc"
    and "0 \<le> pp" "pp \<le> 6" "0 \<le> cm" "cm \<le> 6" "0 \<le> fm" "fm \<le> 6" "0 \<le> ov" "ov \<le> 6"
  shows "c \<le> gem_element_value c pp cm fm ov residual alloc" "gem_element_value c pp cm fm ov residual alloc \<le> c + 6 * residual"
proof -
  obtain g_pp g_cm g_fm where alloc: "alloc = (g_pp, g_cm, g_fm)" by (cases alloc)
  define el where "el = residual - int g_pp - int g_cm - int g_fm"
  have el: "0 \<le> el" "residual = int g_pp + int g_cm + int g_fm + el"
    using assms(1) by (simp_all add: feasible_def alloc el_def)
  have sum: "gem_element_value c pp cm fm ov residual alloc = c + int g_pp * pp + int g_cm * cm + int g_fm * fm + el * ov"
    by (simp add: gem_element_value_def alloc el(2) algebra_simps)
  have low: "0 \<le> int g_pp * pp" "0 \<le> int g_cm * cm" "0 \<le> int g_fm * fm" "0 \<le> el * ov"
    using assms el by (auto intro: mult_nonneg_nonneg)
  have high: "int g_pp * pp \<le> int g_pp * 6" "int g_cm * cm \<le> int g_cm * 6" "int g_fm * fm \<le> int g_fm * 6" "el * ov \<le> el * 6"
    using assms(3,5,7,9) el by (intro mult_left_mono; simp)+
  show "c \<le> gem_element_value c pp cm fm ov residual alloc" unfolding sum using low by linarith
  show "gem_element_value c pp cm fm ov residual alloc \<le> c + 6 * residual" unfolding sum using high el(2) by linarith
qed

lemma color_flags_bounds:
  "0 \<le> STAT_GEM_ELEMENT_GAIN * fl_pp_p (color_flags p s sel)" "STAT_GEM_ELEMENT_GAIN * fl_pp_p (color_flags p s sel) \<le> 6"
  "0 \<le> STAT_GEM_ELEMENT_GAIN * fl_pp_s (color_flags p s sel)" "STAT_GEM_ELEMENT_GAIN * fl_pp_s (color_flags p s sel) \<le> 6"
  "0 \<le> STAT_GEM_ELEMENT_GAIN * fl_cm_p (color_flags p s sel)" "STAT_GEM_ELEMENT_GAIN * fl_cm_p (color_flags p s sel) \<le> 6"
  "0 \<le> STAT_GEM_ELEMENT_GAIN * fl_cm_s (color_flags p s sel)" "STAT_GEM_ELEMENT_GAIN * fl_cm_s (color_flags p s sel) \<le> 6"
  "0 \<le> STAT_GEM_ELEMENT_GAIN * fl_fm_p (color_flags p s sel)" "STAT_GEM_ELEMENT_GAIN * fl_fm_p (color_flags p s sel) \<le> 6"
  "0 \<le> STAT_GEM_ELEMENT_GAIN * fl_fm_s (color_flags p s sel)" "STAT_GEM_ELEMENT_GAIN * fl_fm_s (color_flags p s sel) \<le> 6"
  "0 \<le> ELEMENT_GEM_GAIN * fl_ov_p (color_flags p s sel)" "ELEMENT_GEM_GAIN * fl_ov_p (color_flags p s sel) \<le> 6"
  "0 \<le> ELEMENT_GEM_GAIN * fl_ov_s (color_flags p s sel)" "ELEMENT_GEM_GAIN * fl_ov_s (color_flags p s sel) \<le> 6"
  by (simp_all add: color_flags_def rules_defs)

lemma gain_sum_bounds:
  "0 \<le> int i * ft_gain c + int j * ff_gain c" "int i * ft_gain c + int j * ff_gain c \<le> 3 * int (i + j)"
proof -
  have "ft_gain c \<le> 3" "ff_gain c \<le> 3" by (simp_all add: ft_gain_def ff_gain_def rules_defs)
  then have "int i * ft_gain c \<le> int i * 3" "int j * ff_gain c \<le> int j * 3" by (intro mult_left_mono; simp)+
  then show "int i * ft_gain c + int j * ff_gain c \<le> 3 * int (i + j)" by simp
  show "0 \<le> int i * ft_gain c + int j * ff_gain c" by simp
qed

text \<open>On a covering split the same PP, CM and FM gems, with the rest on the element, score no less.\<close>

lemma covering_split_scores:
  fixes budget p s sel
  defines "arr \<equiv> song_splits budget p s sel" and "fl \<equiv> color_flags p s sel"
  assumes "tables_ok tables head_len" "counts_ok counts body_total" "sel \<noteq> []"
    and "split_covers arr (split_pos budget ft' ff') (split_pos budget ft ff)" "ft + ff \<le> budget" "ft' + ff' \<le> budget"
    and "budget \<le> 2 ^ 30" "0 \<le> pv" "pv \<le> color_bound" "0 \<le> sv" "sv \<le> color_bound"
    and "feasible fl tables lo (sp_residual arr ! split_pos budget ft ff) alloc"
  shows "feasible fl tables lo (sp_residual arr ! split_pos budget ft' ff') alloc
    \<and> allocation_score fl tables lo (head_len, body_total) words counts (pv + sp_primary arr ! split_pos budget ft ff)
         (sv + sp_secondary arr ! split_pos budget ft ff) (sp_residual arr ! split_pos budget ft ff) alloc
    \<le> allocation_score fl tables lo (head_len, body_total) words counts (pv + sp_primary arr ! split_pos budget ft' ff')
         (sv + sp_secondary arr ! split_pos budget ft' ff') (sp_residual arr ! split_pos budget ft' ff') alloc"
proof
  let ?o = "split_pos budget ft ff" and ?n = "split_pos budget ft' ff'"
  obtain g_pp g_cm g_fm where alloc: "alloc = (g_pp, g_cm, g_fm)" by (cases alloc)
  have more: "sp_residual arr ! ?o \<le> sp_residual arr ! ?n" using assms(6) by (simp add: split_covers_def)
  show fits: "feasible fl tables lo (sp_residual arr ! ?n) alloc"
    using assms(14) more by (simp add: feasible_def alloc)
  have lens: "g_pp < length (pp_curve fl tables lo)" "g_cm < length (cm_curve tables lo)" "g_fm < length (fm_curve tables lo)"
    using fits by (simp_all add: feasible_def alloc)
  let ?x = "gem_primary fl (pv + sp_primary arr ! ?o) (sp_residual arr ! ?o) alloc"
  let ?y = "gem_secondary fl (sv + sp_secondary arr ! ?o) (sp_residual arr ! ?o) alloc"
  let ?x' = "gem_primary fl (pv + sp_primary arr ! ?n) (sp_residual arr ! ?n) alloc"
  let ?y' = "gem_secondary fl (sv + sp_secondary arr ! ?n) (sp_residual arr ! ?n) alloc"
  let ?d = "sp_residual arr ! ?n - sp_residual arr ! ?o"
  obtain a where a: "sp_primary arr ! ?n = sp_primary arr ! ?o + 3 * a"
    using color_gain_thirds [OF assms(7,8), of p] by (auto simp: arr_def song_splits_def)
  obtain b where b: "sp_secondary arr ! ?n = sp_secondary arr ! ?o + 3 * b"
    using color_gain_thirds [OF assms(7,8), of s] by (auto simp: arr_def song_splits_def)
  let ?a = "a + 2 * fl_ov_p fl * ?d" and ?b = "b + 2 * fl_ov_s fl * ?d"
  have x': "?x' = ?x + 3 * ?a" and y': "?y' = ?y + 3 * ?b"
    unfolding gem_primary_def gem_secondary_def a b
    using gem_element_value_shift [of "pv + (sp_primary arr ! ?o + 3 * a)" _ _ _ _ "sp_residual arr ! ?n" alloc
        "pv + sp_primary arr ! ?o" "sp_residual arr ! ?o"]
      gem_element_value_shift [of "sv + (sp_secondary arr ! ?o + 3 * b)" _ _ _ _ "sp_residual arr ! ?n" alloc
        "sv + sp_secondary arr ! ?o" "sp_residual arr ! ?o"]
    by (simp_all add: ELEMENT_GEM_GAIN_def)
  have element: "sp_element arr = 6 * (2 * fl_ov_p fl + fl_ov_s fl)"
    using assms(5) by (simp add: arr_def fl_def song_splits_def color_flags_def rules_defs)
  have "split_value arr ?o \<le> split_value arr ?n"
    unfolding arr_def by (rule split_covers_value [OF song_splits_element assms(6) [unfolded arr_def]])
  then have rise: "0 \<le> 2 * ?a + ?b" unfolding split_value_def a b element by (simp add: algebra_simps)
  have same: "?a = ?b" if "fl_single fl \<noteq> 0"
  proof -
    have "p = s" using that by (simp add: fl_def color_flags_def split: if_splits)
    then show ?thesis using a b by (simp add: arr_def fl_def song_splits_def color_flags_def)
  qed
  have gains: "0 \<le> sp_primary arr ! split_pos budget i j \<and> sp_primary arr ! split_pos budget i j \<le> 3 * int budget
      \<and> 0 \<le> sp_secondary arr ! split_pos budget i j \<and> sp_secondary arr ! split_pos budget i j \<le> 3 * int budget
      \<and> 0 \<le> sp_residual arr ! split_pos budget i j \<and> sp_residual arr ! split_pos budget i j \<le> int budget"
    if "i + j \<le> budget" for i j
  proof -
    have "int (i + j) \<le> int budget" using that by simp
    then show ?thesis
      using song_splits_nth [OF that, of p s sel] gain_sum_bounds [of i p j] gain_sum_bounds [of i s j]
      unfolding arr_def by simp
  qed
  have bounds: "0 \<le> gem_primary fl (pv + sp_primary arr ! split_pos budget i j) (sp_residual arr ! split_pos budget i j) alloc"
    "gem_primary fl (pv + sp_primary arr ! split_pos budget i j) (sp_residual arr ! split_pos budget i j) alloc \<le> 2 ^ 49"
    "0 \<le> gem_secondary fl (sv + sp_secondary arr ! split_pos budget i j) (sp_residual arr ! split_pos budget i j) alloc"
    "gem_secondary fl (sv + sp_secondary arr ! split_pos budget i j) (sp_residual arr ! split_pos budget i j) alloc \<le> 2 ^ 49"
    if "i + j \<le> budget" "feasible fl tables lo (sp_residual arr ! split_pos budget i j) alloc" for i j
  proof -
    have small: "int budget \<le> 2 ^ 30" "pv \<le> 2 ^ 40" "sv \<le> 2 ^ 40" using assms(9,11,13) by (simp_all add: color_bound_def)
    note flags = color_flags_bounds [of p s sel, folded fl_def]
    note prim = gem_element_value_bounds [OF that(2) flags(1,2,5,6,9,10,13,14), of "pv + sp_primary arr ! split_pos budget i j"]
    note sec = gem_element_value_bounds [OF that(2) flags(3,4,7,8,11,12,15,16), of "sv + sp_secondary arr ! split_pos budget i j"]
    show "0 \<le> gem_primary fl (pv + sp_primary arr ! split_pos budget i j) (sp_residual arr ! split_pos budget i j) alloc"
      "gem_primary fl (pv + sp_primary arr ! split_pos budget i j) (sp_residual arr ! split_pos budget i j) alloc \<le> 2 ^ 49"
      "0 \<le> gem_secondary fl (sv + sp_secondary arr ! split_pos budget i j) (sp_residual arr ! split_pos budget i j) alloc"
      "gem_secondary fl (sv + sp_secondary arr ! split_pos budget i j) (sp_residual arr ! split_pos budget i j) alloc \<le> 2 ^ 49"
      using prim sec gains [OF that(1)] assms(10,12) small unfolding gem_primary_def gem_secondary_def by simp_all
  qed
  note o = bounds [OF assms(7,14)] and n = bounds [OF assms(8) fits]
  have "0 \<le> great_value (fl_single fl \<noteq> 0) ?x ?y"
    using o by (simp add: great_value_def floor_four_thirds floor_two_thirds)
  moreover have "great_value (fl_single fl \<noteq> 0) ?x ?y \<le> great_value (fl_single fl \<noteq> 0) ?x' ?y'"
    by (rule great_value_mono [OF o n x' y' rise same])
  moreover have "0 \<le> 2 * ?x + ?y" "2 * ?x + ?y \<le> 2 * ?x' + ?y'" using o(1,3) rise unfolding x' y' by simp_all
  ultimately show "allocation_score fl tables lo (head_len, body_total) words counts (pv + sp_primary arr ! ?o)
         (sv + sp_secondary arr ! ?o) (sp_residual arr ! ?o) alloc
      \<le> allocation_score fl tables lo (head_len, body_total) words counts (pv + sp_primary arr ! ?n)
         (sv + sp_secondary arr ! ?n) (sp_residual arr ! ?n) alloc"
    unfolding alloc by (intro allocation_score_mono [OF assms(3,4) lens refl refl refl refl])
qed


lemma gem_groups_cover:
  fixes primary secondary selected
  defines "fl \<equiv> color_flags primary secondary selected"
  assumes "gem_groups comps primary secondary selected frontier_idx total_notes memo = Inr g"
    and "memo_ok (song_splits (nat GEM_BUDGET) primary secondary selected) frontier_idx (me_key_groups memo)"
    and "\<And>row. row \<in> set comps \<Longrightarrow> int32_key (fever_key row)"
    and "c < length comps" "comps ! c = (pp, cm, fm, pv, sv, ft0, ff0)" "0 \<le> ft0" "0 \<le> ff0"
    and "0 \<le> pv" "pv \<le> color_bound" "0 \<le> sv" "sv \<le> color_bound" "selected \<noteq> []"
    and "tables_ok tables head_len" "counts_ok counts body_total"
    and "ft + ff \<le> nat GEM_BUDGET" "feasible fl tables lo (GEM_BUDGET - int ft - int ff) alloc"
  shows "\<exists>gr \<in> set (loadout_groups g c). gr_frontier gr = reached_frontier frontier_idx (ft0, ff0) ft ff
      \<and> feasible fl tables lo (gr_residual gr) alloc
      \<and> allocation_score fl tables lo (head_len, body_total) words counts
           (pv + (int ft * ft_gain primary + int ff * ff_gain primary)) (sv + (int ft * ft_gain secondary + int ff * ff_gain secondary))
           (GEM_BUDGET - int ft - int ff) alloc
         \<le> allocation_score fl tables lo (head_len, body_total) words counts
           (pv + gr_primary gr) (sv + gr_secondary gr) (gr_residual gr) alloc"
proof -
  let ?budget = "nat GEM_BUDGET"
  let ?arr = "song_splits ?budget primary secondary selected" and ?o = "split_pos ?budget ft ff"
  have budget: "1 \<le> ?budget" "?budget \<le> 2 ^ 30" "int ?budget = GEM_BUDGET" by (simp_all add: GEM_BUDGET_def)
  have "fever_key (comps ! c) = (ft0, ff0)" by (simp add: assms(6) fever_key_def)
  then have groups: "key_groups ?arr frontier_idx (ft0, ff0) = Inr (loadout_groups g c)"
    using gem_groups_rows(2) [OF assms(2-4), of c] assms(5) by simp
  have key: "0 \<le> fst (ft0, ff0)" "0 \<le> snd (ft0, ff0)" using assms(7,8) by simp_all
  obtain gr where gr: "gr \<in> set (loadout_groups g c)" "gr_frontier gr = reached_frontier frontier_idx (ft0, ff0) ft ff"
      "split_covers ?arr (gr_split gr) ?o"
    using key_groups_lossless(1) [OF groups key budget(1) assms(16)] by blast
  obtain ft' ff' where real: "ft' + ff' \<le> ?budget" "gr_split gr = split_pos ?budget ft' ff'"
    and fields: "gr = split_group ?arr (gr_frontier gr) (gr_split gr)"
    using key_groups_lossless(2) [OF groups key budget(1) gr(1)] unfolding real_split_def by blast
  have at: "gr_residual gr = sp_residual ?arr ! gr_split gr" "gr_primary gr = sp_primary ?arr ! gr_split gr"
    "gr_secondary gr = sp_secondary ?arr ! gr_split gr"
    by (subst fields, simp add: split_group_def)+
  note o = song_splits_nth [OF assms(16), of primary secondary selected]
  have fits: "feasible (color_flags primary secondary selected) tables lo (sp_residual ?arr ! ?o) alloc"
    using assms(17) unfolding o budget(3) fl_def .
  have covers: "split_covers ?arr (split_pos ?budget ft' ff') ?o" using gr(3) unfolding real(2) .
  from covering_split_scores [OF assms(14,15,13) covers assms(16) real(1) budget(2) assms(9-12) fits, of words]
  have "feasible fl tables lo (gr_residual gr) alloc
      \<and> allocation_score fl tables lo (head_len, body_total) words counts (pv + sp_primary ?arr ! ?o)
           (sv + sp_secondary ?arr ! ?o) (sp_residual ?arr ! ?o) alloc
        \<le> allocation_score fl tables lo (head_len, body_total) words counts
           (pv + gr_primary gr) (sv + gr_secondary gr) (gr_residual gr) alloc"
    unfolding at real(2) fl_def .
  then show ?thesis unfolding o budget(3) using gr(1,2) by (intro bexI [of _ gr] conjI) simp_all
qed

text \<open>The search raises nothing when every fever pair reaches a frontier.\<close>

lemma scan_ff_ok:
  assumes "\<And>n. 0 \<le> row ! nat (ff_stat n)"
  shows "\<exists>r. scan_ff constant ff_caps residual row ff_stat first ff_top ff reached = Inr r"
proof (induction "ff_top + 1 - ff" arbitrary: ff reached)
  case 0
  then show ?case by (simp add: scan_ff.simps)
next
  case (Suc m)
  have "m = ff_top + 1 - (ff + 1)" using Suc.hyps(2) by simp
  moreover have "\<not> ff > ff_top" using Suc.hyps(2) by linarith
  moreover have "\<not> row ! nat (ff_stat ff) < 0" using assms [of ff] by simp
  ultimately show ?case
    using Suc.hyps(1) [of "ff + 1"] by (subst scan_ff.simps) (simp add: Let_def)
qed

lemma scan_ft_ok:
  assumes "\<And>m n. 0 \<le> frontier_idx ! nat (ft_stat m) ! nat (ff_stat n)"
  shows "\<exists>r. scan_ft constant ft_caps ff_caps residual frontier_idx ft_stat ff_stat budget ft first reached = Inr r"
proof (induction "budget + 1 - ft" arbitrary: ft first reached)
  case 0
  then show ?case by (simp add: scan_ft.simps)
next
  case (Suc m)
  have "m = budget + 1 - (ft + 1)" using Suc.hyps(2) by simp
  moreover obtain r where "scan_ff constant ff_caps residual (frontier_idx ! nat (ft_stat ft)) ff_stat first
      (budget - ft) 0 reached = Inr r"
    using scan_ff_ok [where row = "frontier_idx ! nat (ft_stat ft)" and ff_stat = ff_stat] assms by blast
  ultimately show ?case
    using Suc.hyps(1) [of "ft + 1"] by (subst scan_ft.simps) simp
qed

lemma key_groups_ok:
  assumes "\<And>a b. 0 \<le> a \<Longrightarrow> a \<le> MAX_STAT \<Longrightarrow> 0 \<le> b \<Longrightarrow> b \<le> MAX_STAT \<Longrightarrow> 0 \<le> frontier_idx ! nat a ! nat b"
  shows "\<exists>groups. key_groups arr frontier_idx key = Inr groups"
proof -
  have stat: "0 \<le> key_stat v n" "key_stat v n \<le> MAX_STAT" for v n by (simp_all add: key_stat_def MAX_STAT_def)
  have "0 \<le> frontier_idx ! nat (key_stat (fst key) m) ! nat (key_stat (snd key) n)" for m n
    using assms stat by blast
  note scan = scan_ft_ok [where frontier_idx = frontier_idx and ft_stat = "key_stat (fst key)"
    and ff_stat = "key_stat (snd key)", OF this]
  have "\<exists>y. bind_res m (\<lambda>x. Inr (f x)) = Inr y" if "\<exists>r. m = Inr r" for m :: "chain list res" and f :: "chain list \<Rightarrow> gem_group list"
    using that by auto
  from this [OF scan] show ?thesis unfolding key_groups_def Let_def .
qed

lemma gem_groups_one_ok:
  assumes "\<And>a b. 0 \<le> a \<Longrightarrow> a \<le> MAX_STAT \<Longrightarrow> 0 \<le> b \<Longrightarrow> b \<le> MAX_STAT \<Longrightarrow> 0 \<le> frontier_idx ! nat a ! nat b"
  shows "\<exists>g. gem_groups [row] primary secondary selected frontier_idx total_notes
    \<lparr>me_key_groups = [], me_shapes = [], me_done = []\<rparr> = Inr g"
proof -
  obtain groups where "key_groups (song_splits (nat GEM_BUDGET) primary secondary selected) frontier_idx (fever_key row)
      = Inr groups"
    using key_groups_ok [OF assms] by blast
  then show ?thesis
    by (cases row) (simp add: gem_groups_def kept_splits_def key_place_def lookup_def Let_def)
qed

text \<open>C2: the splits the search drops never matter: whatever split of the gem budget a loadout takes, whatever
  surface of the frontier it reaches and whatever PP, CM and FM gems it adds, one of the groups the search
  keeps for the loadout reaches the same frontier and scores no less there with the same PP, CM and FM gems.\<close>

theorem gem_groups_lossless:
  fixes primary secondary selected
  defines "fl \<equiv> color_flags primary secondary selected"
  assumes "gem_groups comps primary secondary selected frontier_idx total_notes memo = Inr g"
    and "memo_ok (song_splits (nat GEM_BUDGET) primary secondary selected) frontier_idx (me_key_groups memo)"
    and "\<And>row. row \<in> set comps \<Longrightarrow> int32_key (fever_key row)"
    and "c < length comps" "comps ! c = (pp, cm, fm, pv, sv, ft0, ff0)" "0 \<le> ft0" "0 \<le> ff0"
    and "0 \<le> pv" "pv \<le> color_bound" "0 \<le> sv" "sv \<le> color_bound" "selected \<noteq> []"
    and "tables_ok tables head_len" "counts_ok counts body_total"
    and "ft + ff \<le> nat GEM_BUDGET" "feasible fl tables lo (GEM_BUDGET - int ft - int ff) alloc"
  shows "\<exists>gr \<in> set (loadout_groups g c). gr_frontier gr = reached_frontier frontier_idx (ft0, ff0) ft ff
      \<and> feasible fl tables lo (gr_residual gr) alloc
      \<and> allocation_score fl tables lo (head_len, body_total) words counts
           (pv + (int ft * ft_gain primary + int ff * ff_gain primary)) (sv + (int ft * ft_gain secondary + int ff * ff_gain secondary))
           (GEM_BUDGET - int ft - int ff) alloc
         \<le> allocation_score fl tables lo (head_len, body_total) words counts
           (pv + gr_primary gr) (sv + gr_secondary gr) (gr_residual gr) alloc"
  unfolding fl_def by (rule gem_groups_cover [OF assms(2-16) assms(17) [unfolded fl_def]])

text \<open>One loadout on a song of a Rush and a Chill color whose fever pairs all reach frontier 0.\<close>

definition flat_tables :: gem_tables where
  "flat_tables = \<lparr>gt_pp = replicate 161 75, gt_cm = replicate 161 2, gt_ramp = replicate 161 (replicate 4 1),
     gt_fm = replicate 161 3\<rparr>"

theorem gem_groups_lossless_witness:
  "\<exists>g. gem_groups [(0, 0, 0, 10, 20, 0, 0)] ''Rush'' ''Chill'' ''Rush'' (replicate 161 (replicate 161 0)) 4
         \<lparr>me_key_groups = [], me_shapes = [], me_done = []\<rparr> = Inr g
    \<and> (\<exists>gr \<in> set (loadout_groups g 0).
         gr_frontier gr = reached_frontier (replicate 161 (replicate 161 0)) (0, 0) 3 4
         \<and> allocation_score (color_flags ''Rush'' ''Chill'' ''Rush'') flat_tables
             \<lparr>lo_pp = 0, lo_cm = 0, lo_fm = 0, lo_primary = 10, lo_secondary = 20, lo_key = 0\<rparr> (4, 0) (replicate 8 0) (0, 0, 0)
             (10 + (3 * ft_gain ''Rush'' + 4 * ff_gain ''Rush'')) (20 + (3 * ft_gain ''Chill'' + 4 * ff_gain ''Chill'')) 83 (1, 2, 3)
           \<le> allocation_score (color_flags ''Rush'' ''Chill'' ''Rush'') flat_tables
             \<lparr>lo_pp = 0, lo_cm = 0, lo_fm = 0, lo_primary = 10, lo_secondary = 20, lo_key = 0\<rparr> (4, 0) (replicate 8 0) (0, 0, 0)
             (10 + gr_primary gr) (20 + gr_secondary gr) (gr_residual gr) (1, 2, 3))"
proof -
  let ?row = "(0, 0, 0, 10, 20, 0, 0) :: components" and ?idx = "replicate 161 (replicate 161 (0::int))"
  let ?memo = "\<lparr>me_key_groups = [], me_shapes = [], me_done = []\<rparr>"
  let ?lo = "\<lparr>lo_pp = 0, lo_cm = 0, lo_fm = 0, lo_primary = 10, lo_secondary = 20, lo_key = 0\<rparr>"
  have "0 \<le> ?idx ! nat a ! nat b" if "0 \<le> a" "a \<le> MAX_STAT" "0 \<le> b" "b \<le> MAX_STAT" for a b
    using that by (simp add: MAX_STAT_def nat_less_iff)
  from gem_groups_one_ok [where frontier_idx = ?idx, OF this]
  obtain g where g: "gem_groups [?row] ''Rush'' ''Chill'' ''Rush'' ?idx 4 ?memo = Inr g" by blast
  have memo: "memo_ok (song_splits (nat GEM_BUDGET) ''Rush'' ''Chill'' ''Rush'') ?idx (me_key_groups ?memo)"
    by (simp add: memo_ok_def)
  have keys: "int32_key (fever_key row)" if "row \<in> set [?row]" for row
    using that by (simp add: fever_key_def int32_key_def)
  have tables: "tables_ok flat_tables 4" by (simp add: tables_ok_def flat_tables_def MAX_STAT_def)
  have counts: "counts_ok (0, 0, 0) 0" by (simp add: counts_ok_def)
  have fits: "feasible (color_flags ''Rush'' ''Chill'' ''Rush'') flat_tables ?lo (GEM_BUDGET - int 3 - int 4) (1, 2, 3)"
    by code_simp
  have small: "0 \<le> (0::int)" "0 \<le> (10::int)" "10 \<le> color_bound" "0 \<le> (20::int)" "20 \<le> color_bound" "''Rush'' \<noteq> []"
      "3 + 4 \<le> nat GEM_BUDGET" "0 < length [?row]" "[?row] ! 0 = ?row" "GEM_BUDGET - int 3 - int 4 = 83"
    by (simp_all add: color_bound_def GEM_BUDGET_def)
  obtain gr where "gr \<in> set (loadout_groups g 0)" "gr_frontier gr = reached_frontier ?idx (0, 0) 3 4"
    and "allocation_score (color_flags ''Rush'' ''Chill'' ''Rush'') flat_tables ?lo (4, 0) (replicate 8 0) (0, 0, 0)
          (10 + (int 3 * ft_gain ''Rush'' + int 4 * ff_gain ''Rush''))
          (20 + (int 3 * ft_gain ''Chill'' + int 4 * ff_gain ''Chill'')) 83 (1, 2, 3)
        \<le> allocation_score (color_flags ''Rush'' ''Chill'' ''Rush'') flat_tables ?lo (4, 0) (replicate 8 0) (0, 0, 0)
          (10 + gr_primary gr) (20 + gr_secondary gr) (gr_residual gr) (1, 2, 3)"
    using gem_groups_lossless [OF g memo keys small(8) small(9) small(1) small(1) small(2-6) tables counts small(7) fits,
        of "replicate 8 0", unfolded small(10)] by blast
  with g show ?thesis by (intro exI [of _ g] conjI bexI [of _ gr]) (simp_all only: of_nat_numeral)
qed

end
