(* ===== verification/Boards.thy ===== *)
theory Boards
  imports Stats Timing "HOL-Library.Product_Lexorder"
begin

text \<open>
  store/records.py and store/boards.py: the leaderboard records of one song and tier with the checks
  their constructors make, and the merge of new results into the song's two boards. A replay
  witness (an encoded trace) is a string the merge only carries.
\<close>

section \<open>Records\<close>

definition SURFACE_SIZE :: nat where "SURFACE_SIZE = 11"
definition LOADOUTS_PER_SONG_LIMIT :: nat where "LOADOUTS_PER_SONG_LIMIT = 51"

record meta_result =
  m_element :: string
  m_gems :: "int list"
  m_stats :: "int list"
  m_updated :: int
  m_seq :: int

record fg_result =
  f_element :: string
  f_gems :: "int list"
  f_stats :: "int list"
  f_surface :: "int list"
  f_updated :: int
  f_seq :: int

record loadout =
  l_mode :: string
  l_song :: string
  l_tier :: string
  l_hash :: string
  l_gear :: "string list"
  l_minis :: "string list list"
  l_primary :: string
  l_secondary :: string
  l_ascension :: "string option"
  l_score :: int
  l_fg_score :: "int option"
  l_meta :: "meta_result option"
  l_fg :: "fg_result option"
  l_on_meta :: bool
  l_on_fg :: bool

definition check_result :: "string \<Rightarrow> int list \<Rightarrow> int list \<Rightarrow> bool" where
  "check_result element gem_counts stat_values \<longleftrightarrow>
     element \<in> set ELEMENTS \<and> length gem_counts = length GEM_KINDS \<and> length stat_values = length STATS"

definition check_meta :: "meta_result \<Rightarrow> bool" where
  "check_meta m \<longleftrightarrow> check_result (m_element m) (m_gems m) (m_stats m)"

definition check_fg :: "fg_result \<Rightarrow> bool" where
  "check_fg f \<longleftrightarrow> check_result (f_element f) (f_gems f) (f_stats f) \<and> length (f_surface f) = SURFACE_SIZE"

text \<open>What \<open>Loadout.__post_init__\<close> requires.\<close>

definition check_loadout :: "loadout \<Rightarrow> bool" where
  "check_loadout l \<longleftrightarrow> l_mode l \<in> set TIMING_MODES \<and> l_tier l \<in> set CANONICAL_TEAM_BUFF_TIERS
     \<and> l_primary l \<in> set ELEMENTS \<and> l_secondary l \<in> set ELEMENTS
     \<and> \<not> (l_meta l = None \<and> l_fg l = None)
     \<and> \<not> (l_fg l \<noteq> None \<and> l_fg_score l = None)
     \<and> \<not> (l_on_meta l \<and> l_meta l = None)
     \<and> \<not> (l_on_fg l \<and> (l_fg l = None \<or> (case l_fg_score l of None \<Rightarrow> True | Some s \<Rightarrow> s \<le> l_score l)))"

definition make_loadout :: "loadout \<Rightarrow> loadout res" where
  "make_loadout l = (if check_loadout l then Inr l else Inl ValueError)"

record row =
  r_loadout :: loadout
  r_meta_trace :: "string option"
  r_fg_trace :: "string option"

section \<open>The merge\<close>

record work =
  w_source :: loadout
  w_score :: "int option"
  w_fg_seen :: int
  w_meta :: "meta_result option"
  w_meta_trace :: "string option"
  w_paired :: "int option"
  w_fg_score :: "int option"
  w_fg :: "fg_result option"
  w_fg_trace :: "string option"

record merge_state =
  s_work :: "(string, work) dict"
  s_meta_seq :: int
  s_fg_seq :: int

definition or_zero :: "int option \<Rightarrow> int" where
  "or_zero v = (case v of None \<Rightarrow> 0 | Some n \<Rightarrow> n)"

definition lift :: "row \<Rightarrow> work" where
  "lift r =
     (let l = r_loadout r; has_meta = (l_meta l \<noteq> None); has_fg = (l_fg l \<noteq> None)
      in \<lparr>w_source = l,
          w_score = (if has_meta then Some (l_score l) else None),
          w_fg_seen = (if has_meta then or_zero (l_fg_score l) else 0),
          w_meta = l_meta l,
          w_meta_trace = r_meta_trace r,
          w_paired = (if has_fg then Some (l_score l) else None),
          w_fg_score = (if has_fg then l_fg_score l else None),
          w_fg = l_fg l,
          w_fg_trace = r_fg_trace r\<rparr>)"

definition new_work :: "loadout \<Rightarrow> work" where
  "new_work l = \<lparr>w_source = l, w_score = None, w_fg_seen = 0, w_meta = None, w_meta_trace = None,
     w_paired = None, w_fg_score = None, w_fg = None, w_fg_trace = None\<rparr>"

definition current_work :: "(string, work) dict \<Rightarrow> loadout \<Rightarrow> work" where
  "current_work d l = (case map_of d (l_hash l) of None \<Rightarrow> new_work l | Some w \<Rightarrow> w)"

text \<open>A comparison with None is a TypeError.\<close>

definition need :: "'a option \<Rightarrow> 'a res" where
  "need v = (case v of None \<Rightarrow> Inl TypeError | Some x \<Rightarrow> Inr x)"

definition merge_meta :: "int \<Rightarrow> row \<Rightarrow> merge_state \<Rightarrow> merge_state res" where
  "merge_meta now result st =
     (let new = r_loadout result
      in case l_meta new of
           None \<Rightarrow> Inr st
         | Some m \<Rightarrow>
             let current = current_work (s_work st) new
             in bind_res
                  (case w_meta current of
                     None \<Rightarrow> Inr (Some (s_meta_seq st), s_meta_seq st + 1)
                   | Some c \<Rightarrow> bind_res (need (w_score current)) (\<lambda>score.
                       Inr (if l_score new > score then Some (m_seq c) else None, s_meta_seq st)))
                  (\<lambda>(seq, next_seq).
                    let stored = (case seq of
                          None \<Rightarrow> current
                        | Some s \<Rightarrow> current\<lparr>w_source := new, w_score := Some (l_score new),
                                      w_meta := Some (m\<lparr>m_seq := s\<rparr>), w_meta_trace := r_meta_trace result\<rparr>);
                        seen = stored\<lparr>w_fg_seen := max (w_fg_seen stored) (or_zero (l_fg_score new)),
                                 w_meta := map_option (\<lambda>c. c\<lparr>m_updated := now\<rparr>) (w_meta stored)\<rparr>
                    in Inr (st\<lparr>s_work := AList.update (l_hash new) seen (s_work st), s_meta_seq := next_seq\<rparr>)))"

definition merge_fg :: "int \<Rightarrow> row \<Rightarrow> merge_state \<Rightarrow> merge_state res" where
  "merge_fg now result st =
     (let new = r_loadout result
      in case l_fg new of
           None \<Rightarrow> Inr st
         | Some f \<Rightarrow>
             let current = current_work (s_work st) new
             in bind_res
                  (case w_fg current of
                     None \<Rightarrow> Inr (Some (s_fg_seq st), s_fg_seq st + 1)
                   | Some c \<Rightarrow> bind_res (need (l_fg_score new)) (\<lambda>new_score.
                       bind_res (need (w_fg_score current)) (\<lambda>score.
                         Inr (if new_score \<ge> score then Some (f_seq c) else None, s_fg_seq st))))
                  (\<lambda>(seq, next_seq).
                    bind_res
                      (case seq of
                         None \<Rightarrow> Inr current
                       | Some s \<Rightarrow>
                           bind_res (case w_fg_score current of
                                       None \<Rightarrow> Inr (l_fg_score new)
                                     | Some score \<Rightarrow> bind_res (need (l_fg_score new)) (\<lambda>v. Inr (Some (max score v))))
                             (\<lambda>fg_score.
                                Inr (current\<lparr>w_source := (if w_meta current = None then new else w_source current),
                                     w_paired := Some (l_score new),
                                     w_fg := Some (f\<lparr>f_seq := s\<rparr>),
                                     w_fg_trace := r_fg_trace result,
                                     w_fg_score := fg_score\<rparr>)))
                      (\<lambda>stored.
                        let seen = stored\<lparr>w_fg := map_option (\<lambda>c. c\<lparr>f_updated := now\<rparr>) (w_fg stored)\<rparr>
                        in Inr (st\<lparr>s_work := AList.update (l_hash new) seen (s_work st), s_fg_seq := next_seq\<rparr>))))"

definition or_none :: "int \<Rightarrow> int option" where
  "or_none n = (if n = 0 then None else Some n)"

text \<open>A loadout whose score would be None has no place in an order: a TypeError.\<close>

definition project :: "work \<Rightarrow> row option res" where
  "project w =
     (if w_meta w = None \<and> w_fg w = None then Inr None
      else bind_res (need (if w_meta w \<noteq> None then w_score w else w_paired w)) (\<lambda>score.
        let fg_score = (if w_fg w \<noteq> None then w_fg_score w else or_none (w_fg_seen w))
        in bind_res (make_loadout ((w_source w)\<lparr>l_score := score, l_fg_score := fg_score, l_meta := w_meta w,
                       l_fg := w_fg w, l_on_meta := False, l_on_fg := False\<rparr>)) (\<lambda>l.
             Inr (Some \<lparr>r_loadout = l, r_meta_trace = (if w_meta w \<noteq> None then w_meta_trace w else None),
                        r_fg_trace = w_fg_trace w\<rparr>))))"

definition meta_rank :: "loadout \<Rightarrow> int \<times> int" where
  "meta_rank l = (- l_score l, m_seq (the (l_meta l)))"

definition fg_rank :: "loadout \<Rightarrow> int \<times> int" where
  "fg_rank l = (- the (l_fg_score l), f_seq (the (l_fg l)))"

definition on_meta_board :: "loadout \<Rightarrow> bool" where
  "on_meta_board l \<longleftrightarrow> l_meta l \<noteq> None"

definition beats_score :: "loadout \<Rightarrow> bool" where
  "beats_score l \<longleftrightarrow> l_fg l \<noteq> None \<and> the (l_fg_score l) > l_score l"

definition board_top :: "(loadout \<Rightarrow> bool) \<Rightarrow> (loadout \<Rightarrow> 'k::linorder) \<Rightarrow> loadout list \<Rightarrow> loadout list" where
  "board_top eligible rank ls = take LOADOUTS_PER_SONG_LIMIT (sort_key rank (filter eligible ls))"

definition normalize :: "row list \<Rightarrow> row list res" where
  "normalize rows =
     (let ls = map r_loadout rows;
          on_meta = map l_hash (board_top on_meta_board meta_rank ls);
          on_fg = map l_hash (board_top beats_score fg_rank ls)
      in map_res (\<lambda>r. let l = r_loadout r
             in bind_res (make_loadout (l\<lparr>l_on_meta := l_hash l \<in> set on_meta, l_on_fg := l_hash l \<in> set on_fg\<rparr>))
                  (\<lambda>l. Inr (r\<lparr>r_loadout := l\<rparr>)))
           (filter (\<lambda>r. l_hash (r_loadout r) \<in> set on_meta \<or> l_hash (r_loadout r) \<in> set on_fg) rows))"

definition lift_rows :: "row list \<Rightarrow> (string, work) dict" where
  "lift_rows rows = fold (\<lambda>r d. AList.update (l_hash (r_loadout r)) (lift r) d) rows []"

definition merge :: "row list \<Rightarrow> row list \<Rightarrow> int \<Rightarrow> int \<times> int \<Rightarrow> row list res" where
  "merge rows results now next_seq =
     bind_res (fold_res (merge_meta now) results
        \<lparr>s_work = lift_rows rows, s_meta_seq = fst next_seq, s_fg_seq = snd next_seq\<rparr>) (\<lambda>st.
     bind_res (fold_res (merge_fg now) results st) (\<lambda>st.
     bind_res (map_res (\<lambda>(h, w). project w) (s_work st)) (\<lambda>projected.
       normalize (List.map_filter id projected))))"

section \<open>The merge never fails\<close>

definition check_base :: "loadout \<Rightarrow> bool" where
  "check_base l \<longleftrightarrow> l_mode l \<in> set TIMING_MODES \<and> l_tier l \<in> set CANONICAL_TEAM_BUFF_TIERS
     \<and> l_primary l \<in> set ELEMENTS \<and> l_secondary l \<in> set ELEMENTS"

text \<open>A row the database holds or a solve hands over: the checks of its record, a trace beside every result
  that needs one, and a Force Greats score that is a score.\<close>

definition input_row :: "row \<Rightarrow> bool" where
  "input_row r \<longleftrightarrow> check_loadout (r_loadout r)
     \<and> (l_fg (r_loadout r) \<noteq> None \<longrightarrow> r_fg_trace r \<noteq> None)
     \<and> (r_fg_trace r \<noteq> None \<longrightarrow> l_fg_score (r_loadout r) \<noteq> None)
     \<and> (\<forall>s. l_fg_score (r_loadout r) = Some s \<longrightarrow> 0 < s)"

text \<open>A loadout while merging.\<close>

definition work_ok :: "string \<Rightarrow> work \<Rightarrow> bool" where
  "work_ok h w \<longleftrightarrow> l_hash (w_source w) = h \<and> check_base (w_source w)
     \<and> (w_meta w \<noteq> None \<or> w_fg w \<noteq> None)
     \<and> (w_meta w \<noteq> None \<longrightarrow> w_score w \<noteq> None)
     \<and> (w_fg w \<noteq> None \<longrightarrow> w_paired w \<noteq> None \<and> w_fg_score w \<noteq> None \<and> w_fg_trace w \<noteq> None)
     \<and> (w_fg_trace w \<noteq> None \<longrightarrow> w_fg w \<noteq> None \<or> 0 < w_fg_seen w)
     \<and> (w_fg w = None \<longrightarrow> w_fg_score w = None) \<and> 0 \<le> w_fg_seen w \<and> (\<forall>s. w_fg_score w = Some s \<longrightarrow> 0 < s)"

definition state_ok :: "merge_state \<Rightarrow> bool" where
  "state_ok st \<longleftrightarrow> wf_dict (s_work st) \<and> (\<forall>h w. map_of (s_work st) h = Some w \<longrightarrow> work_ok h w)"

lemma check_loadout_base: "check_loadout l \<Longrightarrow> check_base l"
  by (simp add: check_loadout_def check_base_def)

lemma or_zero_nonneg: "\<forall>s. v = Some s \<longrightarrow> 0 < s \<Longrightarrow> 0 \<le> or_zero v"
  by (cases v) (auto simp: or_zero_def)

lemma lift_ok:
  assumes "input_row r"
  shows "work_ok (l_hash (r_loadout r)) (lift r)"
proof -
  have "0 \<le> or_zero (l_fg_score (r_loadout r))" using assms by (simp add: input_row_def or_zero_nonneg)
  moreover have "l_fg_score (r_loadout r) \<noteq> None \<Longrightarrow> 0 < or_zero (l_fg_score (r_loadout r))"
    using assms by (auto simp: input_row_def or_zero_def)
  ultimately show ?thesis using assms
    by (auto simp: input_row_def work_ok_def lift_def Let_def check_loadout_base check_loadout_def)
qed

lemma lift_rows_ok:
  assumes "\<forall>r \<in> set rows. input_row r"
  shows "wf_dict (lift_rows rows) \<and> (\<forall>h w. map_of (lift_rows rows) h = Some w
    \<longrightarrow> (\<exists>r \<in> set rows. l_hash (r_loadout r) = h \<and> w = lift r))"
proof -
  have "wf_dict (fold (\<lambda>r d. AList.update (l_hash (r_loadout r)) (lift r) d) rs d)
      \<and> (\<forall>h w. map_of (fold (\<lambda>r d. AList.update (l_hash (r_loadout r)) (lift r) d) rs d) h = Some w
        \<longrightarrow> (\<exists>r \<in> set rs. l_hash (r_loadout r) = h \<and> w = lift r) \<or> map_of d h = Some w)"
    if "wf_dict d" for rs d
    using that
  proof (induction rs arbitrary: d)
    case (Cons r rs)
    then show ?case
      using Cons.IH [of "AList.update (l_hash (r_loadout r)) (lift r) d"]
      by (auto split: if_splits)
  qed simp
  from this [of "[]" rows] show ?thesis by (simp add: lift_rows_def)
qed

text \<open>One result's effect on its loadout, meta side and Force Greats side.\<close>

definition meta_replaces :: "work \<Rightarrow> loadout \<Rightarrow> bool" where
  "meta_replaces w new \<longleftrightarrow> w_meta w = None \<or> the (w_score w) < l_score new"

definition meta_touched :: "int \<Rightarrow> int \<Rightarrow> row \<Rightarrow> work \<Rightarrow> work" where
  "meta_touched now next_seq r w =
     (let new = r_loadout r;
          seq = (case w_meta w of None \<Rightarrow> next_seq | Some c \<Rightarrow> m_seq c);
          stored = (if meta_replaces w new
                    then w\<lparr>w_source := new, w_score := Some (l_score new),
                           w_meta := Some ((the (l_meta new))\<lparr>m_seq := seq\<rparr>), w_meta_trace := r_meta_trace r\<rparr>
                    else w)
      in stored\<lparr>w_fg_seen := max (w_fg_seen stored) (or_zero (l_fg_score new)),
                w_meta := map_option (\<lambda>c. c\<lparr>m_updated := now\<rparr>) (w_meta stored)\<rparr>)"

definition fg_replaces :: "work \<Rightarrow> loadout \<Rightarrow> bool" where
  "fg_replaces w new \<longleftrightarrow> w_fg w = None \<or> the (w_fg_score w) \<le> the (l_fg_score new)"

definition fg_touched :: "int \<Rightarrow> int \<Rightarrow> row \<Rightarrow> work \<Rightarrow> work" where
  "fg_touched now next_seq r w =
     (let new = r_loadout r;
          seq = (case w_fg w of None \<Rightarrow> next_seq | Some c \<Rightarrow> f_seq c);
          stored = (if fg_replaces w new
                    then w\<lparr>w_source := (if w_meta w = None then new else w_source w),
                           w_paired := Some (l_score new), w_fg := Some ((the (l_fg new))\<lparr>f_seq := seq\<rparr>),
                           w_fg_trace := r_fg_trace r,
                           w_fg_score := (case w_fg_score w of None \<Rightarrow> l_fg_score new
                                          | Some s \<Rightarrow> Some (max s (the (l_fg_score new))))\<rparr>
                    else w)
      in stored\<lparr>w_fg := map_option (\<lambda>c. c\<lparr>f_updated := now\<rparr>) (w_fg stored)\<rparr>)"

definition before_ok :: "string \<Rightarrow> work \<Rightarrow> bool" where
  "before_ok h w \<longleftrightarrow> work_ok h w \<or> (\<exists>l. l_hash l = h \<and> w = new_work l)"

lemma current_work_ok: "state_ok st \<Longrightarrow> before_ok (l_hash l) (current_work (s_work st) l)"
  by (auto simp: state_ok_def before_ok_def current_work_def split: option.splits)

lemma before_ok_facts:
  assumes "before_ok h w"
  shows "w_meta w \<noteq> None \<Longrightarrow> w_score w \<noteq> None" "w_fg w \<noteq> None \<Longrightarrow> w_fg_score w \<noteq> None"
    "w_fg w \<noteq> None \<Longrightarrow> w_paired w \<noteq> None"
  using assms by (auto simp: before_ok_def work_ok_def new_work_def)

lemma merge_meta_step:
  assumes "state_ok st" "l_meta (r_loadout r) \<noteq> None"
  shows "merge_meta now r st = Inr (st\<lparr>s_work := AList.update (l_hash (r_loadout r))
      (meta_touched now (s_meta_seq st) r (current_work (s_work st) (r_loadout r))) (s_work st),
    s_meta_seq := s_meta_seq st
      + (if w_meta (current_work (s_work st) (r_loadout r)) = None then 1 else 0)\<rparr>)"
proof -
  let ?w = "current_work (s_work st) (r_loadout r)"
  obtain m where m: "l_meta (r_loadout r) = Some m" using assms(2) by auto
  note facts = before_ok_facts [OF current_work_ok [OF assms(1)], of "r_loadout r"]
  show ?thesis
  proof (cases "w_meta ?w")
    case None
    then show ?thesis
      by (simp add: merge_meta_def m Let_def meta_touched_def meta_replaces_def)
  next
    case (Some c)
    then obtain score where "w_score ?w = Some score" using facts(1) by auto
    then show ?thesis using Some
      by (simp add: merge_meta_def m Let_def meta_touched_def meta_replaces_def need_def)
  qed
qed

lemma merge_fg_step:
  assumes "state_ok st" "l_fg (r_loadout r) \<noteq> None" "input_row r"
  shows "merge_fg now r st = Inr (st\<lparr>s_work := AList.update (l_hash (r_loadout r))
      (fg_touched now (s_fg_seq st) r (current_work (s_work st) (r_loadout r))) (s_work st),
    s_fg_seq := s_fg_seq st + (if w_fg (current_work (s_work st) (r_loadout r)) = None then 1 else 0)\<rparr>)"
proof -
  let ?w = "current_work (s_work st) (r_loadout r)"
  obtain f where f: "l_fg (r_loadout r) = Some f" using assms(2) by auto
  obtain v where v: "l_fg_score (r_loadout r) = Some v"
    using assms(2,3) by (auto simp: input_row_def check_loadout_def)
  note facts = before_ok_facts [OF current_work_ok [OF assms(1)], of "r_loadout r"]
  show ?thesis
  proof (cases "w_fg ?w")
    case None
    then show ?thesis
      by (cases "w_fg_score ?w")
        (simp_all add: merge_fg_def f v Let_def fg_touched_def fg_replaces_def need_def)
  next
    case (Some c)
    then obtain score where "w_fg_score ?w = Some score" using facts(2) by auto
    then show ?thesis using Some
      by (simp add: merge_fg_def f v Let_def fg_touched_def fg_replaces_def need_def)
  qed
qed

lemma meta_touched_ok:
  assumes "before_ok (l_hash (r_loadout r)) w" "input_row r" "l_meta (r_loadout r) \<noteq> None"
  shows "work_ok (l_hash (r_loadout r)) (meta_touched now q r w)"
  using assms
  by (auto simp: before_ok_def work_ok_def meta_touched_def Let_def new_work_def input_row_def
      check_loadout_base meta_replaces_def)

lemma fg_touched_ok:
  assumes "before_ok (l_hash (r_loadout r)) w" "input_row r" "l_fg (r_loadout r) \<noteq> None"
  shows "work_ok (l_hash (r_loadout r)) (fg_touched now q r w)"
proof -
  have "l_fg_score (r_loadout r) \<noteq> None" "r_fg_trace r \<noteq> None" "check_base (r_loadout r)"
    "\<forall>s. l_fg_score (r_loadout r) = Some s \<longrightarrow> 0 < s"
    using assms(2,3) by (auto simp: input_row_def check_loadout_def check_base_def)
  then show ?thesis
    using assms(1,3)
    by (auto simp: before_ok_def work_ok_def fg_touched_def Let_def new_work_def fg_replaces_def split: option.splits)
qed

lemma state_ok_update:
  "state_ok st \<Longrightarrow> work_ok h w \<Longrightarrow> s_work st' = AList.update h w (s_work st) \<Longrightarrow> state_ok st'"
  by (auto simp: state_ok_def)

lemma merge_meta_ok:
  assumes "state_ok st" "input_row r"
  shows "\<exists>st'. merge_meta now r st = Inr st' \<and> state_ok st'"
proof (cases "l_meta (r_loadout r)")
  case None
  then show ?thesis using assms by (simp add: merge_meta_def)
next
  case (Some m)
  then have some: "l_meta (r_loadout r) \<noteq> None" by simp
  show ?thesis
    unfolding merge_meta_step [OF assms(1) some]
    by (intro exI conjI, rule refl,
        rule state_ok_update [OF assms(1) meta_touched_ok [OF current_work_ok [OF assms(1)] assms(2) some]]) simp
qed

lemma merge_fg_ok:
  assumes "state_ok st" "input_row r"
  shows "\<exists>st'. merge_fg now r st = Inr st' \<and> state_ok st'"
proof (cases "l_fg (r_loadout r)")
  case None
  then show ?thesis using assms by (simp add: merge_fg_def)
next
  case (Some m)
  then have some: "l_fg (r_loadout r) \<noteq> None" by simp
  show ?thesis
    unfolding merge_fg_step [OF assms(1) some assms(2)]
    by (intro exI conjI, rule refl,
        rule state_ok_update [OF assms(1) fg_touched_ok [OF current_work_ok [OF assms(1)] assms(2) some]]) simp
qed

lemma fold_res_total:
  assumes "P s" "\<And>x u. x \<in> set xs \<Longrightarrow> P u \<Longrightarrow> \<exists>v. f x u = Inr v \<and> P v"
  shows "\<exists>t. fold_res f xs s = Inr t \<and> P t"
  using assms
proof (induction xs arbitrary: s)
  case (Cons x xs)
  obtain u where u: "f x s = Inr u" "P u" using Cons.prems(1) Cons.prems(2) [of x s] by auto
  then show ?case using Cons.IH [of u] Cons.prems(2) by auto
qed simp

lemma lift_state_ok:
  "\<forall>r \<in> set rows. input_row r \<Longrightarrow> state_ok \<lparr>s_work = lift_rows rows, s_meta_seq = a, s_fg_seq = b\<rparr>"
  using lift_rows_ok [of rows] by (fastforce simp: state_ok_def intro: lift_ok)

definition projected :: "work \<Rightarrow> row" where
  "projected w =
     (let l = (w_source w)\<lparr>l_score := the (if w_meta w \<noteq> None then w_score w else w_paired w),
                l_fg_score := (if w_fg w \<noteq> None then w_fg_score w else or_none (w_fg_seen w)),
                l_meta := w_meta w, l_fg := w_fg w, l_on_meta := False, l_on_fg := False\<rparr>
      in \<lparr>r_loadout = l, r_meta_trace = (if w_meta w \<noteq> None then w_meta_trace w else None),
          r_fg_trace = w_fg_trace w\<rparr>)"

lemma project_ok:
  assumes "work_ok h w"
  shows "project w = Inr (Some (projected w))" "input_row (projected w)" "l_hash (r_loadout (projected w)) = h"
  using assms
  by (auto simp: project_def projected_def work_ok_def need_def make_loadout_def check_loadout_def Let_def
      check_base_def input_row_def or_none_def split: option.splits if_splits)

lemma state_ok_mem: "state_ok st \<Longrightarrow> (h, w) \<in> set (s_work st) \<Longrightarrow> work_ok h w"
  by (simp add: state_ok_def wf_dict_def)

lemma merged_state:
  assumes "\<forall>r \<in> set rows. input_row r" "\<forall>r \<in> set results. input_row r"
  obtains st st' where
    "fold_res (merge_meta now) results \<lparr>s_work = lift_rows rows, s_meta_seq = fst next_seq, s_fg_seq = snd next_seq\<rparr> = Inr st"
    "fold_res (merge_fg now) results st = Inr st'" "state_ok st" "state_ok st'"
    "merge rows results now next_seq = normalize (map (\<lambda>(h, w). projected w) (s_work st'))"
proof -
  let ?s = "\<lparr>s_work = lift_rows rows, s_meta_seq = fst next_seq, s_fg_seq = snd next_seq\<rparr>"
  obtain st where st: "fold_res (merge_meta now) results ?s = Inr st" "state_ok st"
    using fold_res_total [of state_ok ?s results "merge_meta now"] lift_state_ok [OF assms(1)]
      merge_meta_ok assms(2) by blast
  obtain st' where st': "fold_res (merge_fg now) results st = Inr st'" "state_ok st'"
    using fold_res_total [of state_ok st results "merge_fg now"] st(2) merge_fg_ok assms(2) by blast
  have "map_res (\<lambda>(h, w). project w) (s_work st') = Inr (map (\<lambda>(h, w). Some (projected w)) (s_work st'))"
  proof (intro map_res_Inr)
    fix x
    assume "x \<in> set (s_work st')"
    then have "work_ok (fst x) (snd x)" using state_ok_mem [OF st'(2), of "fst x" "snd x"] by simp
    then show "(case x of (h, w) \<Rightarrow> project w) = Inr ((\<lambda>(h, w). Some (projected w)) x)"
      by (cases x) (simp add: project_ok(1))
  qed
  moreover have "List.map_filter id (map (\<lambda>(h, w). Some (projected w)) d) = map (\<lambda>(h, w). projected w) d"
    for d :: "(string, work) dict"
    by (induction d) (auto simp: List.map_filter_simps)
  ultimately have "merge rows results now next_seq = normalize (map (\<lambda>(h, w). projected w) (s_work st'))"
    by (simp add: merge_def st(1) st'(1))
  with st st' that show thesis by blast
qed

section \<open>The boards\<close>

text \<open>A board: which loadouts it can list and the key it lists them by.\<close>

locale board =
  fixes eligible :: "loadout \<Rightarrow> bool" and rank :: "loadout \<Rightarrow> int \<times> int" and listed_score :: "loadout \<Rightarrow> int"
  assumes rank_score: "eligible a \<Longrightarrow> eligible b \<Longrightarrow> rank a \<le> rank b \<Longrightarrow> listed_score b \<le> listed_score a"
begin

lemma top_eligible: "l \<in> set (board_top eligible rank ls) \<Longrightarrow> l \<in> set ls \<and> eligible l"
  by (auto simp: board_top_def dest: in_set_takeD)

lemma top_length: "length (board_top eligible rank ls) \<le> LOADOUTS_PER_SONG_LIMIT"
  by (simp add: board_top_def)

lemma top_outranks:
  assumes "l \<in> set ls" "eligible l" "l \<notin> set (board_top eligible rank ls)"
  shows "length (board_top eligible rank ls) = LOADOUTS_PER_SONG_LIMIT"
    "t \<in> set (board_top eligible rank ls) \<Longrightarrow> rank t \<le> rank l"
    "t \<in> set (board_top eligible rank ls) \<Longrightarrow> listed_score l \<le> listed_score t"
proof -
  let ?n = LOADOUTS_PER_SONG_LIMIT and ?s = "sort_key rank (filter eligible ls)"
  have l: "l \<in> set ?s" using assms by simp
  have split: "?s = take ?n ?s @ drop ?n ?s" by simp
  have drop: "l \<in> set (drop ?n ?s)"
    using l assms(3) unfolding board_top_def by (metis (no_types) Un_iff split set_append)
  then show "length (board_top eligible rank ls) = ?n"
    unfolding board_top_def by (cases "?n \<le> length ?s") auto
  have "sorted (map rank (take ?n ?s @ drop ?n ?s))" by simp
  then have sorted: "\<forall>t \<in> set (take ?n ?s). rank t \<le> rank l"
    using drop unfolding map_append sorted_append by auto
  then show le: "rank t \<le> rank l" if "t \<in> set (board_top eligible rank ls)" for t
    using that by (auto simp: board_top_def)
  show "listed_score l \<le> listed_score t" if t: "t \<in> set (board_top eligible rank ls)"
    using rank_score [of t l] le [OF t] top_eligible [OF t] assms(2) by blast
qed

end

interpretation meta_board: board on_meta_board meta_rank l_score
  by unfold_locales (auto simp: meta_rank_def)

interpretation fg_board: board beats_score fg_rank "\<lambda>l. the (l_fg_score l)"
  by unfold_locales (auto simp: fg_rank_def)

abbreviation row_hash :: "row \<Rightarrow> string" where
  "row_hash r \<equiv> l_hash (r_loadout r)"

definition on_meta :: "row list \<Rightarrow> row \<Rightarrow> bool" where
  "on_meta rows r \<longleftrightarrow> r_loadout r \<in> set (board_top on_meta_board meta_rank (map r_loadout rows))"

definition on_fg :: "row list \<Rightarrow> row \<Rightarrow> bool" where
  "on_fg rows r \<longleftrightarrow> r_loadout r \<in> set (board_top beats_score fg_rank (map r_loadout rows))"

definition listed :: "row list \<Rightarrow> row \<Rightarrow> row" where
  "listed rows r = r\<lparr>r_loadout := (r_loadout r)\<lparr>l_on_meta := on_meta rows r, l_on_fg := on_fg rows r\<rparr>\<rparr>"

lemma distinct_loadouts: "distinct (map row_hash rows) \<Longrightarrow> distinct (map r_loadout rows)"
  by (induction rows) (auto simp: image_iff)

lemma hash_of_listed:
  assumes "distinct (map row_hash rows)" "r \<in> set rows" "B \<subseteq> r_loadout ` set rows"
  shows "row_hash r \<in> l_hash ` B \<longleftrightarrow> r_loadout r \<in> B"
proof
  assume "row_hash r \<in> l_hash ` B"
  then obtain b where b: "b \<in> B" "l_hash b = row_hash r" by auto
  obtain r' where r': "r' \<in> set rows" "b = r_loadout r'" using b(1) assms(3) by auto
  have "inj_on row_hash (set rows)" using assms(1) by (simp add: distinct_map)
  then have "r' = r" using r' b(2) assms(2) by (simp add: inj_on_def)
  then show "r_loadout r \<in> B" using r'(2) b(1) by simp
qed (rule imageI)

lemma board_top_subset: "set (board_top e k (map r_loadout rows)) \<subseteq> r_loadout ` set rows"
  by (auto simp: board_top_def dest: in_set_takeD)

lemma on_meta_eligible: "on_meta rows r \<Longrightarrow> l_meta (r_loadout r) \<noteq> None"
  using meta_board.top_eligible by (auto simp: on_meta_def on_meta_board_def)

lemma on_fg_eligible: "on_fg rows r \<Longrightarrow> beats_score (r_loadout r)"
  using fg_board.top_eligible by (auto simp: on_fg_def)

lemma listed_simps [simp]:
  "l_on_meta (r_loadout (listed rows r)) = on_meta rows r" "l_on_fg (r_loadout (listed rows r)) = on_fg rows r"
  "row_hash (listed rows r) = row_hash r" "meta_rank (r_loadout (listed rows r)) = meta_rank (r_loadout r)"
  "fg_rank (r_loadout (listed rows r)) = fg_rank (r_loadout r)" "l_score (r_loadout (listed rows r)) = l_score (r_loadout r)"
  "l_meta (r_loadout (listed rows r)) = l_meta (r_loadout r)" "l_fg (r_loadout (listed rows r)) = l_fg (r_loadout r)"
  "l_fg_score (r_loadout (listed rows r)) = l_fg_score (r_loadout r)"
  "check_base (r_loadout (listed rows r)) = check_base (r_loadout r)" "r_fg_trace (listed rows r) = r_fg_trace r"
  by (simp_all add: listed_def meta_rank_def fg_rank_def check_base_def)

lemma check_loadout_eq:
  "check_loadout l \<longleftrightarrow> check_base l \<and> (l_meta l \<noteq> None \<or> l_fg l \<noteq> None)
     \<and> (l_fg l \<noteq> None \<longrightarrow> l_fg_score l \<noteq> None) \<and> (l_on_meta l \<longrightarrow> l_meta l \<noteq> None)
     \<and> (l_on_fg l \<longrightarrow> l_fg l \<noteq> None \<and> l_fg_score l \<noteq> None \<and> l_score l < the (l_fg_score l))"
  by (auto simp: check_loadout_def check_base_def split: option.splits)

lemma listed_input:
  assumes "input_row r"
  shows "input_row (listed rows r)"
proof -
  have "on_meta rows r \<longrightarrow> l_meta (r_loadout r) \<noteq> None"
    "on_fg rows r \<longrightarrow> l_fg (r_loadout r) \<noteq> None \<and> l_score (r_loadout r) < the (l_fg_score (r_loadout r))"
    using on_meta_eligible [of rows r] on_fg_eligible [of rows r] by (simp_all add: beats_score_def)
  then show ?thesis using assms by (simp add: input_row_def check_loadout_eq)
qed

lemma normalize_eq:
  assumes "distinct (map row_hash rows)" "\<forall>r \<in> set rows. input_row r"
  shows "normalize rows = Inr (map (listed rows) (filter (\<lambda>r. on_meta rows r \<or> on_fg rows r) rows))"
proof -
  let ?meta = "set (map l_hash (board_top on_meta_board meta_rank (map r_loadout rows)))"
  let ?fg = "set (map l_hash (board_top beats_score fg_rank (map r_loadout rows)))"
  have hashes: "row_hash r \<in> ?meta \<longleftrightarrow> on_meta rows r" "row_hash r \<in> ?fg \<longleftrightarrow> on_fg rows r"
    if "r \<in> set rows" for r
    using hash_of_listed [OF assms(1) that board_top_subset]
    by (simp_all only: on_meta_def on_fg_def set_map)
  have make: "make_loadout (r_loadout (listed rows r)) = Inr (r_loadout (listed rows r))" if "r \<in> set rows" for r
    using listed_input [of r rows] assms(2) that by (simp add: make_loadout_def input_row_def)
  have filter: "filter (\<lambda>r. row_hash r \<in> ?meta \<or> row_hash r \<in> ?fg) rows
      = filter (\<lambda>r. on_meta rows r \<or> on_fg rows r) rows"
    by (rule filter_cong [OF refl]) (simp only: hashes)
  show ?thesis
    unfolding normalize_def Let_def filter
  proof (rule map_res_Inr)
    fix r
    assume "r \<in> set (filter (\<lambda>r. on_meta rows r \<or> on_fg rows r) rows)"
    then have r: "r \<in> set rows" by simp
    show "bind_res (make_loadout ((r_loadout r)\<lparr>l_on_meta := row_hash r \<in> ?meta, l_on_fg := row_hash r \<in> ?fg\<rparr>))
        (\<lambda>l. Inr (r\<lparr>r_loadout := l\<rparr>)) = Inr (listed rows r)"
      using make [OF r] by (simp only: hashes [OF r]) (simp add: listed_def)
  qed
qed

lemma board_size:
  assumes "distinct (map row_hash rows)"
  shows "length (filter (\<lambda>r. r_loadout r \<in> set (board_top e k (map r_loadout rows))) rows)
    = length (board_top e k (map r_loadout rows))"
proof -
  let ?b = "board_top e k (map r_loadout rows)"
  have d: "distinct (map r_loadout rows)" by (rule distinct_loadouts [OF assms])
  then have "distinct ?b" by (simp add: board_top_def)
  moreover have "distinct (map r_loadout (filter (\<lambda>r. r_loadout r \<in> set ?b) rows))"
    using d by (simp add: distinct_map_filter)
  moreover have "set (map r_loadout (filter (\<lambda>r. r_loadout r \<in> set ?b) rows)) = set ?b"
    using board_top_subset [of e k rows] by (auto simp: image_iff)
  ultimately show ?thesis by (metis distinct_card length_map)
qed

text \<open>The rows of a song and tier the store can hold: the constraints of the table's columns, one row per
  loadout, each on a board, and no board over its limit.\<close>

definition boards_ok :: "row list \<Rightarrow> bool" where
  "boards_ok rows \<longleftrightarrow> distinct (map row_hash rows)
     \<and> (\<forall>r \<in> set rows. input_row r \<and> (l_on_meta (r_loadout r) \<or> l_on_fg (r_loadout r)))
     \<and> length (filter (\<lambda>r. l_on_meta (r_loadout r)) rows) \<le> LOADOUTS_PER_SONG_LIMIT
     \<and> length (filter (\<lambda>r. l_on_fg (r_loadout r)) rows) \<le> LOADOUTS_PER_SONG_LIMIT"

lemma normalize_sizes:
  assumes "distinct (map row_hash rows)" "\<forall>r \<in> set rows. input_row r" "normalize rows = Inr out"
  shows "length (filter (\<lambda>r. l_on_meta (r_loadout r)) out)
      = length (board_top on_meta_board meta_rank (map r_loadout rows))"
    "length (filter (\<lambda>r. l_on_fg (r_loadout r)) out) = length (board_top beats_score fg_rank (map r_loadout rows))"
proof -
  let ?k = "filter (\<lambda>r. on_meta rows r \<or> on_fg rows r) rows"
  have out: "out = map (listed rows) ?k" using normalize_eq [OF assms(1,2)] assms(3) by simp
  have "filter (on_meta rows) ?k = filter (on_meta rows) rows" "filter (on_fg rows) ?k = filter (on_fg rows) rows"
    by (auto simp: filter_filter intro: filter_cong)
  moreover have "filter (\<lambda>r. l_on_meta (r_loadout r)) out = map (listed rows) (filter (on_meta rows) ?k)"
    "filter (\<lambda>r. l_on_fg (r_loadout r)) out = map (listed rows) (filter (on_fg rows) ?k)"
    unfolding out by (simp_all add: filter_map o_def)
  ultimately show "length (filter (\<lambda>r. l_on_meta (r_loadout r)) out)
      = length (board_top on_meta_board meta_rank (map r_loadout rows))"
    "length (filter (\<lambda>r. l_on_fg (r_loadout r)) out) = length (board_top beats_score fg_rank (map r_loadout rows))"
    using board_size [OF assms(1), of on_meta_board meta_rank] board_size [OF assms(1), of beats_score fg_rank]
    by (simp_all add: on_meta_def [abs_def] on_fg_def [abs_def])
qed

lemma normalize_boards_ok:
  assumes "distinct (map row_hash rows)" "\<forall>r \<in> set rows. input_row r"
  shows "\<exists>out. normalize rows = Inr out \<and> boards_ok out"
proof -
  let ?k = "filter (\<lambda>r. on_meta rows r \<or> on_fg rows r) rows"
  note eq = normalize_eq [OF assms]
  have "distinct (map row_hash (map (listed rows) ?k))"
    using assms(1) by (simp add: o_def distinct_map_filter)
  then show ?thesis
    using normalize_sizes [OF assms eq] meta_board.top_length fg_board.top_length assms(2)
    unfolding boards_ok_def eq by (auto intro: listed_input)
qed

lemma merged_rows_ok:
  assumes "state_ok st"
  shows "distinct (map row_hash (map (\<lambda>(h, w). projected w) (s_work st)))"
    "\<forall>r \<in> set (map (\<lambda>(h, w). projected w) (s_work st)). input_row r"
proof -
  have "row_hash (projected (snd x)) = fst x" if "x \<in> set (s_work st)" for x
    using project_ok(3) [OF state_ok_mem [OF assms, of "fst x" "snd x"]] that by simp
  then have "map row_hash (map (\<lambda>(h, w). projected w) (s_work st)) = map fst (s_work st)"
    by (auto simp: split_beta)
  then show "distinct (map row_hash (map (\<lambda>(h, w). projected w) (s_work st)))"
    using assms by (simp only: state_ok_def wf_dict_def)
  show "\<forall>r \<in> set (map (\<lambda>(h, w). projected w) (s_work st)). input_row r"
    by (auto dest: state_ok_mem [OF assms] simp: project_ok(2))
qed

end
