(* ===== verification/BoardMerge.thy ===== *)
theory BoardMerge
  imports Boards
begin

text \<open>
  What a merge of results into a song's boards guarantees: the rows the database can hold, the best result of
  every loadout, complete boards, and entry numbers that stay unique (store/boards.py).
\<close>

section \<open>What a merge stores\<close>

text \<open>The results a list of rows offers for one loadout: its score (and, for Force Greats, the base score it was
  solved against) with the allocation that reaches it.\<close>

type_synonym meta_entry = "int \<times> string \<times> int list \<times> int list"
type_synonym fg_entry = "int \<times> int \<times> string \<times> int list \<times> int list \<times> int list"

definition meta_entry :: "row \<Rightarrow> meta_entry" where
  "meta_entry r = (let l = r_loadout r; m = the (l_meta l) in (l_score l, m_element m, m_gems m, m_stats m))"

definition fg_entry :: "row \<Rightarrow> fg_entry" where
  "fg_entry r = (let l = r_loadout r; f = the (l_fg l)
     in (the (l_fg_score l), l_score l, f_element f, f_gems f, f_stats f, f_surface f))"

definition meta_offers :: "string \<Rightarrow> row list \<Rightarrow> meta_entry list" where
  "meta_offers h rs = map meta_entry (filter (\<lambda>r. row_hash r = h \<and> l_meta (r_loadout r) \<noteq> None) rs)"

definition fg_offers :: "string \<Rightarrow> row list \<Rightarrow> fg_entry list" where
  "fg_offers h rs = map fg_entry (filter (\<lambda>r. row_hash r = h \<and> l_fg (r_loadout r) \<noteq> None) rs)"

lemma offers_simps [simp]:
  "meta_offers h [] = []" "fg_offers h [] = []"
  "meta_offers h (r # rs) = (if row_hash r = h \<and> l_meta (r_loadout r) \<noteq> None then [meta_entry r] else []) @ meta_offers h rs"
  "fg_offers h (r # rs) = (if row_hash r = h \<and> l_fg (r_loadout r) \<noteq> None then [fg_entry r] else []) @ fg_offers h rs"
  "meta_offers h (rs @ rs') = meta_offers h rs @ meta_offers h rs'"
  "fg_offers h (rs @ rs') = fg_offers h rs @ fg_offers h rs'"
  by (simp_all add: meta_offers_def fg_offers_def)

definition best_of :: "(int \<times> 'e) set \<Rightarrow> (int \<times> 'e) option \<Rightarrow> bool" where
  "best_of S b = (case b of None \<Rightarrow> S = {} | Some e \<Rightarrow> e \<in> S \<and> (\<forall>e' \<in> S. fst e' \<le> fst e))"

definition meta_side :: "work \<Rightarrow> meta_entry option" where
  "meta_side w = map_option (\<lambda>m. (the (w_score w), m_element m, m_gems m, m_stats m)) (w_meta w)"

definition fg_side :: "work \<Rightarrow> fg_entry option" where
  "fg_side w = map_option (\<lambda>f. (the (w_fg_score w), the (w_paired w), f_element f, f_gems f, f_stats f, f_surface f)) (w_fg w)"

definition side_of :: "(work \<Rightarrow> 'e option) \<Rightarrow> merge_state \<Rightarrow> string \<Rightarrow> 'e option" where
  "side_of side st h = (case map_of (s_work st) h of None \<Rightarrow> None | Some w \<Rightarrow> side w)"

lemma side_of_update:
  "s_work st' = AList.update k w (s_work st) \<Longrightarrow> side_of side st' h = (if h = k then side w else side_of side st h)"
  by (simp add: side_of_def)

lemma side_of_current: "side (new_work l) = None \<Longrightarrow> side (current_work (s_work st) l) = side_of side st (l_hash l)"
  by (simp add: side_of_def current_work_def split: option.splits)

lemma sides_new [simp]: "meta_side (new_work l) = None" "fg_side (new_work l) = None"
  by (simp_all add: meta_side_def fg_side_def new_work_def)

lemma best_of_insert:
  "best_of S b \<Longrightarrow> best_of (insert e S) (case b of None \<Rightarrow> Some e | Some c \<Rightarrow> if fst c < fst e then Some e else Some c)"
  "best_of S b \<Longrightarrow> best_of (insert e S) (case b of None \<Rightarrow> Some e | Some c \<Rightarrow> if fst c \<le> fst e then Some e else Some c)"
  by (fastforce simp: best_of_def split: option.splits)+

lemma meta_touched_sides:
  assumes "l_meta (r_loadout r) \<noteq> None"
  shows "meta_side (meta_touched now q r w) = (case meta_side w of None \<Rightarrow> Some (meta_entry r)
      | Some c \<Rightarrow> if fst c < fst (meta_entry r) then Some (meta_entry r) else Some c)"
    "fg_side (meta_touched now q r w) = fg_side w"
  using assms
  by (auto simp: meta_touched_def meta_side_def fg_side_def meta_entry_def meta_replaces_def Let_def split: option.splits)

lemma fg_touched_sides:
  assumes "l_fg (r_loadout r) \<noteq> None" "before_ok h w" "l_fg_score (r_loadout r) \<noteq> None"
  shows "fg_side (fg_touched now q r w) = (case fg_side w of None \<Rightarrow> Some (fg_entry r)
      | Some c \<Rightarrow> if fst c \<le> fst (fg_entry r) then Some (fg_entry r) else Some c)"
    "meta_side (fg_touched now q r w) = meta_side w"
proof -
  have "w_fg w = None \<longrightarrow> w_fg_score w = None" "w_fg w \<noteq> None \<longrightarrow> w_fg_score w \<noteq> None"
    using assms(2) by (auto simp: before_ok_def work_ok_def new_work_def)
  then show "fg_side (fg_touched now q r w) = (case fg_side w of None \<Rightarrow> Some (fg_entry r)
      | Some c \<Rightarrow> if fst c \<le> fst (fg_entry r) then Some (fg_entry r) else Some c)"
    "meta_side (fg_touched now q r w) = meta_side w"
    using assms(1,3)
    by (cases "w_fg w"; auto simp: fg_touched_def meta_side_def fg_side_def fg_entry_def fg_replaces_def Let_def)+
qed

lemma merge_meta_side:
  assumes "state_ok st" "input_row r" "merge_meta now r st = Inr st'" "best_of S (side_of meta_side st h)"
  shows "best_of (set (meta_offers h [r]) \<union> S) (side_of meta_side st' h)" "side_of fg_side st' h = side_of fg_side st h"
    "state_ok st'"
proof -
  have "best_of (set (meta_offers h [r]) \<union> S) (side_of meta_side st' h) \<and> side_of fg_side st' h = side_of fg_side st h"
  proof (cases "l_meta (r_loadout r)")
    case None
    then show ?thesis using assms by (simp add: merge_meta_def)
  next
    case (Some m)
    then have some: "l_meta (r_loadout r) \<noteq> None" by simp
    note step = merge_meta_step [OF assms(1) some, of now]
    have w: "s_work st' = AList.update (row_hash r)
        (meta_touched now (s_meta_seq st) r (current_work (s_work st) (r_loadout r))) (s_work st)"
      using assms(3) step by (metis Inr_inject merge_state.select_convs(1) merge_state.surjective
          merge_state.update_convs(1,2))
    show ?thesis
      using best_of_insert(1) [OF assms(4), of "meta_entry r"] assms(4) some
      by (auto simp: side_of_update [OF w] meta_touched_sides [OF some] side_of_current)
  qed
  then show "best_of (set (meta_offers h [r]) \<union> S) (side_of meta_side st' h)"
    "side_of fg_side st' h = side_of fg_side st h" by auto
  show "state_ok st'" using merge_meta_ok [OF assms(1,2), of now] assms(3) by auto
qed

lemma merge_fg_side:
  assumes "state_ok st" "input_row r" "merge_fg now r st = Inr st'" "best_of S (side_of fg_side st h)"
  shows "best_of (set (fg_offers h [r]) \<union> S) (side_of fg_side st' h)" "side_of meta_side st' h = side_of meta_side st h"
    "state_ok st'"
proof -
  have "best_of (set (fg_offers h [r]) \<union> S) (side_of fg_side st' h) \<and> side_of meta_side st' h = side_of meta_side st h"
  proof (cases "l_fg (r_loadout r)")
    case None
    then show ?thesis using assms by (simp add: merge_fg_def)
  next
    case (Some m)
    then have some: "l_fg (r_loadout r) \<noteq> None" by simp
    have score: "l_fg_score (r_loadout r) \<noteq> None"
      using assms(2) some by (auto simp: input_row_def check_loadout_def)
    note step = merge_fg_step [OF assms(1) some assms(2), of now]
    note touched = fg_touched_sides [OF some current_work_ok [OF assms(1)] score]
    have w: "s_work st' = AList.update (row_hash r)
        (fg_touched now (s_fg_seq st) r (current_work (s_work st) (r_loadout r))) (s_work st)"
      using assms(3) step by (metis Inr_inject merge_state.select_convs(1) merge_state.surjective
          merge_state.update_convs(1,3))
    show ?thesis
      using best_of_insert(2) [OF assms(4), of "fg_entry r"] assms(4) some
      by (auto simp: side_of_update [OF w] touched side_of_current)
  qed
  then show "best_of (set (fg_offers h [r]) \<union> S) (side_of fg_side st' h)"
    "side_of meta_side st' h = side_of meta_side st h" by auto
  show "state_ok st'" using merge_fg_ok [OF assms(1,2), of now] assms(3) by auto
qed

lemma merge_meta_fold:
  assumes "fold_res (merge_meta now) rs st = Inr st'" "state_ok st" "\<forall>r \<in> set rs. input_row r"
    and "best_of S (side_of meta_side st h)"
  shows "best_of (set (meta_offers h rs) \<union> S) (side_of meta_side st' h) \<and> side_of fg_side st' h = side_of fg_side st h"
  using assms
proof (induction rs arbitrary: st S)
  case (Cons r rs)
  then obtain u where u: "merge_meta now r st = Inr u" "fold_res (merge_meta now) rs u = Inr st'"
    by (auto simp: bind_res_eq_Inr)
  have "input_row r" using Cons.prems by simp
  note step = merge_meta_side [OF Cons.prems(2) this u(1) Cons.prems(4)]
  show ?case using Cons.IH [OF u(2) step(3) _ step(1)] step(2) Cons.prems(3)
    by (simp add: Un_left_commute Un_assoc)
qed simp

lemma merge_fg_fold:
  assumes "fold_res (merge_fg now) rs st = Inr st'" "state_ok st" "\<forall>r \<in> set rs. input_row r"
    and "best_of S (side_of fg_side st h)"
  shows "best_of (set (fg_offers h rs) \<union> S) (side_of fg_side st' h) \<and> side_of meta_side st' h = side_of meta_side st h"
  using assms
proof (induction rs arbitrary: st S)
  case (Cons r rs)
  then obtain u where u: "merge_fg now r st = Inr u" "fold_res (merge_fg now) rs u = Inr st'"
    by (auto simp: bind_res_eq_Inr)
  have "input_row r" using Cons.prems by simp
  note step = merge_fg_side [OF Cons.prems(2) this u(1) Cons.prems(4)]
  show ?case using Cons.IH [OF u(2) step(3) _ step(1)] step(2) Cons.prems(3)
    by (simp add: Un_left_commute Un_assoc)
qed simp

lemma map_of_lift_rows:
  assumes "distinct (map row_hash rows)"
  shows "map_of (lift_rows rows) h = map_option lift (find (\<lambda>r. row_hash r = h) rows)"
proof -
  have "map_of (fold (\<lambda>r d. AList.update (row_hash r) (lift r) d) rows d) h
      = (case find (\<lambda>r. row_hash r = h) rows of None \<Rightarrow> map_of d h | Some r \<Rightarrow> Some (lift r))" for d
    using assms
  proof (induction rows arbitrary: d)
    case (Cons r rows)
    have "find (\<lambda>r'. row_hash r' = row_hash r) rows = None"
      using Cons.prems by (auto simp: find_None_iff image_iff)
    then show ?case using Cons by (auto split: option.splits)
  qed simp
  from this [of "[]"] show ?thesis by (simp add: lift_rows_def map_option_case cong: option.case_cong)
qed

lemma lift_sides:
  "meta_side (lift r) = (if l_meta (r_loadout r) = None then None else Some (meta_entry r))"
  "fg_side (lift r) = (if l_fg (r_loadout r) = None then None else Some (fg_entry r))"
  by (auto simp: meta_side_def fg_side_def lift_def Let_def meta_entry_def fg_entry_def)

lemma offers_found:
  assumes "distinct (map row_hash rows)"
  shows "set (meta_offers h rows) = (case find (\<lambda>r. row_hash r = h) rows of None \<Rightarrow> {}
      | Some r \<Rightarrow> if l_meta (r_loadout r) = None then {} else {meta_entry r})"
    "set (fg_offers h rows) = (case find (\<lambda>r. row_hash r = h) rows of None \<Rightarrow> {}
      | Some r \<Rightarrow> if l_fg (r_loadout r) = None then {} else {fg_entry r})"
  using assms
proof (induction rows)
  case (Cons r rows)
  {
    case 1
    then have "find (\<lambda>r'. row_hash r' = row_hash r) rows = None" by (auto simp: find_None_iff image_iff)
    then show ?case using Cons 1 by (auto split: option.splits)
  next
    case 2
    then have "find (\<lambda>r'. row_hash r' = row_hash r) rows = None" by (auto simp: find_None_iff image_iff)
    then show ?case using Cons 2 by (auto split: option.splits)
  }
qed simp_all

lemma lift_rows_best:
  assumes "distinct (map row_hash rows)" "s_work st = lift_rows rows"
  shows "best_of (set (meta_offers h rows)) (side_of meta_side st h)"
    "best_of (set (fg_offers h rows)) (side_of fg_side st h)"
  using offers_found [OF assms(1), of h]
  by (simp_all add: side_of_def assms(2) map_of_lift_rows [OF assms(1)] lift_sides best_of_def
      split: option.splits del: split_paired_Ex split_paired_All)

text \<open>The rows a merge ranks: of every loadout the best result of each side among all that were offered.\<close>

definition holds_best :: "row list \<Rightarrow> row \<Rightarrow> bool" where
  "holds_best offers r \<longleftrightarrow>
     (if l_meta (r_loadout r) = None then meta_offers (row_hash r) offers = []
      else meta_entry r \<in> set (meta_offers (row_hash r) offers)
        \<and> (\<forall>e \<in> set (meta_offers (row_hash r) offers). fst e \<le> l_score (r_loadout r)))
     \<and> (if l_fg (r_loadout r) = None then fg_offers (row_hash r) offers = []
        else (\<exists>base. (the (l_fg_score (r_loadout r)), base, snd (snd (fg_entry r))) \<in> set (fg_offers (row_hash r) offers)
                \<and> (l_meta (r_loadout r) = None \<longrightarrow> base = l_score (r_loadout r)))
          \<and> (\<forall>e \<in> set (fg_offers (row_hash r) offers). fst e \<le> the (l_fg_score (r_loadout r))))"

lemma fst_meta_entry [simp]: "fst (meta_entry r) = l_score (r_loadout r)"
  by (simp add: meta_entry_def Let_def)

lemma fst_fg_entry [simp]: "fst (fg_entry r) = the (l_fg_score (r_loadout r))"
  by (simp add: fg_entry_def Let_def)

lemma holds_best_meta:
  assumes "holds_best offers r"
  shows "e \<in> set (meta_offers (row_hash r) offers) \<Longrightarrow> l_meta (r_loadout r) \<noteq> None \<and> fst e \<le> l_score (r_loadout r)"
    "l_meta (r_loadout r) \<noteq> None \<Longrightarrow> meta_entry r \<in> set (meta_offers (row_hash r) offers)"
  using assms by (auto simp: holds_best_def split: if_splits)

lemma holds_best_fg:
  assumes "holds_best offers r"
  shows "e \<in> set (fg_offers (row_hash r) offers) \<Longrightarrow> l_fg (r_loadout r) \<noteq> None \<and> fst e \<le> the (l_fg_score (r_loadout r))"
    "l_fg (r_loadout r) \<noteq> None \<Longrightarrow> l_meta (r_loadout r) = None \<Longrightarrow>
      (the (l_fg_score (r_loadout r)), l_score (r_loadout r), snd (snd (fg_entry r))) \<in> set (fg_offers (row_hash r) offers)"
  using assms by (auto simp: holds_best_def split: if_splits)

lemma projected_holds:
  assumes "work_ok h w" "best_of (set (meta_offers h offers)) (meta_side w)" "best_of (set (fg_offers h offers)) (fg_side w)"
  shows "holds_best offers (projected w)"
proof -
  let ?r = "projected w"
  have h: "row_hash ?r = h" by (rule project_ok(3) [OF assms(1)])
  have meta: "meta_side w = (if l_meta (r_loadout ?r) = None then None else Some (meta_entry ?r))"
    by (auto simp: meta_side_def projected_def Let_def meta_entry_def)
  have fg: "fg_side w = (if l_fg (r_loadout ?r) = None then None
      else Some (the (l_fg_score (r_loadout ?r)), the (w_paired w), snd (snd (fg_entry ?r))))"
    by (auto simp: fg_side_def projected_def Let_def fg_entry_def)
  have base: "l_meta (r_loadout ?r) = None \<Longrightarrow> the (w_paired w) = l_score (r_loadout ?r)"
    by (simp add: projected_def Let_def)
  show ?thesis
    using assms(2,3) base unfolding meta fg holds_best_def h
    by (cases "l_meta (r_loadout ?r)"; cases "l_fg (r_loadout ?r)")
      (auto simp: best_of_def simp del: split_paired_Ex split_paired_All)
qed

lemma merge_ranks_best:
  assumes "\<forall>r \<in> set rows. input_row r" "\<forall>r \<in> set results. input_row r" "distinct (map row_hash rows)"
  obtains ranked where "merge rows results now next_seq = normalize ranked" "distinct (map row_hash ranked)"
    "\<And>r. r \<in> set ranked \<Longrightarrow> input_row r \<and> holds_best (results @ rows) r"
    "\<And>r. r \<in> set (results @ rows) \<Longrightarrow> row_hash r \<in> row_hash ` set ranked"
proof -
  let ?s = "\<lparr>s_work = lift_rows rows, s_meta_seq = fst next_seq, s_fg_seq = snd next_seq\<rparr>"
  obtain st st' where st: "fold_res (merge_meta now) results ?s = Inr st"
    "fold_res (merge_fg now) results st = Inr st'" "state_ok st" "state_ok st'"
    "merge rows results now next_seq = normalize (map (\<lambda>(h, w). projected w) (s_work st'))"
    by (rule merged_state [OF assms(1,2)])
  let ?ranked = "map (\<lambda>(h, w). projected w) (s_work st')"
  have best: "best_of (set (meta_offers h (results @ rows))) (side_of meta_side st' h)"
    "best_of (set (fg_offers h (results @ rows))) (side_of fg_side st' h)" for h
  proof -
    have m: "best_of (set (meta_offers h results) \<union> set (meta_offers h rows)) (side_of meta_side st h)
        \<and> side_of fg_side st h = side_of fg_side ?s h"
      by (rule merge_meta_fold [OF st(1) lift_state_ok [OF assms(1)] assms(2) lift_rows_best(1) [OF assms(3)]]) simp
    have l: "best_of (set (fg_offers h rows)) (side_of fg_side ?s h)"
      by (rule lift_rows_best(2) [OF assms(3)]) simp
    have f: "best_of (set (fg_offers h results) \<union> set (fg_offers h rows)) (side_of fg_side st' h)
        \<and> side_of meta_side st' h = side_of meta_side st h"
      by (rule merge_fg_fold [OF st(2,3) assms(2)]) (use m l in simp)
    show "best_of (set (meta_offers h (results @ rows))) (side_of meta_side st' h)"
      "best_of (set (fg_offers h (results @ rows))) (side_of fg_side st' h)"
      using m f by simp_all
  qed
  note ok = merged_rows_ok [OF st(4)]
  have holds: "input_row r \<and> holds_best (results @ rows) r" if r: "r \<in> set ?ranked" for r
  proof -
    obtain h w where hw: "(h, w) \<in> set (s_work st')" "r = projected w" using r by auto
    have "map_of (s_work st') h = Some w" using hw(1) st(4) by (simp add: state_ok_def wf_dict_def)
    then have "side_of meta_side st' h = meta_side w" "side_of fg_side st' h = fg_side w"
      by (simp_all add: side_of_def)
    then show ?thesis
      using projected_holds [OF state_ok_mem [OF st(4) hw(1)]] best [of h]
        project_ok(2) [OF state_ok_mem [OF st(4) hw(1)]] hw(2) by simp
  qed
  have cover: "row_hash r \<in> row_hash ` set ?ranked" if r: "r \<in> set (results @ rows)" for r
  proof -
    have "l_meta (r_loadout r) \<noteq> None \<or> l_fg (r_loadout r) \<noteq> None"
      using r assms(1,2) by (auto simp: input_row_def check_loadout_eq)
    then have "set (meta_offers (row_hash r) (results @ rows)) \<noteq> {} \<or> set (fg_offers (row_hash r) (results @ rows)) \<noteq> {}"
      using r by (auto simp: meta_offers_def fg_offers_def)
    then have "map_of (s_work st') (row_hash r) \<noteq> None"
      using best [of "row_hash r"] by (auto simp: side_of_def best_of_def split: option.splits)
    then obtain w where w: "(row_hash r, w) \<in> set (s_work st')" by (auto dest: map_of_SomeD)
    have "row_hash (projected w) = row_hash r" by (rule project_ok(3) [OF state_ok_mem [OF st(4) w]])
    moreover have "projected w \<in> set ?ranked" using w by force
    ultimately show ?thesis by (metis image_eqI)
  qed
  show thesis by (rule that [OF st(5) ok(1) holds cover])
qed

lemma holds_best_listed: "holds_best offers (listed rows r) = holds_best offers r"
proof -
  have "meta_entry (listed rows r) = meta_entry r" "fg_entry (listed rows r) = fg_entry r"
    by (simp_all add: meta_entry_def fg_entry_def Let_def)
  then show ?thesis by (simp add: holds_best_def)
qed

section \<open>Properties of the merge\<close>

lemma normalize_complete:
  assumes "distinct (map row_hash rows)" "\<forall>r \<in> set rows. input_row r" "normalize rows = Inr out" "q \<in> set rows"
  shows "l_meta (r_loadout q) \<noteq> None \<Longrightarrow>
      listed rows q \<in> set out \<and> on_meta rows q
      \<or> length (filter (\<lambda>r. l_on_meta (r_loadout r)) out) = LOADOUTS_PER_SONG_LIMIT
        \<and> (\<forall>r \<in> set out. l_on_meta (r_loadout r) \<longrightarrow> l_score (r_loadout q) \<le> l_score (r_loadout r))"
    "beats_score (r_loadout q) \<Longrightarrow>
      listed rows q \<in> set out \<and> on_fg rows q
      \<or> length (filter (\<lambda>r. l_on_fg (r_loadout r)) out) = LOADOUTS_PER_SONG_LIMIT
        \<and> (\<forall>r \<in> set out. l_on_fg (r_loadout r) \<longrightarrow> the (l_fg_score (r_loadout q)) \<le> the (l_fg_score (r_loadout r)))"
proof -
  have out: "out = map (listed rows) (filter (\<lambda>r. on_meta rows r \<or> on_fg rows r) rows)"
    using normalize_eq [OF assms(1,2)] assms(3) by simp
  have mem: "on_meta rows q \<or> on_fg rows q \<Longrightarrow> listed rows q \<in> set out" using assms(4) by (simp add: out)
  have l: "r_loadout q \<in> set (map r_loadout rows)" using assms(4) by simp
  note sizes = normalize_sizes [OF assms(1-3)]
  show "l_meta (r_loadout q) \<noteq> None \<Longrightarrow> listed rows q \<in> set out \<and> on_meta rows q
      \<or> length (filter (\<lambda>r. l_on_meta (r_loadout r)) out) = LOADOUTS_PER_SONG_LIMIT
        \<and> (\<forall>r \<in> set out. l_on_meta (r_loadout r) \<longrightarrow> l_score (r_loadout q) \<le> l_score (r_loadout r))"
  proof (cases "on_meta rows q")
    case False
    assume "l_meta (r_loadout q) \<noteq> None"
    then have "on_meta_board (r_loadout q)" by (simp add: on_meta_board_def)
    note top = meta_board.top_outranks [OF l this False [unfolded on_meta_def]]
    have "l_score (r_loadout q) \<le> l_score (r_loadout r)" if "r \<in> set out" "l_on_meta (r_loadout r)" for r
      using that top(3) by (auto simp: out on_meta_def)
    then show ?thesis using top(1) sizes(1) by simp
  qed (use mem in simp)
  show "beats_score (r_loadout q) \<Longrightarrow> listed rows q \<in> set out \<and> on_fg rows q
      \<or> length (filter (\<lambda>r. l_on_fg (r_loadout r)) out) = LOADOUTS_PER_SONG_LIMIT
        \<and> (\<forall>r \<in> set out. l_on_fg (r_loadout r) \<longrightarrow> the (l_fg_score (r_loadout q)) \<le> the (l_fg_score (r_loadout r)))"
  proof (cases "on_fg rows q")
    case False
    assume "beats_score (r_loadout q)"
    note top = fg_board.top_outranks [OF l this False [unfolded on_fg_def]]
    have "the (l_fg_score (r_loadout q)) \<le> the (l_fg_score (r_loadout r))" if "r \<in> set out" "l_on_fg (r_loadout r)" for r
      using that top(3) by (auto simp: out on_fg_def)
    then show ?thesis using top(1) sizes(2) by simp
  qed (use mem in simp)
qed

text \<open>Two results of one loadout (the second better and with Force Greats) and one of another.\<close>

definition example_loadout :: "string \<Rightarrow> int \<Rightarrow> int option \<Rightarrow> loadout" where
  "example_loadout h score fg =
     \<lparr>l_mode = PRECISE, l_song = ''Song'', l_tier = hd CANONICAL_TEAM_BUFF_TIERS, l_hash = h, l_gear = [], l_minis = [],
      l_primary = hd ELEMENTS, l_secondary = hd ELEMENTS, l_ascension = None, l_score = score, l_fg_score = fg,
      l_meta = Some \<lparr>m_element = hd ELEMENTS, m_gems = map (\<lambda>_. 0) GEM_KINDS, m_stats = map (\<lambda>_. 0) STATS,
                     m_updated = 1, m_seq = 3\<rparr>,
      l_fg = map_option (\<lambda>_. \<lparr>f_element = hd ELEMENTS, f_gems = map (\<lambda>_. 0) GEM_KINDS, f_stats = map (\<lambda>_. 0) STATS,
                     f_surface = replicate SURFACE_SIZE 0, f_updated = 1, f_seq = 2\<rparr>) fg,
      l_on_meta = False, l_on_fg = False\<rparr>"

definition example_row :: "string \<Rightarrow> int \<Rightarrow> int option \<Rightarrow> row" where
  "example_row h score fg = \<lparr>r_loadout = example_loadout h score fg, r_meta_trace = None,
     r_fg_trace = map_option (\<lambda>_. ''trace'') fg\<rparr>"

lemma example_row_input [simp]: "input_row (example_row h score fg) \<longleftrightarrow> (\<forall>s. fg = Some s \<longrightarrow> 0 < s)"
  by (auto simp: input_row_def example_row_def example_loadout_def check_loadout_eq check_base_def TIMING_MODES_def
      ELEMENTS_def CANONICAL_TEAM_BUFF_TIERS_def TEAM_BUFF_TIER_EFFECTS_def)

lemma example_row_hash [simp]: "row_hash (example_row h score fg) = h"
  by (simp add: example_row_def example_loadout_def)



text \<open>C24: Every row a merge stores carries, on each side, the best result ever offered for its loadout: the stored
  score is the maximum over the stored row and the new results, and the gems and stats beside it (for Force Greats the
  response surface too) are those of an offered result that reached it. A merge never lowers a score.\<close>

theorem merge_stores_best:
  assumes "\<forall>r \<in> set rows. input_row r" "\<forall>r \<in> set results. input_row r" "distinct (map row_hash rows)"
    and "merge rows results now next_seq = Inr out" "r \<in> set out"
  shows "holds_best (results @ rows) r"
proof -
  obtain ranked where ranked: "merge rows results now next_seq = normalize ranked" "distinct (map row_hash ranked)"
    "\<And>r. r \<in> set ranked \<Longrightarrow> input_row r \<and> holds_best (results @ rows) r"
    by (rule merge_ranks_best [OF assms(1-3), of now next_seq]) blast
  have "\<forall>r \<in> set ranked. input_row r" using ranked(3) by blast
  then have "out = map (listed ranked) (filter (\<lambda>r. on_meta ranked r \<or> on_fg ranked r) ranked)"
    using normalize_eq [OF ranked(2)] ranked(1) assms(4) by simp
  then show ?thesis using assms(5) ranked(3) by (auto simp: holds_best_listed)
qed

theorem merge_stores_best_witness:
  "holds_best ([example_row ''a'' 7 (Some 9)] @ [example_row ''a'' 5 None])
     (hd (projr (merge [example_row ''a'' 5 None] [example_row ''a'' 7 (Some 9)] 0 (4, 4))))"
proof -
  let ?m = "merge [example_row ''a'' 5 None] [example_row ''a'' 7 (Some 9)] 0 (4, 4)"
  have "?m = Inr (projr ?m) \<and> hd (projr ?m) \<in> set (projr ?m)" by code_simp
  then show ?thesis
    using merge_stores_best [of "[example_row ''a'' 5 None]" "[example_row ''a'' 7 (Some 9)]" 0 "(4, 4)"
        "projr ?m" "hd (projr ?m)"] by simp
qed

text \<open>C14: The boards are complete. A meta result offered to a merge is on the meta board afterwards with at least its
  score, or the board is full of loadouts that score at least as much. A Force Greats result that beats every base
  score offered for its loadout is on the Force Greats board with at least its score, or that board is full of results
  that score at least as much.\<close>

theorem merge_boards_complete:
  assumes "\<forall>r \<in> set rows. input_row r" "\<forall>r \<in> set results. input_row r" "distinct (map row_hash rows)"
    and "merge rows results now next_seq = Inr out" "r \<in> set (results @ rows)"
  shows "(l_meta (r_loadout r) \<noteq> None \<longrightarrow>
      (\<exists>b \<in> set out. row_hash b = row_hash r \<and> l_on_meta (r_loadout b) \<and> l_score (r_loadout r) \<le> l_score (r_loadout b))
      \<or> length (filter (\<lambda>b. l_on_meta (r_loadout b)) out) = LOADOUTS_PER_SONG_LIMIT
        \<and> (\<forall>b \<in> set out. l_on_meta (r_loadout b) \<longrightarrow> l_score (r_loadout r) \<le> l_score (r_loadout b)))
    \<and> (l_fg (r_loadout r) \<noteq> None
      \<and> (\<forall>q \<in> set (results @ rows). row_hash q = row_hash r \<longrightarrow> l_score (r_loadout q) < the (l_fg_score (r_loadout r))) \<longrightarrow>
      (\<exists>b \<in> set out. row_hash b = row_hash r \<and> l_on_fg (r_loadout b)
         \<and> the (l_fg_score (r_loadout r)) \<le> the (l_fg_score (r_loadout b)))
      \<or> length (filter (\<lambda>b. l_on_fg (r_loadout b)) out) = LOADOUTS_PER_SONG_LIMIT
        \<and> (\<forall>b \<in> set out. l_on_fg (r_loadout b) \<longrightarrow> the (l_fg_score (r_loadout r)) \<le> the (l_fg_score (r_loadout b))))"
proof -
  obtain ranked where ranked: "merge rows results now next_seq = normalize ranked" "distinct (map row_hash ranked)"
    "\<And>r. r \<in> set ranked \<Longrightarrow> input_row r \<and> holds_best (results @ rows) r"
    "\<And>r. r \<in> set (results @ rows) \<Longrightarrow> row_hash r \<in> row_hash ` set ranked"
    by (rule merge_ranks_best [OF assms(1-3), of now next_seq]) blast
  obtain q where q: "q \<in> set ranked" "row_hash q = row_hash r" using ranked(4) [OF assms(5)] by auto
  have "\<forall>r \<in> set ranked. input_row r" "normalize ranked = Inr out" using ranked assms(4) by auto
  note complete = normalize_complete [OF ranked(2) this q(1)]
  have best: "holds_best (results @ rows) q" using ranked(3) [OF q(1)] by simp
  note best_meta = holds_best_meta [OF best, unfolded q(2)] and best_fg = holds_best_fg [OF best, unfolded q(2)]
  have meta: "l_meta (r_loadout q) \<noteq> None \<and> l_score (r_loadout r) \<le> l_score (r_loadout q)" if "l_meta (r_loadout r) \<noteq> None"
  proof -
    have "meta_entry r \<in> set (meta_offers (row_hash r) (results @ rows))"
      using assms(5) that by (auto simp: meta_offers_def)
    from best_meta(1) [OF this] show ?thesis by simp
  qed
  have fg: "beats_score (r_loadout q) \<and> the (l_fg_score (r_loadout r)) \<le> the (l_fg_score (r_loadout q))"
    if r: "l_fg (r_loadout r) \<noteq> None"
      "\<forall>q \<in> set (results @ rows). row_hash q = row_hash r \<longrightarrow> l_score (r_loadout q) < the (l_fg_score (r_loadout r))"
  proof -
    have "fg_entry r \<in> set (fg_offers (row_hash r) (results @ rows))" using assms(5) r(1) by (auto simp: fg_offers_def)
    from best_fg(1) [OF this]
    have le: "l_fg (r_loadout q) \<noteq> None" "the (l_fg_score (r_loadout r)) \<le> the (l_fg_score (r_loadout q))" by auto
    have "\<exists>p \<in> set (results @ rows). row_hash p = row_hash r \<and> l_score (r_loadout p) = l_score (r_loadout q)"
    proof (cases "l_meta (r_loadout q) = None")
      case True
      then have "(the (l_fg_score (r_loadout q)), l_score (r_loadout q), snd (snd (fg_entry q)))
          \<in> set (fg_offers (row_hash r) (results @ rows))" using best_fg(2) le(1) by blast
      then show ?thesis by (auto simp: fg_offers_def fg_entry_def Let_def)
    next
      case False
      then have "meta_entry q \<in> set (meta_offers (row_hash r) (results @ rows))" using best_meta(2) by blast
      then show ?thesis by (auto simp: meta_offers_def meta_entry_def Let_def)
    qed
    then show ?thesis using r(2) le unfolding beats_score_def by fastforce
  qed
  show ?thesis
    using complete meta fg q(2) by (smt (verit) listed_simps order_trans)
qed

theorem merge_boards_complete_witness:
  "let out = projr (merge [example_row ''a'' 5 None] [example_row ''a'' 7 (Some 9)] 0 (4, 4))
   in (\<exists>b. b \<in> set out \<and> row_hash b = ''a'' \<and> l_on_fg (r_loadout b) \<and> 9 \<le> the (l_fg_score (r_loadout b)))
      \<or> length (filter (\<lambda>b. l_on_fg (r_loadout b)) out) = LOADOUTS_PER_SONG_LIMIT"
proof -
  let ?r = "example_row ''a'' 7 (Some 9)"
  let ?m = "merge [example_row ''a'' 5 None] [?r] 0 (4, 4)"
  have eval: "?m = Inr (projr ?m)" by code_simp
  have r: "l_fg (r_loadout ?r) \<noteq> None" "l_fg_score (r_loadout ?r) = Some 9"
    "\<forall>q \<in> set ([?r] @ [example_row ''a'' 5 None]). l_score (r_loadout q) < 9"
    by (simp_all add: example_row_def example_loadout_def)
  show ?thesis
    using merge_boards_complete [of "[example_row ''a'' 5 None]" "[?r]" 0 "(4, 4)" "projr ?m" ?r] eval r
    unfolding Let_def by auto
qed

section \<open>Entry numbers\<close>

text \<open>The entry numbers of a side are distinct, below the next one, and a stored loadout keeps its number.\<close>

definition meta_number :: "work \<Rightarrow> int option" where
  "meta_number w = map_option m_seq (w_meta w)"

definition numbered :: "(string \<Rightarrow> int option) \<Rightarrow> int \<Rightarrow> (string \<Rightarrow> int option) \<Rightarrow> int \<Rightarrow> bool" where
  "numbered before start now next \<longleftrightarrow> start \<le> next \<and> inj_on now (dom now) \<and> (\<forall>h n. now h = Some n \<longrightarrow> n < next)
     \<and> (\<forall>h. before h \<noteq> None \<longrightarrow> now h = before h)
     \<and> (\<forall>h n. before h = None \<longrightarrow> now h = Some n \<longrightarrow> start \<le> n)"

lemma numbered_refl: "inj_on f (dom f) \<Longrightarrow> (\<And>h n. f h = Some n \<Longrightarrow> n < next) \<Longrightarrow> numbered f next f next"
  by (simp add: numbered_def)

lemma numbered_inj:
  assumes "numbered b p f n" "Some x = f h" "Some x = f k"
  shows "h = k"
proof (rule inj_onD [of f "dom f"])
  show "inj_on f (dom f)" using assms(1) by (simp add: numbered_def)
  show "f h = f k" "h \<in> dom f" "k \<in> dom f" using assms(2,3) by (auto simp: dom_def intro: sym)
qed

lemma numbered_kept:
  assumes "numbered b p f n" "Some x = f h"
  shows "if b h = None then p \<le> x else b h = Some x"
proof (cases "b h")
  case None
  then show ?thesis using assms by (simp add: numbered_def)
next
  case (Some y)
  then have "f h = b h" using assms(1) unfolding numbered_def by blast
  then show ?thesis using Some assms(2) by simp
qed

lemma numbered_step:
  assumes "numbered before start f next"
  shows "numbered before start (f(h := Some (case f h of None \<Rightarrow> next | Some n \<Rightarrow> n))) (next + (if f h = None then 1 else 0))"
proof (cases "f h")
  case None
  note num = assms [unfolded numbered_def]
  have fresh: "f k \<noteq> Some next" for k using num by (metis less_irrefl)
  have "inj_on (f(h := Some next)) (dom (f(h := Some next)))"
  proof (rule inj_onI)
    fix a b
    assume ab: "a \<in> dom (f(h := Some next))" "b \<in> dom (f(h := Some next))"
      "(f(h := Some next)) a = (f(h := Some next)) b"
    show "a = b"
    proof (cases "a = h \<or> b = h")
      case True
      then show ?thesis using ab(3) fresh [of a] fresh [of b] by (auto split: if_splits)
    next
      case False
      then have "a \<in> dom f" "b \<in> dom f" "f a = f b" using ab by auto
      with num show ?thesis by (auto dest: inj_onD)
    qed
  qed
  moreover have "\<forall>k n. (f(h := Some next)) k = Some n \<longrightarrow> n < next + 1"
    using num by (auto intro: order_less_le_trans less_imp_le)
  moreover have "before h = None" using num None by fastforce
  ultimately show ?thesis using num None by (simp add: numbered_def)
next
  case (Some n)
  then have "f(h := Some n) = f" by auto
  then show ?thesis using Some assms by simp
qed

definition fg_number :: "work \<Rightarrow> int option" where
  "fg_number w = map_option f_seq (w_fg w)"

lemma touched_numbers:
  assumes "l_meta (r_loadout r) \<noteq> None"
  shows "meta_number (meta_touched now q r w) = Some (case meta_number w of None \<Rightarrow> q | Some n \<Rightarrow> n)"
    "fg_number (meta_touched now q r w) = fg_number w"
  by (cases "w_meta w"; simp add: meta_touched_def meta_number_def fg_number_def meta_replaces_def Let_def)+

lemma fg_touched_numbers:
  assumes "l_fg (r_loadout r) \<noteq> None"
  shows "fg_number (fg_touched now q r w) = Some (case fg_number w of None \<Rightarrow> q | Some n \<Rightarrow> n)"
    "meta_number (fg_touched now q r w) = meta_number w"
  by (cases "w_fg w"; simp add: fg_touched_def meta_number_def fg_number_def fg_replaces_def Let_def)+

lemma new_numbers [simp]: "meta_number (new_work l) = None" "fg_number (new_work l) = None"
  by (simp_all add: new_work_def meta_number_def fg_number_def)

lemma side_of_update_fun:
  "s_work st' = AList.update k w (s_work st) \<Longrightarrow> side_of side st' = (side_of side st)(k := side w)"
  by (auto simp: side_of_update)

lemma merge_meta_numbers:
  assumes "state_ok st" "merge_meta now r st = Inr st'" "numbered b p (side_of meta_number st) (s_meta_seq st)"
  shows "numbered b p (side_of meta_number st') (s_meta_seq st')" "side_of fg_number st' = side_of fg_number st"
    "s_fg_seq st' = s_fg_seq st"
proof -
  let ?w = "current_work (s_work st) (r_loadout r)"
  have "numbered b p (side_of meta_number st') (s_meta_seq st') \<and> side_of fg_number st' = side_of fg_number st
      \<and> s_fg_seq st' = s_fg_seq st"
  proof (cases "l_meta (r_loadout r)")
    case (Some m)
    then have some: "l_meta (r_loadout r) \<noteq> None" by simp
    have st': "st' = st\<lparr>s_work := AList.update (row_hash r) (meta_touched now (s_meta_seq st) r ?w) (s_work st),
        s_meta_seq := s_meta_seq st + (if w_meta ?w = None then 1 else 0)\<rparr>"
      using merge_meta_step [OF assms(1) some, of now] assms(2) by simp
    then have w: "s_work st' = AList.update (row_hash r) (meta_touched now (s_meta_seq st) r ?w) (s_work st)" by simp
    have cur: "meta_number ?w = side_of meta_number st (row_hash r)" "fg_number ?w = side_of fg_number st (row_hash r)"
      by (simp_all add: side_of_current)
    have "(w_meta ?w = None) = (side_of meta_number st (row_hash r) = None)"
      unfolding cur(1) [symmetric] by (simp add: meta_number_def)
    then show ?thesis
      using numbered_step [OF assms(3), of "row_hash r"]
      unfolding side_of_update_fun [OF w] touched_numbers [OF some] cur
      by (simp add: st' fun_upd_idem)
  qed (use assms in \<open>simp add: merge_meta_def\<close>)
  then show "numbered b p (side_of meta_number st') (s_meta_seq st')" "side_of fg_number st' = side_of fg_number st"
    "s_fg_seq st' = s_fg_seq st" by auto
qed

lemma merge_fg_numbers:
  assumes "state_ok st" "input_row r" "merge_fg now r st = Inr st'" "numbered b p (side_of fg_number st) (s_fg_seq st)"
  shows "numbered b p (side_of fg_number st') (s_fg_seq st')" "side_of meta_number st' = side_of meta_number st"
    "s_meta_seq st' = s_meta_seq st"
proof -
  let ?w = "current_work (s_work st) (r_loadout r)"
  have "numbered b p (side_of fg_number st') (s_fg_seq st') \<and> side_of meta_number st' = side_of meta_number st
      \<and> s_meta_seq st' = s_meta_seq st"
  proof (cases "l_fg (r_loadout r)")
    case (Some m)
    then have some: "l_fg (r_loadout r) \<noteq> None" by simp
    have st': "st' = st\<lparr>s_work := AList.update (row_hash r) (fg_touched now (s_fg_seq st) r ?w) (s_work st),
        s_fg_seq := s_fg_seq st + (if w_fg ?w = None then 1 else 0)\<rparr>"
      using merge_fg_step [OF assms(1) some assms(2), of now] assms(3) by simp
    then have w: "s_work st' = AList.update (row_hash r) (fg_touched now (s_fg_seq st) r ?w) (s_work st)" by simp
    have cur: "fg_number ?w = side_of fg_number st (row_hash r)" "meta_number ?w = side_of meta_number st (row_hash r)"
      by (simp_all add: side_of_current)
    have "(w_fg ?w = None) = (side_of fg_number st (row_hash r) = None)"
      unfolding cur(1) [symmetric] by (simp add: fg_number_def)
    then show ?thesis
      using numbered_step [OF assms(4), of "row_hash r"]
      unfolding side_of_update_fun [OF w] fg_touched_numbers [OF some] cur
      by (simp add: st' fun_upd_idem)
  qed (use assms in \<open>simp add: merge_fg_def\<close>)
  then show "numbered b p (side_of fg_number st') (s_fg_seq st')" "side_of meta_number st' = side_of meta_number st"
    "s_meta_seq st' = s_meta_seq st" by auto
qed

lemma merge_meta_numbers_fold:
  assumes "fold_res (merge_meta now) rs st = Inr st'" "state_ok st" "\<forall>r \<in> set rs. input_row r"
    and "numbered b p (side_of meta_number st) (s_meta_seq st)"
  shows "numbered b p (side_of meta_number st') (s_meta_seq st') \<and> side_of fg_number st' = side_of fg_number st
    \<and> s_fg_seq st' = s_fg_seq st"
  using assms
proof (induction rs arbitrary: st)
  case (Cons r rs)
  then obtain u where u: "merge_meta now r st = Inr u" "fold_res (merge_meta now) rs u = Inr st'"
    by (auto simp: bind_res_eq_Inr)
  note step = merge_meta_numbers [OF Cons.prems(2) u(1) Cons.prems(4)]
  have "state_ok u" using merge_meta_ok [OF Cons.prems(2), of r now] Cons.prems(3) u(1) by auto
  then show ?case using Cons.IH [OF u(2) _ _ step(1)] step(2,3) Cons.prems(3) by simp
qed simp

lemma merge_fg_numbers_fold:
  assumes "fold_res (merge_fg now) rs st = Inr st'" "state_ok st" "\<forall>r \<in> set rs. input_row r"
    and "numbered b p (side_of fg_number st) (s_fg_seq st)"
  shows "numbered b p (side_of fg_number st') (s_fg_seq st') \<and> side_of meta_number st' = side_of meta_number st"
  using assms
proof (induction rs arbitrary: st)
  case (Cons r rs)
  then obtain u where u: "merge_fg now r st = Inr u" "fold_res (merge_fg now) rs u = Inr st'"
    by (auto simp: bind_res_eq_Inr)
  have r: "input_row r" using Cons.prems by simp
  note step = merge_fg_numbers [OF Cons.prems(2) r u(1) Cons.prems(4)]
  have "state_ok u" using merge_fg_ok [OF Cons.prems(2) r, of now] u(1) by auto
  then show ?case using Cons.IH [OF u(2) _ _ step(1)] step(2) Cons.prems(3) by simp
qed simp

text \<open>The numbers of a list of rows, by loadout.\<close>

definition meta_numbers :: "row list \<Rightarrow> string \<Rightarrow> int option" where
  "meta_numbers rows h = (case find (\<lambda>r. row_hash r = h) rows of None \<Rightarrow> None
     | Some r \<Rightarrow> map_option m_seq (l_meta (r_loadout r)))"

definition fg_numbers :: "row list \<Rightarrow> string \<Rightarrow> int option" where
  "fg_numbers rows h = (case find (\<lambda>r. row_hash r = h) rows of None \<Rightarrow> None
     | Some r \<Rightarrow> map_option f_seq (l_fg (r_loadout r)))"

definition fresh_numbers :: "(string \<Rightarrow> int option) \<Rightarrow> int \<Rightarrow> bool" where
  "fresh_numbers f next \<longleftrightarrow> inj_on f (dom f) \<and> (\<forall>h n. f h = Some n \<longrightarrow> n < next)"

lemma find_hash:
  "distinct (map row_hash rows) \<Longrightarrow> r \<in> set rows \<Longrightarrow> find (\<lambda>q. row_hash q = row_hash r) rows = Some r"
  by (induction rows) (auto simp: image_iff)

lemma lift_numbers:
  assumes "distinct (map row_hash rows)" "s_work st = lift_rows rows"
  shows "side_of meta_number st = meta_numbers rows" "side_of fg_number st = fg_numbers rows"
  by (auto simp: fun_eq_iff side_of_def assms(2) map_of_lift_rows [OF assms(1)] meta_numbers_def fg_numbers_def
      meta_number_def fg_number_def lift_def Let_def split: option.splits)

lemma projected_numbers:
  assumes "state_ok st" "q = projected w" "(h, w) \<in> set (s_work st)"
  shows "map_option m_seq (l_meta (r_loadout q)) = side_of meta_number st (row_hash q)"
    "map_option f_seq (l_fg (r_loadout q)) = side_of fg_number st (row_hash q)"
proof -
  have "row_hash q = h" unfolding assms(2) by (rule project_ok(3) [OF state_ok_mem [OF assms(1,3)]])
  moreover have "map_of (s_work st) h = Some w" using assms(1,3) by (simp add: state_ok_def wf_dict_def)
  ultimately show "map_option m_seq (l_meta (r_loadout q)) = side_of meta_number st (row_hash q)"
    "map_option f_seq (l_fg (r_loadout q)) = side_of fg_number st (row_hash q)"
    by (simp_all add: side_of_def meta_number_def fg_number_def assms(2) projected_def Let_def)
qed

text \<open>What \<open>find\<close> and the two flags of a listed row leave alone.\<close>

lemma merge_numbers:
  assumes "\<forall>r \<in> set rows. input_row r" "\<forall>r \<in> set results. input_row r" "distinct (map row_hash rows)"
    and "fresh_numbers (meta_numbers rows) m" "fresh_numbers (fg_numbers rows) f"
    and "merge rows results now (m, f) = Inr out"
  obtains mnow mnext fnow fnext where
    "numbered (meta_numbers rows) m mnow mnext" "numbered (fg_numbers rows) f fnow fnext"
    "\<And>r. r \<in> set out \<Longrightarrow> map_option m_seq (l_meta (r_loadout r)) = mnow (row_hash r)"
    "\<And>r. r \<in> set out \<Longrightarrow> map_option f_seq (l_fg (r_loadout r)) = fnow (row_hash r)"
proof -
  let ?s = "\<lparr>s_work = lift_rows rows, s_meta_seq = fst (m, f), s_fg_seq = snd (m, f)\<rparr>"
  obtain st st' where st: "fold_res (merge_meta now) results ?s = Inr st"
    "fold_res (merge_fg now) results st = Inr st'" "state_ok st" "state_ok st'"
    "merge rows results now (m, f) = normalize (map (\<lambda>(h, w). projected w) (s_work st'))"
    by (rule merged_state [OF assms(1,2)])
  have start: "numbered (meta_numbers rows) m (side_of meta_number ?s) (s_meta_seq ?s)"
    "numbered (fg_numbers rows) f (side_of fg_number ?s) (s_fg_seq ?s)"
    using assms(4,5) lift_numbers [OF assms(3), of ?s] by (simp_all add: fresh_numbers_def numbered_refl)
  note ms = merge_meta_numbers_fold [OF st(1) lift_state_ok [OF assms(1)] assms(2) start(1)]
  have "numbered (fg_numbers rows) f (side_of fg_number st) (s_fg_seq st)" using ms start(2) by simp
  note fs = merge_fg_numbers_fold [OF st(2,3) assms(2) this]
  let ?ranked = "map (\<lambda>(h, w). projected w) (s_work st')"
  have out: "out = map (listed ?ranked) (filter (\<lambda>r. on_meta ?ranked r \<or> on_fg ?ranked r) ?ranked)"
    using normalize_eq [OF merged_rows_ok [OF st(4)]] st(5) assms(6) by simp
  have "map_option m_seq (l_meta (r_loadout r)) = side_of meta_number st' (row_hash r)
      \<and> map_option f_seq (l_fg (r_loadout r)) = side_of fg_number st' (row_hash r)" if r: "r \<in> set out" for r
  proof -
    obtain h w where "(h, w) \<in> set (s_work st')" "r = listed ?ranked (projected w)" using r unfolding out by auto
    then show ?thesis using projected_numbers [OF st(4) refl, of h w] by simp
  qed
  then show thesis by (intro that) (use ms fs in auto)
qed

text \<open>C25: Entry numbers stay unique. When the stored rows have distinct entry numbers below the next one, so do the rows
  after a merge, on either side; a loadout stored before keeps its number, and a new one gets a number that no row had.
  (The number breaks ties of a board, so equal scores keep their insertion order.)\<close>

theorem merge_entry_numbers:
  assumes "\<forall>r \<in> set rows. input_row r" "\<forall>r \<in> set results. input_row r" "distinct (map row_hash rows)"
    and "fresh_numbers (meta_numbers rows) m" "fresh_numbers (fg_numbers rows) f"
    and "merge rows results now (m, f) = Inr out" "r \<in> set out" "q \<in> set out"
  shows "(\<forall>a. l_meta (r_loadout r) = Some a \<longrightarrow>
      (if meta_numbers rows (row_hash r) = None then m \<le> m_seq a else meta_numbers rows (row_hash r) = Some (m_seq a))
      \<and> (\<forall>b. l_meta (r_loadout q) = Some b \<and> m_seq a = m_seq b \<longrightarrow> row_hash r = row_hash q))
    \<and> (\<forall>c. l_fg (r_loadout r) = Some c \<longrightarrow>
      (if fg_numbers rows (row_hash r) = None then f \<le> f_seq c else fg_numbers rows (row_hash r) = Some (f_seq c))
      \<and> (\<forall>d. l_fg (r_loadout q) = Some d \<and> f_seq c = f_seq d \<longrightarrow> row_hash r = row_hash q))"
proof -
  obtain mnow mnext fnow fnext where n:
    "numbered (meta_numbers rows) m mnow mnext" "numbered (fg_numbers rows) f fnow fnext"
    "\<And>r. r \<in> set out \<Longrightarrow> map_option m_seq (l_meta (r_loadout r)) = mnow (row_hash r)"
    "\<And>r. r \<in> set out \<Longrightarrow> map_option f_seq (l_fg (r_loadout r)) = fnow (row_hash r)"
    by (rule merge_numbers [OF assms(1-6)]) blast
  note r = n(3) [OF assms(7)] n(4) [OF assms(7)] and q = n(3) [OF assms(8)] n(4) [OF assms(8)]
  have meta: "(if meta_numbers rows (row_hash r) = None then m \<le> m_seq a else meta_numbers rows (row_hash r) = Some (m_seq a))
      \<and> (\<forall>b. l_meta (r_loadout q) = Some b \<and> m_seq a = m_seq b \<longrightarrow> row_hash r = row_hash q)"
    if "l_meta (r_loadout r) = Some a" for a
  proof (intro conjI allI impI)
    have a: "Some (m_seq a) = mnow (row_hash r)" using that r(1) by simp
    show "if meta_numbers rows (row_hash r) = None then m \<le> m_seq a else meta_numbers rows (row_hash r) = Some (m_seq a)"
      by (rule numbered_kept [OF n(1) a])
    fix b
    assume "l_meta (r_loadout q) = Some b \<and> m_seq a = m_seq b"
    then have "Some (m_seq a) = mnow (row_hash q)" using q(1) by auto
    then show "row_hash r = row_hash q" by (rule numbered_inj [OF n(1) a])
  qed
  have fg: "(if fg_numbers rows (row_hash r) = None then f \<le> f_seq c else fg_numbers rows (row_hash r) = Some (f_seq c))
      \<and> (\<forall>d. l_fg (r_loadout q) = Some d \<and> f_seq c = f_seq d \<longrightarrow> row_hash r = row_hash q)"
    if "l_fg (r_loadout r) = Some c" for c
  proof (intro conjI allI impI)
    have c: "Some (f_seq c) = fnow (row_hash r)" using that r(2) by simp
    show "if fg_numbers rows (row_hash r) = None then f \<le> f_seq c else fg_numbers rows (row_hash r) = Some (f_seq c)"
      by (rule numbered_kept [OF n(2) c])
    fix b
    assume "l_fg (r_loadout q) = Some b \<and> f_seq c = f_seq b"
    then have "Some (f_seq c) = fnow (row_hash q)" using q(2) by auto
    then show "row_hash r = row_hash q" by (rule numbered_inj [OF n(2) c])
  qed
  show ?thesis using meta fg by blast
qed

theorem merge_entry_numbers_witness:
  "let out = projr (merge [example_row ''a'' 5 None] [example_row ''b'' 7 None] 0 (4, 4)); r = hd out
   in meta_numbers [example_row ''a'' 5 None] (row_hash r) = Some 3 \<and> m_seq (the (l_meta (r_loadout r))) = 3"
proof -
  let ?m = "merge [example_row ''a'' 5 None] [example_row ''b'' 7 None] 0 (4, 4)"
  let ?r = "hd (projr ?m)"
  have eval: "?m = Inr (projr ?m) \<and> ?r \<in> set (projr ?m) \<and> l_meta (r_loadout ?r) = Some (the (l_meta (r_loadout ?r)))
      \<and> row_hash ?r = ''a''" by code_simp
  have nums: "meta_numbers [example_row ''a'' 5 None] = (\<lambda>h. if h = ''a'' then Some 3 else None)"
    "fg_numbers [example_row ''a'' 5 None] = (\<lambda>h. None)"
    by (auto simp: fun_eq_iff meta_numbers_def fg_numbers_def) (simp_all add: example_row_def example_loadout_def)
  have fresh: "fresh_numbers (meta_numbers [example_row ''a'' 5 None]) 4" "fresh_numbers (fg_numbers [example_row ''a'' 5 None]) 4"
    unfolding nums by (auto simp: fresh_numbers_def dom_def inj_on_def split: if_splits)
  show ?thesis
    using merge_entry_numbers [of "[example_row ''a'' 5 None]" "[example_row ''b'' 7 None]" 4 4 0 "projr ?m" ?r ?r] eval fresh
    unfolding Let_def nums by auto
qed

end
