(* ===== verification/GameEngine.thy ===== *)
theory GameEngine
  imports Score Timing "HOL-Library.Product_Lexorder"
begin

text \<open>
  tools/verify/game_sim.py, first half: the game's stat curves as the simulator ports them and its score
  engine (points, combo, fever bar). The optimizer's own curves are GameData's; this is the independent
  port its results are checked against. \<open>math.hypot\<close> is the correctly rounded root of the exact sum.
\<close>

section \<open>The simulator's stat curves\<close>

definition sim_clamp :: "f64 \<Rightarrow> f64 \<Rightarrow> f64 \<Rightarrow> f64" where
  "sim_clamp v lo hi = (if v < lo then lo else if v > hi then hi else v)"

definition safe_div :: "f64 \<Rightarrow> f64 \<Rightarrow> f64 res" where
  "safe_div x y = (if y = 0 then Inl ZeroDivisionError else Inr (div64 x y))"

definition y_for_2pt_line :: "f64 \<Rightarrow> f64 \<Rightarrow> f64 \<Rightarrow> f64 \<Rightarrow> f64 \<Rightarrow> f64 res" where
  "y_for_2pt_line x1 y1 x2 y2 x =
     bind_res (safe_div (sub64 y1 y2) (sub64 x1 x2)) (\<lambda>slope.
       Inr (add64 (mul64 slope x) (sub64 y1 (mul64 slope x1))))"

definition bezier1d :: "f64 \<Rightarrow> f64 \<Rightarrow> f64 \<Rightarrow> f64 \<Rightarrow> f64 \<Rightarrow> f64" where
  "bezier1d a b c d t =
     (let u = sub64 1 t
      in add64 (add64 (add64 (mul64 (mul64 (mul64 u u) u) a)
                             (mul64 (mul64 (mul64 (mul64 3 t) u) u) b))
                      (mul64 (mul64 (mul64 (mul64 3 t) t) u) c))
               (mul64 (mul64 (mul64 t t) t) d))"

definition hypot64 :: "f64 \<Rightarrow> f64 \<Rightarrow> f64" where
  "hypot64 x y = sqrt64 (x * x + y * y)"

record bezier_dist =
  bd_y :: "f64 list"
  bd_ts :: "f64 list"
  bd_dists :: "f64 list"
  bd_total :: f64

text \<open>The chords of \<open>__init__\<close>: the parameters and the running arc lengths, latest first.\<close>

fun bezier_chords :: "nat \<Rightarrow> f64 \<Rightarrow> f64 list \<Rightarrow> f64 list \<Rightarrow> f64 \<times> f64 \<Rightarrow> f64 list \<Rightarrow> f64 list \<Rightarrow>
    f64 list \<times> f64 list" where
  "bezier_chords 0 dt xs ys p ts dists = (ts, dists)"
| "bezier_chords (Suc n) dt xs ys (px, py) ts dists =
     (let t = add64 (hd ts) dt;
          cx = bezier1d (xs ! 0) (xs ! 1) (xs ! 2) (xs ! 3) t;
          cy = bezier1d (ys ! 0) (ys ! 1) (ys ! 2) (ys ! 3) t
      in bezier_chords n dt xs ys (cx, cy) (t # ts) (add64 (hd dists) (hypot64 (sub64 cx px) (sub64 cy py)) # dists))"

definition make_bezier_dist :: "f64 list \<Rightarrow> f64 list \<Rightarrow> bezier_dist" where
  "make_bezier_dist xs ys =
     (case bezier_chords 10 (r64 (1 / 10)) xs ys (xs ! 0, ys ! 0) [0] [0] of
        (ts, dists) \<Rightarrow> \<lparr>bd_y = ys, bd_ts = rev ts, bd_dists = rev dists, bd_total = hd dists\<rparr>)"

function dist_bracket :: "f64 list \<Rightarrow> f64 \<Rightarrow> nat \<Rightarrow> nat \<Rightarrow> nat" where
  "dist_bracket dists target lo hi =
     (if hi - lo > 1
      then let mid = lo + (hi - lo) div 2
           in if dists ! mid < target then dist_bracket dists target mid hi
              else dist_bracket dists target lo mid
      else lo)"
  by pat_completeness auto
termination
  by (relation "measure (\<lambda>(dists, target, lo, hi). hi - lo)") auto

declare dist_bracket.simps [simp del]

definition t_for_distance :: "bezier_dist \<Rightarrow> f64 \<Rightarrow> f64 res" where
  "t_for_distance b d =
     (let v = sim_clamp d 0 (bd_total b); dists = bd_dists b; ts = bd_ts b
      in if v = bd_total b then Inr 1
         else let i = dist_bracket dists v 0 (length dists - 1); d0 = dists ! i
              in bind_res (safe_div (sub64 v d0) (sub64 (dists ! (i + 1)) d0)) (\<lambda>part.
                   Inr (add64 (ts ! i) (mul64 (sub64 (ts ! (i + 1)) (ts ! i)) part))))"

definition y_for_distance_pct :: "bezier_dist \<Rightarrow> f64 \<Rightarrow> f64 res" where
  "y_for_distance_pct b pct =
     bind_res (t_for_distance b (mul64 (bd_total b) pct)) (\<lambda>t.
       Inr (bezier1d (bd_y b ! 0) (bd_y b ! 1) (bd_y b ! 2) (bd_y b ! 3) t))"

definition SIM_EASE_NEG_40_0 :: bezier_dist where
  "SIM_EASE_NEG_40_0 = make_bezier_dist [0, r64 (4 / 10), 1, 1] [0, r64 (1 / 10), r64 (8 / 10), 1]"
definition SIM_EASE_NEG_80_40 :: bezier_dist where
  "SIM_EASE_NEG_80_40 = make_bezier_dist [0, r64 (8 / 10), r64 (9 / 10), 1] [0, 0, r64 (8 / 10), 1]"
definition SIM_EASE_0_40 :: bezier_dist where
  "SIM_EASE_0_40 = make_bezier_dist [0, 0, r64 (7 / 10), 1] [0, r64 (4 / 10), r64 (9 / 10), 1]"
definition SIM_EASE_40_80 :: bezier_dist where
  "SIM_EASE_40_80 = make_bezier_dist [0, r64 (2 / 10), r64 (4 / 10), 1] [0, r64 (1 / 10), 1, 1]"
definition SIM_EASE_80_160 :: bezier_dist where
  "SIM_EASE_80_160 = make_bezier_dist [0, 0, r64 (6 / 10), 1] [0, 1 / 2, 1, 1]"

definition sim_lerp :: "f64 \<Rightarrow> f64 \<Rightarrow> f64 \<Rightarrow> f64" where
  "sim_lerp a b t = add64 (mul64 (sub64 b a) t) a"

definition eased :: "f64 \<Rightarrow> f64 \<Rightarrow> bezier_dist \<Rightarrow> f64 res \<Rightarrow> f64 res" where
  "eased a b ease pct = bind_res pct (\<lambda>pct. bind_res (y_for_distance_pct ease pct) (\<lambda>t. Inr (sim_lerp a b t)))"

text \<open>\<open>f_N\<close>: every value here is finite, so the test for infinities and NaNs at its end never applies.\<close>

definition f_N :: "f64 \<Rightarrow> f64 \<Rightarrow> f64 \<Rightarrow> f64 \<Rightarrow> f64 \<Rightarrow> f64 \<Rightarrow> f64 res" where
  "f_N aN80 aN40 a0 a40 a80 stat =
     (let s = sim_clamp stat (- 80) 160
      in if s > 0 then
           if s < 40 then eased a0 a40 SIM_EASE_0_40 (y_for_2pt_line 0 0 40 1 s)
           else if s > 80 then
             eased a80 (add64 a80 (mul64 (sub64 a80 a40) (r64 (35 / 100)))) SIM_EASE_80_160 (y_for_2pt_line 80 0 160 1 s)
           else eased a40 a80 SIM_EASE_40_80 (y_for_2pt_line 40 0 80 1 s)
         else if s < 0 then
           if s > - 40 then eased aN40 a0 SIM_EASE_NEG_40_0 (y_for_2pt_line (- 40) 0 0 1 s)
           else eased aN80 aN40 SIM_EASE_NEG_80_40 (y_for_2pt_line (- 80) 0 (- 40) 1 s)
         else Inr a0)"

type_synonym sim_stats = "(string, f64) dict"

definition GEAR_STAT_TYPES :: "string list" where
  "GEAR_STAT_TYPES = [''ColorBlue'', ''ColorGreen'', ''ColorPurple'', ''ColorRed'', ''ColorOrange'',
     ''NoteSpeed'', ''PerfectTime'', ''PerfectPoints'', ''GreatTime'', ''GreatPoints'',
     ''OkayTime'', ''OkayPoints'', ''ComboThreshold'', ''ComboMultiplier'', ''ComboBreakMultiplier'',
     ''FeverFillRate'', ''FeverMultiplier'', ''FeverTime'', ''FeverDrainRate'']"

definition statsdict_from :: "sim_stats \<Rightarrow> sim_stats res" where
  "statsdict_from partial =
     fold_res (\<lambda>(k, v) out. if map_of out k = None then Inl ValueError else Inr (AList.update k v out))
       partial (map (\<lambda>k. (k, 0)) GEAR_STAT_TYPES)"

definition stat_f :: "f64 \<Rightarrow> f64 \<Rightarrow> f64 \<Rightarrow> f64 \<Rightarrow> f64 \<Rightarrow> string \<Rightarrow> sim_stats \<Rightarrow> f64 res" where
  "stat_f aN80 aN40 a0 a40 a80 key s = bind_res (lookup s key) (f_N aN80 aN40 a0 a40 a80)"

definition sim_perfect_points :: "sim_stats \<Rightarrow> int res" where
  "sim_perfect_points s = map_sum id floor (stat_f 50 100 200 350 450 ''PerfectPoints'' s)"

definition sim_great_points :: "sim_stats \<Rightarrow> int res" where
  "sim_great_points s = map_sum id floor (stat_f 35 75 150 225 300 ''GreatPoints'' s)"

definition sim_okay_points :: "sim_stats \<Rightarrow> int res" where
  "sim_okay_points s = map_sum id floor (stat_f 25 50 100 150 200 ''OkayPoints'' s)"

definition combo_thresholds :: "sim_stats \<Rightarrow> (f64 \<times> f64 \<times> f64) res" where
  "combo_thresholds s =
     bind_res (stat_f 600 450 100 20 10 ''ComboThreshold'' s) (\<lambda>v.
       Inr (of_int \<lfloor>mul64 v (1 / 4)\<rfloor>, of_int \<lfloor>mul64 v (1 / 2)\<rfloor>, v))"

definition combo_multipliers :: "sim_stats \<Rightarrow> (f64 \<times> f64 \<times> f64) res" where
  "combo_multipliers s =
     bind_res (stat_f 0 (1 / 4) 1 (r64 (14 / 10)) (r64 (16 / 10)) ''ComboMultiplier'' s) (\<lambda>v.
       Inr (add64 1 (mul64 v (1 / 4)), add64 1 (mul64 v (1 / 2)), add64 1 v))"

definition continuous_combo_multiplier :: "sim_stats \<Rightarrow> int \<Rightarrow> f64 res" where
  "continuous_combo_multiplier s combo =
     bind_res (combo_thresholds s) (\<lambda>(t1, t2, t3).
     bind_res (combo_multipliers s) (\<lambda>(m1, m2, m3).
       let c = of_int combo
       in if c \<le> t1 then y_for_2pt_line 0 1 t1 m1 c
          else if c \<le> t2 then y_for_2pt_line t1 m1 t2 m2 c
          else if c \<le> t3 then y_for_2pt_line t2 m2 t3 m3 c
          else Inr m3))"

definition fever_decay_rate :: "sim_stats \<Rightarrow> f64 res" where
  "fever_decay_rate s = stat_f 0 (r64 (5 / 100)) (r64 (15 / 100)) (r64 (35 / 100)) (r64 (4 / 10)) ''FeverTime'' s"

definition fever_miss_drain_pct :: "sim_stats \<Rightarrow> f64 res" where
  "fever_miss_drain_pct s = stat_f (1 / 2) (1 / 4) (r64 (1 / 10)) (r64 (1 / 100)) 0 ''FeverDrainRate'' s"

definition fever_fill_scales :: "sim_stats \<Rightarrow> (f64 \<times> f64) res" where
  "fever_fill_scales s =
     bind_res (stat_f (r64 (6 / 10)) (1 / 2) (r64 (333 / 1000)) (r64 (166 / 1000)) (r64 (1 / 10)) ''FeverFillRate'' s)
       (\<lambda>v. Inr (v, mul64 v 2))"

definition sim_fever_multiplier :: "sim_stats \<Rightarrow> f64 res" where
  "sim_fever_multiplier s = stat_f 1 (5 / 4) 3 (19 / 4) (21 / 4) ''FeverMultiplier'' s"

definition combo_break_multiplier :: "sim_stats \<Rightarrow> f64 res" where
  "combo_break_multiplier s = stat_f 0 (r64 (1 / 10)) (1 / 2) (r64 (9 / 10)) 1 ''ComboBreakMultiplier'' s"

definition chain_after_break :: "sim_stats \<Rightarrow> int \<Rightarrow> int res" where
  "chain_after_break s chain_len = map_sum id (\<lambda>m. \<lfloor>mul64 m (of_int chain_len)\<rfloor>) (combo_break_multiplier s)"

section \<open>Judgments\<close>

datatype judgement = Perfect | Great | Okay | Miss

text \<open>The six edges of a note: late Okay, late Great, late Perfect, early Perfect, early Great, early Okay.\<close>

definition JUDGE_EDGES_TAP :: "f64 list" where "JUDGE_EDGES_TAP = [430, 190, 40, - 20, - 95, - 235]"
definition JUDGE_EDGES_TAIL :: "f64 list" where "JUDGE_EDGES_TAIL = map (\<lambda>e. mul64 e 2) JUDGE_EDGES_TAP"
definition TAIL_WINDOW_SCALE :: int where "TAIL_WINDOW_SCALE = 2"
definition NOTE_REMOVE_MS :: f64 where "NOTE_REMOVE_MS = 200"

definition judge_with_edges :: "f64 \<Rightarrow> f64 list \<Rightarrow> judgement" where
  "judge_with_edges delta edges =
     (if delta > edges ! 0 then Miss
      else if delta > edges ! 1 then Okay
      else if delta > edges ! 2 then Great
      else if delta > edges ! 3 then Perfect
      else if delta > edges ! 4 then Great
      else if delta > edges ! 5 then Okay
      else Miss)"

definition note_times :: "sim_stats \<Rightarrow> f64 list res" where
  "note_times s =
     bind_res (stat_f 0 10 40 120 140 ''PerfectTime'' s) (\<lambda>perfect_late.
     bind_res (stat_f 0 (- 5) (- 20) (- 60) (- 80) ''PerfectTime'' s) (\<lambda>perfect_early.
     bind_res (stat_f 0 30 150 600 700 ''GreatTime'' s) (\<lambda>great_extra_late.
     bind_res (stat_f 0 (- 15) (- 75) (- 300) 360 ''GreatTime'' s) (\<lambda>great_extra_early.
     bind_res (stat_f 0 40 240 960 1040 ''OkayTime'' s) (\<lambda>okay_extra_late.
     bind_res (stat_f 0 (- 20) (- 140) (- 560) (- 640) ''OkayTime'' s) (\<lambda>okay_extra_early.
       let great_late = add64 perfect_late great_extra_late; great_early = add64 perfect_early great_extra_early
       in Inr [add64 great_late okay_extra_late, great_late, perfect_late,
               perfect_early, great_early, add64 great_early okay_extra_early]))))))"

section \<open>The score engine\<close>

datatype hit_kind = Note | Whiff | EarlyRelease

record game_config =
  hit_objects_count :: int
  last_note_time_sec :: f64

record game_engine =
  e_stats :: sim_stats
  e_colors :: "string list"
  e_score :: int
  e_chain :: int
  e_max_chain :: int
  e_bar :: f64
  e_active :: bool
  e_manual :: bool
  e_perfects :: int
  e_greats :: int
  e_okays :: int
  e_misses :: int
  e_whiffs :: int
  e_local_notes :: int
  e_fever_hits :: int
  e_powerbar_notes :: int
  e_wasted_pending :: bool
  e_fill_denom :: f64
  e_great_denom :: f64
  e_fever_time :: f64
  e_fever_mult :: f64
  e_miss_drain :: f64
  e_base_points :: "judgement \<Rightarrow> int"

definition new_engine :: "game_config \<Rightarrow> sim_stats \<Rightarrow> string list \<Rightarrow> game_engine res" where
  "new_engine cfg s colors =
     bind_res (fever_fill_scales s) (\<lambda>(fill_perfect, fill_great).
     bind_res (fever_decay_rate s) (\<lambda>decay.
     bind_res (sim_fever_multiplier s) (\<lambda>mult.
     bind_res (fever_miss_drain_pct s) (\<lambda>drain.
     bind_res (sim_perfect_points s) (\<lambda>perfect.
     bind_res (sim_great_points s) (\<lambda>great.
     bind_res (sim_okay_points s) (\<lambda>okay.
       let objects = of_int (hit_objects_count cfg)
       in Inr \<lparr>e_stats = s, e_colors = colors, e_score = 0, e_chain = 0, e_max_chain = 0, e_bar = 0, e_active = False,
               e_manual = False, e_perfects = 0, e_greats = 0, e_okays = 0, e_misses = 0, e_whiffs = 0, e_local_notes = 0,
               e_fever_hits = 0, e_powerbar_notes = 0, e_wasted_pending = False,
               e_fill_denom = mul64 objects fill_perfect, e_great_denom = mul64 objects fill_great,
               e_fever_time = mul64 (mul64 (last_note_time_sec cfg) (r64 (15 / 100))) (div64 decay (r64 (15 / 100))),
               e_fever_mult = mult, e_miss_drain = drain,
               e_base_points = (\<lambda>j. case j of Perfect \<Rightarrow> perfect | Great \<Rightarrow> great | Okay \<Rightarrow> okay | Miss \<Rightarrow> 0)\<rparr>)))))))"

definition FEVER_ACTIVATE_AT :: f64 where "FEVER_ACTIVATE_AT = 1"

definition drain_weight :: "judgement \<Rightarrow> f64" where
  "drain_weight j = (case j of Okay \<Rightarrow> 1 / 4 | Miss \<Rightarrow> 1 | _ \<Rightarrow> 0)"

definition fever_fill :: "game_engine \<Rightarrow> judgement \<Rightarrow> f64 res" where
  "fever_fill e result =
     (if e_fill_denom e \<le> 0 then Inr 0
      else case result of
        Perfect \<Rightarrow> safe_div 1 (e_fill_denom e)
      | Great \<Rightarrow> safe_div 1 (e_great_denom e)
      | _ \<Rightarrow> Inr 0)"

definition scaled_points :: "f64 \<Rightarrow> string \<Rightarrow> sim_stats \<Rightarrow> int res" where
  "scaled_points f color s = bind_res (lookup s color) (\<lambda>v. Inr \<lfloor>mul64 f v\<rfloor>)"

definition color_point_bonus :: "sim_stats \<Rightarrow> judgement \<Rightarrow> string list \<Rightarrow> (int \<times> int) res" where
  "color_point_bonus s result colors =
     (case colors of
        [] \<Rightarrow> Inr (0, 0)
      | [c] \<Rightarrow> bind_res (scaled_points (case result of Perfect \<Rightarrow> 3 | Great \<Rightarrow> 2 | Okay \<Rightarrow> 1 | Miss \<Rightarrow> 0) c s) (\<lambda>p. Inr (p, 0))
      | c # c' # _ \<Rightarrow>
          (let (f1, f2) = (case result of Perfect \<Rightarrow> (2, 1)
                | Great \<Rightarrow> (div64 4 3, div64 2 3)
                | Okay \<Rightarrow> (div64 2 3, div64 1 3)
                | Miss \<Rightarrow> (0, 0))
           in bind_res (scaled_points f1 c s) (\<lambda>p1. bind_res (scaled_points f2 c' s) (\<lambda>p2. Inr (p1, p2)))))"

text \<open>The fever bar's part of \<open>register_hit\<close>.\<close>

definition hit_fever :: "judgement \<Rightarrow> game_engine \<Rightarrow> game_engine res" where
  "hit_fever result e =
     (if e_active e then
        Inr (e\<lparr>e_bar := sim_clamp (sub64 (e_bar e) (mul64 (e_miss_drain e) (drain_weight result))) 0 1\<rparr>)
      else if e_wasted_pending e then Inr (e\<lparr>e_wasted_pending := False\<rparr>)
      else bind_res (fever_fill e result) (\<lambda>fill.
        let e = e\<lparr>e_bar := sim_clamp (add64 (e_bar e) fill) 0 1\<rparr>
        in if \<not> e_manual e \<and> e_bar e \<ge> FEVER_ACTIVATE_AT then Inr (e\<lparr>e_active := True, e_powerbar_notes := 0\<rparr>)
           else Inr e))"

text \<open>Its combo and tally part: the engine and whether the hit counts.\<close>

definition hit_chain :: "judgement \<Rightarrow> hit_kind \<Rightarrow> game_engine \<Rightarrow> (game_engine \<times> bool) res" where
  "hit_chain result kind e =
     (case result of
        Perfect \<Rightarrow> Inr (e\<lparr>e_chain := e_chain e + 1, e_perfects := e_perfects e + 1, e_local_notes := e_local_notes e + 1\<rparr>, True)
      | Great \<Rightarrow> Inr (e\<lparr>e_chain := e_chain e + 1, e_greats := e_greats e + 1, e_local_notes := e_local_notes e + 1\<rparr>, True)
      | Okay \<Rightarrow> Inr (e\<lparr>e_okays := e_okays e + 1, e_local_notes := e_local_notes e + 1\<rparr>, True)
      | Miss \<Rightarrow>
          bind_res (if e_chain e > 0
                    then bind_res (chain_after_break (e_stats e) (e_chain e)) (\<lambda>c. Inr (e\<lparr>e_chain := c\<rparr>, True))
                    else Inr (e, kind = Note)) (\<lambda>(e, counted).
            Inr (if counted
                 then let e = e\<lparr>e_misses := e_misses e + 1\<rparr>
                      in if kind \<noteq> Note then e\<lparr>e_whiffs := e_whiffs e + 1\<rparr> else e\<lparr>e_local_notes := e_local_notes e + 1\<rparr>
                 else e, counted)))"

definition register_hit :: "judgement \<Rightarrow> hit_kind \<Rightarrow> game_engine \<Rightarrow> (game_engine \<times> int \<times> bool) res" where
  "register_hit result kind e =
     bind_res (hit_fever result e) (\<lambda>e.
     let e = e\<lparr>e_max_chain := max (e_chain e) (e_max_chain e)\<rparr>
     in bind_res (hit_chain result kind e) (\<lambda>(e, counted).
     bind_res (color_point_bonus (e_stats e) result (e_colors e)) (\<lambda>(c1, c2).
     bind_res (continuous_combo_multiplier (e_stats e) (e_chain e)) (\<lambda>chain_mult.
       let base = e_base_points e result + c1 + c2;
           points = \<lfloor>mul64 (mul64 (r64 (of_int base)) chain_mult) (if e_active e then e_fever_mult e else 1)\<rfloor>
       in if \<not> counted then Inr (e, points, counted)
          else let e = e\<lparr>e_score := e_score e + points\<rparr>;
                   e = (if result \<noteq> Miss then e\<lparr>e_powerbar_notes := e_powerbar_notes e + 1\<rparr> else e);
                   e = (if result \<noteq> Miss \<and> e_active e then e\<lparr>e_fever_hits := e_fever_hits e + 1\<rparr> else e)
               in Inr (e, points, counted)))))"

definition fever_tick :: "f64 \<Rightarrow> bool \<Rightarrow> game_engine \<Rightarrow> game_engine res" where
  "fever_tick dt trigger_pressed e =
     (if e_active e then
        bind_res (safe_div dt (e_fever_time e)) (\<lambda>drained.
          let e = e\<lparr>e_bar := sub64 (e_bar e) drained\<rparr>
          in Inr (if e_bar e \<le> 0 then e\<lparr>e_bar := 0, e_active := False, e_wasted_pending := True\<rparr> else e))
      else
        let e = e\<lparr>e_powerbar_notes := 0\<rparr>
        in Inr (if e_bar e \<ge> FEVER_ACTIVATE_AT \<and> (\<not> e_manual e \<or> trigger_pressed)
                then e\<lparr>e_active := True, e_powerbar_notes := 1\<rparr> else e))"

definition max_combo :: "game_engine \<Rightarrow> int" where
  "max_combo e = max (e_max_chain e) (e_chain e)"

definition fever_percentage :: "game_engine \<Rightarrow> f64" where
  "fever_percentage e =
     (if e_local_notes e > 0 then div64 (of_int (e_fever_hits e)) (of_int (e_local_notes e)) else 0)"

section \<open>The engine's state machine\<close>

text \<open>What a frame or an input does to the engine: a judged hit, or time passing.\<close>

inductive engine_step :: "game_engine \<Rightarrow> game_engine \<Rightarrow> bool" where
  hit: "register_hit result kind e = Inr (e', points, counted) \<Longrightarrow> engine_step e e'"
| tick: "0 < dt \<Longrightarrow> fever_tick dt trigger e = Inr e' \<Longrightarrow> engine_step e e'"

inductive_cases engine_stepE: "engine_step e e'"

text \<open>The bar is a fill between empty and full; outside fever it is below full (an automatic engine starts fever at
  once) and empty while a wasted hit is pending; every counted judgment is a chart note or a whiff.\<close>

definition engine_ok :: "game_engine \<Rightarrow> bool" where
  "engine_ok e \<longleftrightarrow> 0 \<le> e_bar e \<and> e_bar e \<le> 1
     \<and> (\<not> e_active e \<longrightarrow> e_manual e \<or> e_bar e < 1)
     \<and> (e_wasted_pending e \<longrightarrow> \<not> e_active e \<and> e_bar e = 0)
     \<and> 0 \<le> e_perfects e \<and> 0 \<le> e_greats e \<and> 0 \<le> e_okays e \<and> 0 \<le> e_misses e \<and> 0 \<le> e_whiffs e
     \<and> e_perfects e + e_greats e + e_okays e + e_misses e = e_local_notes e + e_whiffs e
     \<and> 0 \<le> e_fever_hits e \<and> e_fever_hits e \<le> e_perfects e + e_greats e + e_okays e
     \<and> e_whiffs e \<le> e_misses e"

lemma sim_clamp_bounds: "lo \<le> hi \<Longrightarrow> lo \<le> sim_clamp v lo hi \<and> sim_clamp v lo hi \<le> hi"
  by (auto simp: sim_clamp_def)

lemma hit_fever_cases:
  assumes "hit_fever result e = Inr e'"
  obtains (drain) b where "e_active e" "0 \<le> b" "b \<le> 1" "e' = e\<lparr>e_bar := b\<rparr>"
  | (wasted) "\<not> e_active e" "e_wasted_pending e" "e' = e\<lparr>e_wasted_pending := False\<rparr>"
  | (start) b where "\<not> e_active e" "\<not> e_wasted_pending e" "\<not> e_manual e" "0 \<le> b" "b \<le> 1"
      "e' = e\<lparr>e_bar := b, e_active := True, e_powerbar_notes := 0\<rparr>"
  | (fill) b where "\<not> e_active e" "\<not> e_wasted_pending e" "e_manual e \<or> b < 1" "0 \<le> b" "b \<le> 1" "e' = e\<lparr>e_bar := b\<rparr>"
proof (cases "e_active e")
  case True
  show thesis
    by (rule drain [OF True, of "sim_clamp (sub64 (e_bar e) (mul64 (e_miss_drain e) (drain_weight result))) 0 1"])
      (use assms True sim_clamp_bounds [of 0 1] in \<open>simp_all add: hit_fever_def\<close>)
next
  case False
  note inactive = False
  show thesis
  proof (cases "e_wasted_pending e")
    case True
    show thesis by (rule wasted [OF inactive True]) (use assms inactive True in \<open>simp add: hit_fever_def\<close>)
  next
    case False
    obtain gain where gain: "fever_fill e result = Inr gain"
      using assms inactive False by (auto simp: hit_fever_def bind_res_eq_Inr)
    let ?b = "sim_clamp (add64 (e_bar e) gain) 0 1"
    have b: "0 \<le> ?b" "?b \<le> 1" using sim_clamp_bounds [of 0 1] by simp_all
    show thesis
    proof (cases "\<not> e_manual e \<and> FEVER_ACTIVATE_AT \<le> ?b")
      case True
      then have eq: "e' = e\<lparr>e_bar := ?b, e_active := True, e_powerbar_notes := 0\<rparr>"
        using assms inactive False gain by (simp add: hit_fever_def Let_def)
      show thesis by (rule start [OF inactive False _ b eq]) (use True in simp)
    next
      case no: False
      then have "hit_fever result e = Inr (e\<lparr>e_bar := ?b\<rparr>)"
        using inactive False gain by (cases "e_manual e") (simp_all add: hit_fever_def Let_def)
      then have eq: "e' = e\<lparr>e_bar := ?b\<rparr>" using assms by simp
      show thesis by (rule fill [OF inactive False _ b eq]) (use no in \<open>auto simp: FEVER_ACTIVATE_AT_def\<close>)
    qed
  qed
qed

lemma hit_fever_ok:
  assumes "engine_ok e" "hit_fever result e = Inr e'"
  shows "engine_ok e'"
  using assms(2)
proof (cases rule: hit_fever_cases)
  case (drain b)
  then show ?thesis using assms(1) by (simp add: engine_ok_def)
next
  case wasted
  then show ?thesis using assms(1) by (simp add: engine_ok_def)
next
  case (start b)
  then show ?thesis using assms(1) by (simp add: engine_ok_def)
next
  case (fill b)
  then show ?thesis using assms(1) by (simp add: engine_ok_def)
qed

lemma hit_chain_cases:
  assumes "hit_chain result kind e = Inr (e', counted)"
  obtains (perfect) "result = Perfect" "counted"
      "e' = e\<lparr>e_chain := e_chain e + 1, e_perfects := e_perfects e + 1, e_local_notes := e_local_notes e + 1\<rparr>"
  | (great) "result = Great" "counted"
      "e' = e\<lparr>e_chain := e_chain e + 1, e_greats := e_greats e + 1, e_local_notes := e_local_notes e + 1\<rparr>"
  | (okay) "result = Okay" "counted" "e' = e\<lparr>e_okays := e_okays e + 1, e_local_notes := e_local_notes e + 1\<rparr>"
  | (miss) c where "result = Miss" "counted" "kind = Note"
      "e' = e\<lparr>e_chain := c, e_misses := e_misses e + 1, e_local_notes := e_local_notes e + 1\<rparr>"
  | (whiff) c where "result = Miss" "counted" "kind \<noteq> Note"
      "e' = e\<lparr>e_chain := c, e_misses := e_misses e + 1, e_whiffs := e_whiffs e + 1\<rparr>"
  | (ignored) "result = Miss" "\<not> counted" "kind \<noteq> Note" "e' = e"
proof (cases result)
  case Miss
  show thesis
  proof (cases "e_chain e > 0")
    case True
    then obtain c where "chain_after_break (e_stats e) (e_chain e) = Inr c"
      using assms Miss by (auto simp: hit_chain_def bind_res_eq_Inr)
    then have eq: "hit_chain result kind e = Inr (let e = e\<lparr>e_chain := c, e_misses := e_misses e + 1\<rparr>
        in if kind \<noteq> Note then e\<lparr>e_whiffs := e_whiffs e + 1\<rparr> else e\<lparr>e_local_notes := e_local_notes e + 1\<rparr>, True)"
      using Miss True by (simp add: hit_chain_def Let_def)
    show thesis
    proof (cases "kind = Note")
      case True
      show thesis by (rule miss [OF Miss _ True, of c]) (use assms eq True in \<open>simp_all add: Let_def\<close>)
    next
      case False
      show thesis by (rule whiff [OF Miss _ False, of c]) (use assms eq False in \<open>simp_all add: Let_def\<close>)
    qed
  next
    case False
    show thesis
    proof (cases "kind = Note")
      case True
      then have "hit_chain result kind e = Inr (e\<lparr>e_misses := e_misses e + 1, e_local_notes := e_local_notes e + 1\<rparr>, True)"
        using Miss False by (simp add: hit_chain_def Let_def)
      then show thesis using assms by (intro miss [of "e_chain e", OF Miss _ True]) auto
    next
      case no: False
      then have "hit_chain result kind e = Inr (e, False)" using Miss False by (simp add: hit_chain_def Let_def)
      then show thesis using assms by (intro ignored [OF Miss _ no]) auto
    qed
  qed
next
  case Perfect
  show thesis by (rule perfect [OF Perfect]) (use assms Perfect in \<open>simp_all add: hit_chain_def\<close>)
next
  case Great
  show thesis by (rule great [OF Great]) (use assms Great in \<open>simp_all add: hit_chain_def\<close>)
next
  case Okay
  show thesis by (rule okay [OF Okay]) (use assms Okay in \<open>simp_all add: hit_chain_def\<close>)
qed

lemma hit_chain_ok:
  assumes "engine_ok e" "hit_chain result kind e = Inr (e', counted)"
  shows "engine_ok e'" "counted \<Longrightarrow> result \<noteq> Miss \<Longrightarrow> e_fever_hits e' < e_perfects e' + e_greats e' + e_okays e'"
proof -
  have "engine_ok e' \<and> (counted \<and> result \<noteq> Miss \<longrightarrow> e_fever_hits e' < e_perfects e' + e_greats e' + e_okays e')"
    using assms(2)
  proof (cases rule: hit_chain_cases)
    case perfect
    then show ?thesis using assms(1) by (simp add: engine_ok_def)
  next
    case great
    then show ?thesis using assms(1) by (simp add: engine_ok_def)
  next
    case okay
    then show ?thesis using assms(1) by (simp add: engine_ok_def)
  next
    case (miss c)
    then show ?thesis using assms(1) by (simp add: engine_ok_def)
  next
    case (whiff c)
    then show ?thesis using assms(1) by (simp add: engine_ok_def)
  next
    case ignored
    then show ?thesis using assms(1) by simp
  qed
  then show "engine_ok e'" "counted \<Longrightarrow> result \<noteq> Miss \<Longrightarrow> e_fever_hits e' < e_perfects e' + e_greats e' + e_okays e'"
    by simp_all
qed

lemma register_hit_parts:
  assumes "register_hit result kind e = Inr (e', points, counted)"
  obtains e1 e2 c1 c2 m where "hit_fever result e = Inr e1"
    "hit_chain result kind (e1\<lparr>e_max_chain := max (e_chain e1) (e_max_chain e1)\<rparr>) = Inr (e2, counted)"
    "color_point_bonus (e_stats e2) result (e_colors e2) = Inr (c1, c2)"
    "continuous_combo_multiplier (e_stats e2) (e_chain e2) = Inr m"
    "points = \<lfloor>mul64 (mul64 (r64 (of_int (e_base_points e2 result + c1 + c2))) m) (if e_active e2 then e_fever_mult e2 else 1)\<rfloor>"
    "e' = (if \<not> counted then e2 else e2\<lparr>e_score := e_score e2 + points,
       e_powerbar_notes := e_powerbar_notes e2 + (if result \<noteq> Miss then 1 else 0),
       e_fever_hits := e_fever_hits e2 + (if result \<noteq> Miss \<and> e_active e2 then 1 else 0)\<rparr>)"
proof -
  obtain e1 where e1: "hit_fever result e = Inr e1" using assms by (auto simp: register_hit_def bind_res_eq_Inr)
  obtain e2 k where e2: "hit_chain result kind (e1\<lparr>e_max_chain := max (e_chain e1) (e_max_chain e1)\<rparr>) = Inr (e2, k)"
    using assms by (auto simp: register_hit_def e1 Let_def bind_res_eq_Inr)
  obtain c1 c2 where c: "color_point_bonus (e_stats e2) result (e_colors e2) = Inr (c1, c2)"
    using assms by (auto simp: register_hit_def e1 e2 Let_def bind_res_eq_Inr)
  obtain m where m: "continuous_combo_multiplier (e_stats e2) (e_chain e2) = Inr m"
    using assms by (auto simp: register_hit_def e1 e2 c Let_def bind_res_eq_Inr)
  let ?points = "\<lfloor>mul64 (mul64 (r64 (of_int (e_base_points e2 result + c1 + c2))) m) (if e_active e2 then e_fever_mult e2 else 1)\<rfloor>"
  let ?e = "e2\<lparr>e_score := e_score e2 + ?points,
       e_powerbar_notes := e_powerbar_notes e2 + (if result \<noteq> Miss then 1 else 0),
       e_fever_hits := e_fever_hits e2 + (if result \<noteq> Miss \<and> e_active e2 then 1 else 0)\<rparr>"
  have eq: "register_hit result kind e = Inr (if \<not> k then e2 else ?e, ?points, k)"
    unfolding register_hit_def e1 bind_res_simps Let_def e2 prod.case c m
    by (cases k; cases "result = Miss"; cases "e_active e2") simp_all
  then have k: "k = counted" "points = ?points" "e' = (if \<not> counted then e2 else ?e)" using assms by auto
  show thesis by (rule that [OF e1 e2 [unfolded k(1)] c m k(2)]) (simp only: k(2,3))
qed

lemma register_hit_ok:
  assumes "engine_ok e" "register_hit result kind e = Inr (e', points, counted)"
  shows "engine_ok e'"
proof -
  obtain e1 e2 where p: "hit_fever result e = Inr e1"
    "hit_chain result kind (e1\<lparr>e_max_chain := max (e_chain e1) (e_max_chain e1)\<rparr>) = Inr (e2, counted)"
    "e' = (if \<not> counted then e2 else e2\<lparr>e_score := e_score e2 + points,
       e_powerbar_notes := e_powerbar_notes e2 + (if result \<noteq> Miss then 1 else 0),
       e_fever_hits := e_fever_hits e2 + (if result \<noteq> Miss \<and> e_active e2 then 1 else 0)\<rparr>)"
    by (rule register_hit_parts [OF assms(2)]) blast
  have "engine_ok (e1\<lparr>e_max_chain := max (e_chain e1) (e_max_chain e1)\<rparr>)"
    using hit_fever_ok [OF assms(1) p(1)] by (simp add: engine_ok_def)
  note chain = hit_chain_ok [OF this p(2)]
  show ?thesis
  proof (cases "counted \<and> result \<noteq> Miss")
    case True
    then show ?thesis using chain(1) chain(2) by (simp add: p(3) engine_ok_def)
  next
    case False
    then show ?thesis using chain(1) by (cases counted) (simp_all add: p(3) engine_ok_def)
  qed
qed

lemma fever_tick_ok:
  assumes "engine_ok e" "0 < dt" "fever_tick dt trigger e = Inr e'" "0 < e_fever_time e"
  shows "engine_ok e'"
proof (cases "e_active e")
  case True
  have "sub64 (e_bar e) (div64 dt (e_fever_time e)) \<le> 1"
  proof -
    have "0 \<le> div64 dt (e_fever_time e)" using assms(2,4) by (simp add: div64_def r64_nonneg)
    then have "e_bar e - div64 dt (e_fever_time e) \<le> 1" using assms(1) by (simp add: engine_ok_def)
    then show ?thesis unfolding sub64_def using r64_le [of 1] is_f64_of_int [of 1] by simp
  qed
  then show ?thesis using assms True
    by (auto simp: fever_tick_def engine_ok_def safe_div_def Let_def split: if_splits)
next
  case False
  then show ?thesis using assms
    by (auto simp: fever_tick_def engine_ok_def Let_def FEVER_ACTIVATE_AT_def split: if_splits)
qed

lemma hit_fever_constants:
  assumes "hit_fever result e = Inr e'"
  shows "e_fever_time e' = e_fever_time e" "e_stats e' = e_stats e" "e_colors e' = e_colors e" "e_chain e' = e_chain e"
    "e_base_points e' = e_base_points e" "e_fever_mult e' = e_fever_mult e" "e_score e' = e_score e"
  using assms by (cases rule: hit_fever_cases; simp)+

lemma hit_chain_constants:
  assumes "hit_chain result kind e = Inr (e', counted)"
  shows "e_fever_time e' = e_fever_time e" "e_stats e' = e_stats e" "e_colors e' = e_colors e" "e_active e' = e_active e"
    "e_base_points e' = e_base_points e" "e_fever_mult e' = e_fever_mult e" "e_score e' = e_score e"
  using assms by (cases rule: hit_chain_cases; simp)+

lemma register_hit_constants:
  assumes "register_hit result kind e = Inr (e', points, counted)"
  shows "e_fever_time e' = e_fever_time e" "e_stats e' = e_stats e"
proof -
  obtain e1 e2 where p: "hit_fever result e = Inr e1"
    "hit_chain result kind (e1\<lparr>e_max_chain := max (e_chain e1) (e_max_chain e1)\<rparr>) = Inr (e2, counted)"
    "e' = (if \<not> counted then e2 else e2\<lparr>e_score := e_score e2 + points,
       e_powerbar_notes := e_powerbar_notes e2 + (if result \<noteq> Miss then 1 else 0),
       e_fever_hits := e_fever_hits e2 + (if result \<noteq> Miss \<and> e_active e2 then 1 else 0)\<rparr>)"
    by (rule register_hit_parts [OF assms]) blast
  show "e_fever_time e' = e_fever_time e" "e_stats e' = e_stats e"
    using hit_fever_constants(1,2) [OF p(1)] hit_chain_constants(1,2) [OF p(2)] p(3) by (cases counted; simp)+
qed

lemma fever_tick_constants:
  "fever_tick dt trigger e = Inr e' \<Longrightarrow> e_fever_time e' = e_fever_time e"
  by (auto simp: fever_tick_def bind_res_eq_Inr Let_def safe_div_def split: if_splits)

lemma engine_step_ok:
  assumes "engine_step e e'" "engine_ok e" "0 < e_fever_time e"
  shows "engine_ok e' \<and> 0 < e_fever_time e'"
  using assms(1)
proof (cases rule: engine_step.cases)
  case (hit result kind points counted)
  then show ?thesis using register_hit_ok [OF assms(2)] register_hit_constants(1) assms(3) by metis
next
  case (tick dt trigger)
  then show ?thesis using fever_tick_ok [OF assms(2) _ _ assms(3)] fever_tick_constants assms(3) by metis
qed

lemma new_engine_ok: "new_engine cfg s colors = Inr e \<Longrightarrow> engine_ok e"
  by (auto simp: new_engine_def bind_res_eq_Inr engine_ok_def Let_def)

text \<open>C31: Whatever hits and frames reach the simulated engine, in whatever order, its bar stays between empty and full,
  an automatic engine outside fever is never left with a full bar, a wasted hit is pending only on an empty bar
  outside fever, and its counters account for every judgment: notes judged plus whiffs are the judgments tallied, and
  fever hits are among the hits.\<close>

theorem engine_invariant:
  assumes "new_engine cfg s colors = Inr e\<^sub>0" "0 < e_fever_time e\<^sub>0" "engine_step\<^sup>*\<^sup>* e\<^sub>0 e"
  shows "engine_ok e"
proof -
  have "engine_ok e \<and> 0 < e_fever_time e"
    using assms(3)
  proof (induction rule: rtranclp_induct)
    case base
    then show ?case using new_engine_ok [OF assms(1)] assms(2) by simp
  next
    case (step y z)
    then show ?case using engine_step_ok by blast
  qed
  then show ?thesis by simp
qed

section \<open>The engine scores a note as the optimizer does\<close>

lemma ramp_segment_nth:
  "x1 < x \<Longrightarrow> x \<le> x2 \<Longrightarrow> ramp_segment (x1, y1) (x2, y2) ! nat (x - x1 - 1) =
    add64 (mul64 (div64 (sub64 y1 y2) (of_int (x1 - x2))) (of_int x))
      (sub64 y1 (mul64 (div64 (sub64 y1 y2) (of_int (x1 - x2))) (of_int x1)))"
  by (simp add: ramp_segment_def Let_def nth_upto)

lemma combo_ramp_row_segments:
  "combo_ramp_row v = ramp_segment (0, 1) (25, add64 1 (mul64 v (1 / 4)))
     @ ramp_segment (25, add64 1 (mul64 v (1 / 4))) (50, add64 1 (mul64 v (1 / 2)))
     @ ramp_segment (50, add64 1 (mul64 v (1 / 2))) (100, add64 1 (mul64 v 1))"
  by (simp add: combo_ramp_row_def ramp_points_def COMBO_THRESHOLDS_def)

lemma combo_ramp_row_nth:
  assumes "1 \<le> c" "c \<le> 100"
  shows "combo_ramp_row v ! nat (c - 1) =
    (if c \<le> 25 then ramp_segment (0, 1) (25, add64 1 (mul64 v (1 / 4))) ! nat (c - 0 - 1)
     else if c \<le> 50 then ramp_segment (25, add64 1 (mul64 v (1 / 4))) (50, add64 1 (mul64 v (1 / 2))) ! nat (c - 25 - 1)
     else ramp_segment (50, add64 1 (mul64 v (1 / 2))) (100, add64 1 (mul64 v 1)) ! nat (c - 50 - 1))"
proof -
  have "nat (c - 1) < 25 \<longleftrightarrow> c \<le> 25" "nat (c - 1) - 25 < 25 \<longleftrightarrow> c \<le> 50" "nat (c - 1) - 25 = nat (c - 25 - 1)"
    "nat (c - 1) - 25 - 25 = nat (c - 50 - 1)" using assms by linarith+
  then show ?thesis
    unfolding combo_ramp_row_segments by (simp add: nth_append ramp_segment_length del: nat_diff_distrib' diff_diff_left)
qed

text \<open>The simulator's combo multiplier is the optimizer's combo ramp.\<close>

lemma combo_multiplier_is_ramp:
  assumes "lookup s ''ComboThreshold'' = Inr 0" "stat_f 0 (1 / 4) 1 (r64 (14 / 10)) (r64 (16 / 10)) ''ComboMultiplier'' s = Inr v"
    and "is_f64 v" "1 \<le> c" "c < 2 ^ 53"
  shows "continuous_combo_multiplier s c = Inr (if c \<le> 100 then combo_ramp_row v ! nat (c - 1) else add64 1 v)"
proof -
  have thresholds: "combo_thresholds s = Inr (25, 50, 100)"
  proof -
    have "mul64 100 (1 / 4) = 25" "mul64 100 (1 / 2) = 50"
      using r64_of_int [of 25] r64_of_int [of 50] by (simp_all add: mul64_def)
    then show ?thesis using assms(1) by (simp add: combo_thresholds_def stat_f_def f_N_def sim_clamp_def)
  qed
  have mult: "combo_multipliers s = Inr (add64 1 (mul64 v (1 / 4)), add64 1 (mul64 v (1 / 2)), add64 1 v)"
    using assms(2) by (simp add: combo_multipliers_def)
  have v: "mul64 v 1 = v" using assms(3) by (simp add: mul64_def is_f64_def)
  have ints: "sub64 0 25 = - 25" "sub64 25 50 = - 25" "sub64 50 100 = - 50"
    using r64_of_int [of "- 25"] r64_of_int [of "- 50"] by (simp_all add: sub64_def)
  show ?thesis
    unfolding continuous_combo_multiplier_def thresholds mult bind_res_simps prod.case Let_def
    using assms(4) ramp_segment_nth [of 0 c 25] ramp_segment_nth [of 25 c 50] ramp_segment_nth [of 50 c 100]
    by (simp add: combo_ramp_row_nth v y_for_2pt_line_def safe_div_def ints del: nat_diff_distrib')
qed

text \<open>The optimizer's stat rows under the simulator's names.\<close>

definition STAT_TO_WP :: "(string, string) dict" where
  "STAT_TO_WP = [(''Perfect Points'', ''PerfectPoints''), (''Combo Multiplier'', ''ComboMultiplier''),
     (''Fever Multiplier'', ''FeverMultiplier''), (''Fever Time'', ''FeverTime''), (''Fever Fill Rate'', ''FeverFillRate'')]"

definition COLOR_TO_WP :: "(string, string) dict" where
  "COLOR_TO_WP = [(''Chill'', ''ColorBlue''), (''Vibe'', ''ColorGreen''), (''Flow'', ''ColorPurple''),
     (''Rush'', ''ColorRed''), (''Beat'', ''ColorOrange'')]"

definition wp_build :: "stats \<Rightarrow> int \<Rightarrow> string \<Rightarrow> string \<Rightarrow> (sim_stats \<times> string list) res" where
  "wp_build final pt primary secondary =
     (let base = map (\<lambda>(opt, wp). (wp, of_int (get_or final opt 0))) STAT_TO_WP;
          start = AList.update ''PerfectTime'' (of_int pt) base
      in fold_res (\<lambda>col (d, colors).
            if col = [] then Inr (d, colors)
            else bind_res (lookup COLOR_TO_WP col) (\<lambda>wp.
              Inr (AList.update wp (of_int (get_or final col 0)) d, colors @ [wp])))
           (remdups [primary, secondary]) (start, []))"

lemma statsdict_from_lookup:
  assumes "statsdict_from partial = Inr s" "distinct (map fst partial)"
  shows "map_of s k = (case map_of partial k of Some v \<Rightarrow> Some v
    | None \<Rightarrow> if k \<in> set GEAR_STAT_TYPES then Some 0 else None)"
proof -
  have "map_of s k = (case map_of partial k of Some v \<Rightarrow> Some v | None \<Rightarrow> map_of d k)"
    if "fold_res (\<lambda>(k, v) out. if map_of out k = None then Inl ValueError else Inr (AList.update k v out)) partial d = Inr s"
    for d
    using that assms(2)
  proof (induction partial arbitrary: d)
    case (Cons kv partial)
    obtain k' v where kv: "kv = (k', v)" by fastforce
    have rest: "fold_res (\<lambda>(k, v) out. if map_of out k = None then Inl ValueError else Inr (AList.update k v out)) partial
        (AList.update k' v d) = Inr s"
      using Cons.prems(1) by (auto simp: kv split: if_splits)
    have "map_of partial k' = None" using Cons.prems(2) by (auto simp: kv map_of_eq_None_iff)
    then show ?case using Cons.IH [OF rest] Cons.prems(2) by (auto simp: kv split: option.splits)
  qed simp
  moreover have "map_of (map (\<lambda>k. (k, 0::f64)) GEAR_STAT_TYPES) k = (if k \<in> set GEAR_STAT_TYPES then Some 0 else None)"
    by (simp add: map_of_map_restrict restrict_map_def)
  ultimately show ?thesis using assms(1) by (simp add: statsdict_from_def split: option.splits)
qed

lemma color_to_wp_fresh:
  "map_of COLOR_TO_WP col = Some wp \<Longrightarrow> wp \<in> {''ColorBlue'', ''ColorGreen'', ''ColorPurple'', ''ColorRed'', ''ColorOrange''}"
  by (auto simp: COLOR_TO_WP_def split: if_splits)

lemma color_to_wp_inj:
  "map_of COLOR_TO_WP a = Some wp \<Longrightarrow> map_of COLOR_TO_WP b = Some wp \<Longrightarrow> a = b"
  by (auto simp: COLOR_TO_WP_def split: if_splits)

text \<open>The stats the simulator then holds.\<close>

lemma wp_build_stats:
  assumes "wp_build final pt primary secondary = Inr (partial, colors)" "statsdict_from partial = Inr s"
    and "primary \<noteq> []" "secondary \<noteq> []"
  obtains c1 c2 where "map_of COLOR_TO_WP primary = Some c1" "map_of COLOR_TO_WP secondary = Some c2"
    "colors = remdups [c1, c2]" "lookup s c1 = Inr (of_int (get_or final primary 0))"
    "lookup s c2 = Inr (of_int (get_or final secondary 0))"
    "lookup s ''ComboThreshold'' = Inr 0" "lookup s ''GreatPoints'' = Inr 0"
proof -
  let ?base = "AList.update ''PerfectTime'' (of_int pt)
      (map (\<lambda>(opt, wp). (wp, of_int (get_or final opt 0))) STAT_TO_WP) :: sim_stats"
  obtain c1 where c1: "map_of COLOR_TO_WP primary = Some c1"
    using assms(1,3) by (cases "map_of COLOR_TO_WP primary") (auto simp: wp_build_def Let_def lookup_def split: if_splits)
  obtain c2 where c2: "map_of COLOR_TO_WP secondary = Some c2"
    using assms(1,3,4) c1 by (cases "map_of COLOR_TO_WP secondary") (auto simp: wp_build_def Let_def lookup_def split: if_splits)
  have same: "c1 = c2 \<longleftrightarrow> primary = secondary" using c1 c2 color_to_wp_inj by auto
  let ?d = "AList.update c2 (of_int (get_or final secondary 0)) (AList.update c1 (of_int (get_or final primary 0)) ?base)"
  have partial: "partial = (if primary = secondary then AList.update c1 (of_int (get_or final primary 0)) ?base else ?d)"
    and colors: "colors = remdups [c1, c2]"
    using assms(1,3,4) same by (auto simp: wp_build_def Let_def lookup_def c1 c2 split: if_splits)
  have d: "distinct (map fst ?base)" by (simp add: STAT_TO_WP_def)
  then have dist: "distinct (map fst partial)" unfolding partial by (simp add: distinct_update)
  have fresh: "c1 \<in> {''ColorBlue'', ''ColorGreen'', ''ColorPurple'', ''ColorRed'', ''ColorOrange''}"
    "c2 \<in> {''ColorBlue'', ''ColorGreen'', ''ColorPurple'', ''ColorRed'', ''ColorOrange''}"
    using color_to_wp_fresh [OF c1] color_to_wp_fresh [OF c2] by simp_all
  have mp: "map_of partial = (map_of ?base)(c1 \<mapsto> of_int (get_or final primary 0), c2 \<mapsto> of_int (get_or final secondary 0))"
    unfolding partial using same by (auto simp: fun_eq_iff)
  have look: "lookup s c1 = Inr (of_int (get_or final primary 0))" "lookup s c2 = Inr (of_int (get_or final secondary 0))"
    using statsdict_from_lookup [OF assms(2) dist] same by (auto simp: lookup_def mp)
  have zero: "lookup s ''ComboThreshold'' = Inr 0" "lookup s ''GreatPoints'' = Inr 0"
  proof -
    have "map_of partial ''ComboThreshold'' = None" "map_of partial ''GreatPoints'' = None"
      unfolding mp using fresh by (auto simp: STAT_TO_WP_def)
    then show "lookup s ''ComboThreshold'' = Inr 0" "lookup s ''GreatPoints'' = Inr 0"
      using statsdict_from_lookup [OF assms(2) dist] by (simp_all add: lookup_def GEAR_STAT_TYPES_def)
  qed
  show thesis by (rule that [OF c1 c2 colors look zero])
qed

text \<open>An engine built from the optimizer's stat row, whatever has been played on it since: its points per judgment,
  its fever multiplier and its stats never change.\<close>

lemma engine_steps_constant:
  assumes "engine_step\<^sup>*\<^sup>* e\<^sub>0 e"
  shows "e_stats e = e_stats e\<^sub>0 \<and> e_colors e = e_colors e\<^sub>0 \<and> e_base_points e = e_base_points e\<^sub>0
    \<and> e_fever_mult e = e_fever_mult e\<^sub>0"
  using assms
proof (induction rule: rtranclp_induct)
  case (step y z)
  have "e_stats z = e_stats y \<and> e_colors z = e_colors y \<and> e_base_points z = e_base_points y \<and> e_fever_mult z = e_fever_mult y"
    using step(2)
  proof (cases rule: engine_step.cases)
    case (hit result kind points counted)
    obtain e1 e2 where p: "hit_fever result y = Inr e1"
      "hit_chain result kind (e1\<lparr>e_max_chain := max (e_chain e1) (e_max_chain e1)\<rparr>) = Inr (e2, counted)"
      "z = (if \<not> counted then e2 else e2\<lparr>e_score := e_score e2 + points,
       e_powerbar_notes := e_powerbar_notes e2 + (if result \<noteq> Miss then 1 else 0),
       e_fever_hits := e_fever_hits e2 + (if result \<noteq> Miss \<and> e_active e2 then 1 else 0)\<rparr>)"
      by (rule register_hit_parts [OF hit]) blast
    show ?thesis using hit_fever_constants [OF p(1)] hit_chain_constants [OF p(2)] p(3) by (cases counted) simp_all
  next
    case (tick dt trigger)
    then show ?thesis
      by (cases "e_active y") (auto simp: fever_tick_def bind_res_eq_Inr Let_def split: if_splits)
  qed
  then show ?case using step by simp
qed simp

lemma new_engine_fields:
  assumes "new_engine cfg s colors = Inr e"
  shows "e_stats e = s" "e_colors e = colors" "sim_perfect_points s = Inr (e_base_points e Perfect)"
    "sim_great_points s = Inr (e_base_points e Great)" "sim_fever_multiplier s = Inr (e_fever_mult e)"
  using assms by (auto simp: new_engine_def bind_res_eq_Inr Let_def)

lemma floor_mul_int: "\<bar>k * n\<bar> \<le> 2 ^ 53 \<Longrightarrow> \<lfloor>mul64 (of_int k) (of_int n)\<rfloor> = k * n"
  unfolding mul64_def of_int_mult [symmetric] by (simp only: r64_of_int floor_of_int)

text \<open>The colors' part of a judgment's points.\<close>

lemma color_points:
  assumes "lookup s c1 = Inr (of_int p)" "lookup s c2 = Inr (of_int q)" "\<bar>p\<bar> \<le> 2 ^ 40" "\<bar>q\<bar> \<le> 2 ^ 40"
  shows "color_point_bonus s Perfect (remdups [c1, c2]) =
      Inr (if c1 = c2 then (3 * p, 0) else (2 * p, q))"
    "color_point_bonus s Great (remdups [c1, c2]) =
      Inr (if c1 = c2 then (2 * p, 0) else (\<lfloor>mul64 (div64 4 3) (of_int p)\<rfloor>, \<lfloor>mul64 (div64 2 3) (of_int q)\<rfloor>))"
proof -
  have "\<bar>3 * p\<bar> \<le> 2 ^ 53" "\<bar>2 * p\<bar> \<le> 2 ^ 53" "\<bar>1 * q\<bar> \<le> 2 ^ 53" using assms(3,4) by auto
  note mul = this [THEN floor_mul_int]
  show "color_point_bonus s Perfect (remdups [c1, c2]) = Inr (if c1 = c2 then (3 * p, 0) else (2 * p, q))"
    "color_point_bonus s Great (remdups [c1, c2]) =
      Inr (if c1 = c2 then (2 * p, 0) else (\<lfloor>mul64 (div64 4 3) (of_int p)\<rfloor>, \<lfloor>mul64 (div64 2 3) (of_int q)\<rfloor>))"
    using mul assms(1,2) by (cases "c1 = c2"; simp add: color_point_bonus_def scaled_points_def)+
qed

text \<open>The curve values the two sides read must agree: the optimizer's curves are the simulator's.\<close>

definition curves_agree :: "stat_curves \<Rightarrow> stats \<Rightarrow> sim_stats \<Rightarrow> bool" where
  "curves_agree curves final s \<longleftrightarrow>
     (\<exists>pp cm fm v base. lookup final ''Perfect Points'' = Inr pp \<and> lookup final ''Combo Multiplier'' = Inr cm
        \<and> lookup final ''Fever Multiplier'' = Inr fm
        \<and> sim_perfect_points s = Inr base \<and> factor curves ''Perfect Points'' pp = Inr (of_int base) \<and> \<bar>base\<bar> \<le> 2 ^ 40
        \<and> stat_f 0 (1 / 4) 1 (r64 (14 / 10)) (r64 (16 / 10)) ''ComboMultiplier'' s = Inr v \<and> is_f64 v
        \<and> factor curves ''Combo Multiplier'' cm = Inr (add64 1 v) \<and> ramp_of curves cm = combo_ramp_row v
        \<and> (\<forall>m. sim_fever_multiplier s = Inr m \<longrightarrow> factor curves ''Fever Multiplier'' fm = Inr m))"


section \<open>A concrete engine\<close>

text \<open>Every stat at zero: the curves give their middle values.\<close>

definition zero_stats :: stats where
  "zero_stats = map (\<lambda>k. (k, 0)) STATS"

definition zero_sim :: sim_stats where
  "zero_sim = map (\<lambda>k. (k, 0)) GEAR_STAT_TYPES"

definition zero_curves :: stat_curves where
  "zero_curves = \<lparr>curve_f64 = [(''Perfect Points'', replicate 161 200), (''Combo Multiplier'', replicate 161 2),
      (''Fever Multiplier'', replicate 161 3)], curve_f32 = [], combo_ramp = replicate 161 (combo_ramp_row 1)\<rparr>"

definition zero_engine :: game_engine where
  "zero_engine = \<lparr>e_stats = zero_sim, e_colors = [''ColorBlue'', ''ColorRed''], e_score = 0, e_chain = 0, e_max_chain = 0,
     e_bar = 0, e_active = False, e_manual = False, e_perfects = 0, e_greats = 0, e_okays = 0, e_misses = 0, e_whiffs = 0,
     e_local_notes = 0, e_fever_hits = 0, e_powerbar_notes = 0, e_wasted_pending = False, e_fill_denom = 0,
     e_great_denom = 0, e_fever_time = mul64 (mul64 100 (r64 (15 / 100))) (div64 (r64 (15 / 100)) (r64 (15 / 100))),
     e_fever_mult = 3, e_miss_drain = r64 (1 / 10),
     e_base_points = (\<lambda>j. case j of Perfect \<Rightarrow> 200 | Great \<Rightarrow> 150 | Okay \<Rightarrow> 100 | Miss \<Rightarrow> 0)\<rparr>"

lemma f_N_0 [simp]: "f_N aN80 aN40 a0 a40 a80 0 = Inr a0"
  by (simp add: f_N_def sim_clamp_def)

lemma zero_lookup [simp]: "k \<in> set GEAR_STAT_TYPES \<Longrightarrow> lookup zero_sim k = Inr 0"
  by (simp add: zero_sim_def lookup_def map_of_map_restrict restrict_map_def)

lemma zero_build: "\<exists>partial. wp_build zero_stats 0 ''Chill'' ''Rush'' = Inr (partial, [''ColorBlue'', ''ColorRed''])
    \<and> statsdict_from partial = Inr zero_sim"
  by (intro exI conjI) code_simp+

lemma zero_new_engine:
  "new_engine \<lparr>hit_objects_count = 0, last_note_time_sec = 100\<rparr> zero_sim [''ColorBlue'', ''ColorRed''] = Inr zero_engine"
  by (simp add: zero_engine_def new_engine_def fever_fill_scales_def fever_decay_rate_def sim_fever_multiplier_def
      fever_miss_drain_pct_def sim_perfect_points_def sim_great_points_def sim_okay_points_def stat_f_def
      GEAR_STAT_TYPES_def Let_def mul64_def [of 0])

lemma zero_engine_fields [simp]:
  "e_fill_denom zero_engine = 0" "e_active zero_engine = False" "e_wasted_pending zero_engine = False" "e_bar zero_engine = 0"
  "e_chain zero_engine = 0" "e_manual zero_engine = False" "e_stats zero_engine = zero_sim"
  "e_colors zero_engine = [''ColorBlue'', ''ColorRed'']"
  by (simp_all add: zero_engine_def)

lemma zero_fever_time: "0 < e_fever_time zero_engine"
proof -
  let ?x = "r64 (3 / 20)"
  have x: "1 / 8 \<le> ?x"
  proof (rule le_r64)
    show "is_f64 (1 / 8)" using is_f64_dyadic [of 1 3] by simp
  qed simp
  then have one: "div64 ?x ?x = 1" using r64_of_int [of 1] by (simp add: div64_def)
  have "12 \<le> mul64 100 ?x" unfolding mul64_def
    by (rule le_r64) (use is_f64_of_int [of 12] x in simp_all)
  moreover have "e_fever_time zero_engine = mul64 (mul64 100 ?x) (div64 ?x ?x)"
    by (simp add: zero_engine_def)
  ultimately show ?thesis by (simp add: one mul64_def)
qed

theorem engine_invariant_witness:
  "\<exists>e. fever_tick 1 False zero_engine = Inr e \<and> engine_ok e"
proof -
  obtain e where e: "fever_tick 1 False zero_engine = Inr e" by (simp add: fever_tick_def Let_def)
  have "engine_step\<^sup>*\<^sup>* zero_engine e" using engine_step.tick [OF _ e] by auto
  from engine_invariant [OF zero_new_engine zero_fever_time this] show ?thesis using e by blast
qed


end
