(* ===== verification/NoteSim.thy ===== *)
theory NoteSim
  imports GameEngine "HOL-Library.Multiset"
begin

text \<open>
  tools/verify/game_sim.py, the input half (NoteSim): the notes of a chart, which of them a press or a release takes,
  and the notes that time out. A registered hit is a value; the active notes are the state.
\<close>

section \<open>Notes\<close>

datatype hold_state = Pre | Holding | HoldMissed | Passed

record note_chart =
  nc_times :: "f64 list"
  nc_lanes :: "int list"
  nc_types :: "int list"

record active_note =
  an_index :: nat
  an_lane :: int
  an_hit :: f64
  an_hold :: bool
  an_tail_hit :: f64
  an_tail :: nat
  an_state :: hold_state
  an_consumed :: bool
  an_head_hit :: bool
  an_tail_done :: bool

record registered_hit =
  rh_note :: nat
  rh_result :: judgement
  rh_time :: f64
  rh_press :: f64
  rh_fever :: bool
  rh_tail :: bool
  rh_kind :: hit_kind

definition registered :: "nat \<Rightarrow> judgement \<Rightarrow> f64 \<Rightarrow> f64 \<Rightarrow> bool \<Rightarrow> hit_kind \<Rightarrow> registered_hit" where
  "registered note result time press tail kind =
     \<lparr>rh_note = note, rh_result = result, rh_time = time, rh_press = press, rh_fever = False, rh_tail = tail, rh_kind = kind\<rparr>"

definition PREBUFFER_MS :: f64 where "PREBUFFER_MS = 1500"

text \<open>A list read out of range raises.\<close>

definition item :: "'a list \<Rightarrow> nat \<Rightarrow> 'a res" where
  "item xs i = (if i < length xs then Inr (xs ! i) else Inl IndexError)"

section \<open>The spawn plan\<close>

text \<open>The tails of every lane in note order, and how many of each lane's tails have been passed.\<close>

record plan_state =
  ps_pointer :: "(int, nat) dict"
  ps_claimed :: "nat list"
  ps_plan :: "(f64 \<times> active_note) list"

definition tails_by_lane :: "note_chart \<Rightarrow> (int, nat list) dict res" where
  "tails_by_lane c =
     fold_res (\<lambda>j d. if nc_types c ! j = 3
        then bind_res (item (nc_lanes c) j) (\<lambda>lane. Inr (AList.update lane (get_or d lane [] @ [j]) d)) else Inr d)
       [0..<length (nc_types c)] []"

fun skip_tails :: "nat list \<Rightarrow> nat \<Rightarrow> nat \<Rightarrow> nat list \<Rightarrow> nat" where
  "skip_tails claimed i ptr [] = ptr"
| "skip_tails claimed i ptr (t # ts) = (if t \<in> set claimed \<or> t < i then skip_tails claimed i (Suc ptr) ts else ptr)"

definition tap_note :: "nat \<Rightarrow> int \<Rightarrow> f64 \<Rightarrow> active_note" where
  "tap_note i lane t = \<lparr>an_index = i, an_lane = lane, an_hit = t, an_hold = False, an_tail_hit = t, an_tail = i,
     an_state = Pre, an_consumed = False, an_head_hit = False, an_tail_done = False\<rparr>"

definition hold_note :: "nat \<Rightarrow> int \<Rightarrow> f64 \<Rightarrow> nat \<Rightarrow> f64 \<Rightarrow> active_note" where
  "hold_note i lane t tail tail_t = \<lparr>an_index = i, an_lane = lane, an_hit = t, an_hold = True, an_tail_hit = tail_t,
     an_tail = tail, an_state = Pre, an_consumed = False, an_head_hit = False, an_tail_done = False\<rparr>"

definition plan_note :: "note_chart \<Rightarrow> (int, nat list) dict \<Rightarrow> nat \<Rightarrow> plan_state \<Rightarrow> plan_state res" where
  "plan_note c pending i st =
     (let nt = nc_types c ! i
      in if nt = 1 then
           bind_res (item (nc_lanes c) i) (\<lambda>lane. bind_res (item (nc_times c) i) (\<lambda>t.
             Inr (st\<lparr>ps_plan := ps_plan st @ [(sub64 t PREBUFFER_MS, tap_note i lane t)]\<rparr>)))
         else if nt = 2 then
           bind_res (item (nc_lanes c) i) (\<lambda>lane.
             let tails = get_or pending lane [];
                 start = get_or (ps_pointer st) lane 0;
                 ptr = skip_tails (ps_claimed st) i start (drop start tails)
             in if ptr \<ge> length tails then Inl ValueError
                else let tail = tails ! ptr
                     in bind_res (item (nc_times c) i) (\<lambda>t. bind_res (item (nc_times c) tail) (\<lambda>tail_t.
                          Inr (st\<lparr>ps_pointer := AList.update lane (ptr + 1) (ps_pointer st),
                                 ps_claimed := tail # ps_claimed st,
                                 ps_plan := ps_plan st @ [(sub64 t PREBUFFER_MS, hold_note i lane t tail tail_t)]\<rparr>))))
         else if nt = 3 then Inr st
         else Inl ValueError)"

definition spawn_plan :: "note_chart \<Rightarrow> (f64 \<times> active_note) list res" where
  "spawn_plan c =
     bind_res (tails_by_lane c) (\<lambda>pending.
     bind_res (fold_res (plan_note c pending) [0..<length (nc_types c)]
         \<lparr>ps_pointer = [], ps_claimed = [], ps_plan = []\<rparr>) (\<lambda>st.
       Inr (sort_key (\<lambda>p. (fst p, an_index (snd p))) (ps_plan st))))"

section \<open>The active notes\<close>

text \<open>The simulator's state: the judgment edges, the notes still to spawn and the active ones.\<close>

record note_sim =
  ns_tap_edges :: "f64 list"
  ns_tail_edges :: "f64 list"
  ns_waiting :: "(f64 \<times> active_note) list"
  ns_active :: "active_note list"

definition new_note_sim :: "note_chart \<Rightarrow> f64 list \<Rightarrow> note_sim res" where
  "new_note_sim c tap_edges =
     bind_res (spawn_plan c) (\<lambda>plan.
       Inr \<lparr>ns_tap_edges = tap_edges, ns_tail_edges = map (\<lambda>e. mul64 e (of_int TAIL_WINDOW_SCALE)) tap_edges,
            ns_waiting = plan, ns_active = []\<rparr>)"

text \<open>One note's part of \<open>update\<close>: what it misses at this time, and the note if it stays.\<close>

definition age_note :: "f64 \<Rightarrow> active_note \<Rightarrow> registered_hit list \<times> active_note option" where
  "age_note now a =
     (if \<not> an_hold a then
        if \<not> an_consumed a \<and> sub64 now (an_hit a) > NOTE_REMOVE_MS
        then ([registered (an_index a) Miss (an_hit a) now False Note], None)
        else ([], Some a)
      else
        let head_missed = (an_state a = Pre \<and> sub64 now (an_hit a) > NOTE_REMOVE_MS);
            b = (if head_missed then a\<lparr>an_state := HoldMissed\<rparr> else a);
            head = (if head_missed then [registered (an_index a) Miss (an_hit a) now False Note] else [])
        in if sub64 now (an_tail_hit a) > NOTE_REMOVE_MS
           then (head @ (if \<not> an_tail_done b then [registered (an_tail a) Miss (an_tail_hit a) now True Note] else []), None)
           else (head, Some b))"

definition spawn :: "f64 \<Rightarrow> note_sim \<Rightarrow> note_sim" where
  "spawn now st = st\<lparr>ns_active := ns_active st @ map snd (takeWhile (\<lambda>p. fst p \<le> now) (ns_waiting st)),
     ns_waiting := dropWhile (\<lambda>p. fst p \<le> now) (ns_waiting st)\<rparr>"

text \<open>\<open>update\<close> walks the active notes from the last to the first.\<close>

definition update_notes :: "f64 \<Rightarrow> note_sim \<Rightarrow> note_sim \<times> registered_hit list" where
  "update_notes now st =
     (let st = spawn now st; aged = map (age_note now) (ns_active st)
      in (st\<lparr>ns_active := List.map_filter snd aged\<rparr>, concat (map fst (rev aged))))"

text \<open>The first note of the lane the press can take: the hit, and the notes after it.\<close>

fun press_scan :: "f64 list \<Rightarrow> f64 list \<Rightarrow> int \<Rightarrow> f64 \<Rightarrow> active_note list \<Rightarrow> (registered_hit \<times> active_note list) option" where
  "press_scan tap_edges tail_edges lane now [] = None"
| "press_scan tap_edges tail_edges lane now (a # rest) =
     (let next = map_option (\<lambda>(hit, rest'). (hit, a # rest')) (press_scan tap_edges tail_edges lane now rest);
          head = judge_with_edges (sub64 now (an_hit a)) tap_edges;
          tail = judge_with_edges (sub64 now (an_tail_hit a)) tail_edges
      in if an_lane a \<noteq> lane then next
         else if \<not> an_hold a then
           if an_consumed a \<or> head = Miss then next
           else Some (registered (an_index a) head (an_hit a) now False Note, rest)
         else if an_state a = Pre then
           if head = Miss then next
           else Some (registered (an_index a) head (an_hit a) now False Note,
                      a\<lparr>an_state := Holding, an_head_hit := True\<rparr> # rest)
         else if an_state a = HoldMissed then
           if tail = Miss then next
           else Some (registered (an_tail a) tail (an_tail_hit a) now True Note,
                      a\<lparr>an_state := Passed, an_tail_done := True\<rparr> # rest)
         else next)"

fun release_scan :: "f64 list \<Rightarrow> int \<Rightarrow> f64 \<Rightarrow> active_note list \<Rightarrow> (registered_hit \<times> active_note list) option" where
  "release_scan tail_edges lane now [] = None"
| "release_scan tail_edges lane now (a # rest) =
     (let next = map_option (\<lambda>(hit, rest'). (hit, a # rest')) (release_scan tail_edges lane now rest);
          tail = judge_with_edges (sub64 now (an_tail_hit a)) tail_edges
      in if \<not> an_hold a \<or> an_lane a \<noteq> lane then next
         else if an_state a \<noteq> Holding \<and> an_state a \<noteq> HoldMissed then next
         else if tail = Miss then
           if an_state a = HoldMissed then next
           else Some (registered (an_tail a) Miss now now False EarlyRelease, a\<lparr>an_state := HoldMissed\<rparr> # rest)
         else Some (registered (an_tail a) tail (an_tail_hit a) now True Note,
                    a\<lparr>an_state := Passed, an_tail_done := True\<rparr> # rest))"

definition press_lane :: "int \<Rightarrow> f64 \<Rightarrow> note_sim \<Rightarrow> note_sim \<times> registered_hit option" where
  "press_lane lane now st =
     (case press_scan (ns_tap_edges st) (ns_tail_edges st) lane now (ns_active st) of
        None \<Rightarrow> (st, None)
      | Some (hit, active) \<Rightarrow> (st\<lparr>ns_active := active\<rparr>, Some hit))"

definition release_lane :: "int \<Rightarrow> f64 \<Rightarrow> note_sim \<Rightarrow> note_sim \<times> registered_hit option" where
  "release_lane lane now st =
     (case release_scan (ns_tail_edges st) lane now (ns_active st) of
        None \<Rightarrow> (st, None)
      | Some (hit, active) \<Rightarrow> (st\<lparr>ns_active := active\<rparr>, Some hit))"

definition active_count :: "note_sim \<Rightarrow> nat" where
  "active_count st = length (ns_active st)"

definition spawned_all :: "note_sim \<Rightarrow> bool" where
  "spawned_all st \<longleftrightarrow> ns_waiting st = []"

section \<open>Every note is judged once\<close>

text \<open>The chart notes an active note still has to be judged for.\<close>

definition owed :: "active_note \<Rightarrow> nat multiset" where
  "owed a = (if \<not> an_hold a then {#an_index a#}
     else (if an_state a = Pre then {#an_index a#} else {#}) + (if an_tail_done a then {#} else {#an_tail a#}))"

definition note_ok :: "active_note \<Rightarrow> bool" where
  "note_ok a \<longleftrightarrow> \<not> an_consumed a \<and> (an_hold a \<longrightarrow> (an_tail_done a \<longleftrightarrow> an_state a = Passed) \<and> an_hit a \<le> an_tail_hit a)"

definition judged :: "registered_hit list \<Rightarrow> nat multiset" where
  "judged hits = mset (map rh_note (filter (\<lambda>h. rh_kind h = Note) hits))"

definition owed_all :: "note_sim \<Rightarrow> nat multiset" where
  "owed_all st = \<Sum>\<^sub># (mset (map owed (ns_active st))) + \<Sum>\<^sub># (mset (map (owed \<circ> snd) (ns_waiting st)))"

definition sim_ok :: "note_sim \<Rightarrow> bool" where
  "sim_ok st \<longleftrightarrow> (\<forall>a \<in> set (ns_active st). note_ok a) \<and> (\<forall>p \<in> set (ns_waiting st). note_ok (snd p))"

lemma judged_simps [simp]:
  "judged [] = {#}" "judged (xs @ ys) = judged xs + judged ys"
  "judged (h # hs) = (if rh_kind h = Note then {#rh_note h#} else {#}) + judged hs"
  by (simp_all add: judged_def)

lemma registered_simps [simp]:
  "rh_note (registered note result time press tail kind) = note" "rh_kind (registered note result time press tail kind) = kind"
  by (simp_all add: registered_def)

lemma age_note_owed:
  assumes "note_ok a" "age_note now a = (hits, kept)"
  shows "judged hits + (case kept of None \<Rightarrow> {#} | Some b \<Rightarrow> owed b) = owed a"
    "kept = Some b \<Longrightarrow> note_ok b"
proof -
  have "sub64 now (an_tail_hit a) > NOTE_REMOVE_MS \<Longrightarrow> an_hold a \<Longrightarrow> sub64 now (an_hit a) > NOTE_REMOVE_MS"
    using assms(1) r64_mono [of "now - an_tail_hit a" "now - an_hit a"] by (simp add: note_ok_def sub64_def)
  then show "judged hits + (case kept of None \<Rightarrow> {#} | Some b \<Rightarrow> owed b) = owed a"
    using assms
    by (cases "an_state a"; auto simp: age_note_def note_ok_def owed_def Let_def split: if_splits)
  show "kept = Some b \<Longrightarrow> note_ok b"
    using assms by (cases "an_state a"; auto simp: age_note_def note_ok_def Let_def split: if_splits)
qed

lemma press_scan_owed:
  assumes "press_scan te le lane now as = Some (hit, bs)" "\<forall>a \<in> set as. note_ok a"
  shows "judged [hit] + \<Sum>\<^sub># (mset (map owed bs)) = \<Sum>\<^sub># (mset (map owed as)) \<and> (\<forall>b \<in> set bs. note_ok b)"
  using assms
proof (induction as arbitrary: bs)
  case (Cons a as)
  have ok: "note_ok a" using Cons.prems(2) by simp
  show ?case
  proof (cases "\<exists>bs'. press_scan te le lane now as = Some (hit, bs') \<and> bs = a # bs'")
    case True
    then obtain bs' where "press_scan te le lane now as = Some (hit, bs')" "bs = a # bs'" by blast
    then show ?thesis using Cons.IH [of bs'] Cons.prems(2) by simp
  next
    case False
    then show ?thesis
      using Cons.prems ok
      by (cases "an_state a"; auto simp: Let_def note_ok_def owed_def split: if_splits option.splits)
  qed
qed simp

lemma release_scan_owed:
  assumes "release_scan le lane now as = Some (hit, bs)" "\<forall>a \<in> set as. note_ok a"
  shows "judged [hit] + \<Sum>\<^sub># (mset (map owed bs)) = \<Sum>\<^sub># (mset (map owed as)) \<and> (\<forall>b \<in> set bs. note_ok b)"
  using assms
proof (induction as arbitrary: bs)
  case (Cons a as)
  have ok: "note_ok a" using Cons.prems(2) by simp
  show ?case
  proof (cases "\<exists>bs'. release_scan le lane now as = Some (hit, bs') \<and> bs = a # bs'")
    case True
    then obtain bs' where "release_scan le lane now as = Some (hit, bs')" "bs = a # bs'" by blast
    then show ?thesis using Cons.IH [of bs'] Cons.prems(2) by simp
  next
    case False
    then show ?thesis
      using Cons.prems ok
      by (cases "an_state a"; auto simp: Let_def note_ok_def owed_def split: if_splits option.splits)
  qed
qed simp

lemma spawn_owed:
  assumes "sim_ok st"
  shows "owed_all (spawn now st) = owed_all st" "sim_ok (spawn now st)"
proof -
  let ?P = "\<lambda>p. fst p \<le> now" and ?w = "ns_waiting st"
  have split: "?w = takeWhile ?P ?w @ dropWhile ?P ?w" by simp
  have "mset (map (owed \<circ> snd) ?w) = mset (map owed (map snd (takeWhile ?P ?w))) + mset (map (owed \<circ> snd) (dropWhile ?P ?w))"
    by (subst (1) split) (simp only: map_append mset_append map_map)
  then show "owed_all (spawn now st) = owed_all st" by (simp add: owed_all_def spawn_def)
  show "sim_ok (spawn now st)"
    using assms by (auto simp: sim_ok_def spawn_def dest: set_takeWhileD set_dropWhileD)
qed

lemma aged_owed:
  assumes "\<forall>a \<in> set as. note_ok a"
  shows "judged (concat (map fst (rev (map (age_note now) as))))
      + \<Sum>\<^sub># (mset (map owed (List.map_filter snd (map (age_note now) as)))) = \<Sum>\<^sub># (mset (map owed as))
    \<and> (\<forall>b \<in> set (List.map_filter snd (map (age_note now) as)). note_ok b)"
  using assms
proof (induction as)
  case (Cons a as)
  obtain hits kept where a: "age_note now a = (hits, kept)" by fastforce
  have ok: "note_ok a" using Cons.prems by simp
  note aged = age_note_owed [OF ok a]
  show ?case using Cons aged
    by (cases kept) (auto simp: a List.map_filter_simps ac_simps)
qed (simp add: List.map_filter_simps)

lemma update_owed:
  assumes "sim_ok st" "update_notes now st = (st', hits)"
  shows "judged hits + owed_all st' = owed_all st" "sim_ok st'"
proof -
  note sp = spawn_owed [OF assms(1), of now]
  note aged = aged_owed [of "ns_active (spawn now st)" now]
  have "judged hits + owed_all st' = owed_all (spawn now st) \<and> sim_ok st'"
    using assms(2) sp(2) aged by (auto simp: update_notes_def Let_def owed_all_def sim_ok_def ac_simps)
  then show "judged hits + owed_all st' = owed_all st" "sim_ok st'" using sp(1) by simp_all
qed

text \<open>What can happen to the notes: a frame, a press or a release.\<close>

inductive sim_step :: "note_sim \<Rightarrow> registered_hit list \<Rightarrow> note_sim \<Rightarrow> bool" where
  frame: "update_notes now st = (st', hits) \<Longrightarrow> sim_step st hits st'"
| press: "press_lane lane now st = (st', hit) \<Longrightarrow> sim_step st (case hit of None \<Rightarrow> [] | Some h \<Rightarrow> [h]) st'"
| release: "release_lane lane now st = (st', hit) \<Longrightarrow> sim_step st (case hit of None \<Rightarrow> [] | Some h \<Rightarrow> [h]) st'"

inductive plays :: "note_sim \<Rightarrow> registered_hit list \<Rightarrow> note_sim \<Rightarrow> bool" where
  start: "plays st [] st"
| step: "plays st hits st' \<Longrightarrow> sim_step st' hs st'' \<Longrightarrow> plays st (hits @ hs) st''"

lemma lane_step_owed:
  assumes "sim_ok st" "judged [hit] + \<Sum>\<^sub># (mset (map owed bs)) = \<Sum>\<^sub># (mset (map owed (ns_active st))) \<and> (\<forall>b \<in> set bs. note_ok b)"
  shows "judged [hit] + owed_all (st\<lparr>ns_active := bs\<rparr>) = owed_all st" "sim_ok (st\<lparr>ns_active := bs\<rparr>)"
proof -
  have "judged [hit] + owed_all (st\<lparr>ns_active := bs\<rparr>)
      = (judged [hit] + \<Sum>\<^sub># (mset (map owed bs))) + \<Sum>\<^sub># (mset (map (owed \<circ> snd) (ns_waiting st)))"
    by (simp add: owed_all_def add.assoc)
  also have "\<dots> = owed_all st" unfolding conjunct1 [OF assms(2)] owed_all_def ..
  finally show "judged [hit] + owed_all (st\<lparr>ns_active := bs\<rparr>) = owed_all st" .
  show "sim_ok (st\<lparr>ns_active := bs\<rparr>)" using assms by (simp add: sim_ok_def)
qed

lemma sim_step_owed:
  assumes "sim_step st hits st'" "sim_ok st"
  shows "judged hits + owed_all st' = owed_all st \<and> sim_ok st'"
  using assms(1)
proof (cases rule: sim_step.cases)
  case (frame now)
  then show ?thesis using update_owed [OF assms(2)] by simp
next
  case (press lane now hit)
  have active: "\<forall>a \<in> set (ns_active st). note_ok a" using assms(2) by (simp add: sim_ok_def)
  show ?thesis
  proof (cases "press_scan (ns_tap_edges st) (ns_tail_edges st) lane now (ns_active st)")
    case None
    then show ?thesis using press assms(2) by (simp add: press_lane_def)
  next
    case (Some found)
    obtain h bs where found: "found = (h, bs)" by fastforce
    have "hits = [h]" "st' = st\<lparr>ns_active := bs\<rparr>" using press Some found by (auto simp: press_lane_def)
    then show ?thesis using lane_step_owed [OF assms(2) press_scan_owed [OF Some [unfolded found] active]] by simp
  qed
next
  case (release lane now hit)
  have active: "\<forall>a \<in> set (ns_active st). note_ok a" using assms(2) by (simp add: sim_ok_def)
  show ?thesis
  proof (cases "release_scan (ns_tail_edges st) lane now (ns_active st)")
    case None
    then show ?thesis using release assms(2) by (simp add: release_lane_def)
  next
    case (Some found)
    obtain h bs where found: "found = (h, bs)" by fastforce
    have "hits = [h]" "st' = st\<lparr>ns_active := bs\<rparr>" using release Some found by (auto simp: release_lane_def)
    then show ?thesis using lane_step_owed [OF assms(2) release_scan_owed [OF Some [unfolded found] active]] by simp
  qed
qed

lemma plays_owed: "plays st hits st' \<Longrightarrow> sim_ok st \<Longrightarrow> judged hits + owed_all st' = owed_all st \<and> sim_ok st'"
proof (induction rule: plays.induct)
  case (step st hits st' hs st'')
  then show ?case using sim_step_owed [OF step.hyps(2)] by (metis judged_simps(2) union_assoc)
qed simp

section \<open>The plan owes every note\<close>

lemma tails_by_lane_types:
  assumes "tails_by_lane c = Inr d" "j \<in> set (get_or d lane [])"
  shows "j < length (nc_types c) \<and> nc_types c ! j = 3"
proof -
  let ?P = "\<lambda>d :: (int, nat list) dict. \<forall>lane. \<forall>j \<in> set (get_or d lane []). j < length (nc_types c) \<and> nc_types c ! j = 3"
  have "?P d"
  proof (rule fold_res_invariant [OF assms(1) [unfolded tails_by_lane_def]])
    show "?P []" by (simp add: get_or_def)
  qed (auto simp: get_or_update bind_res_eq_Inr split: if_splits)
  then show ?thesis using assms(2) by blast
qed

lemma skip_tails_spec:
  assumes "skip_tails claimed i ptr ts = p"
  shows "ptr \<le> p \<and> p \<le> ptr + length ts \<and> (p < ptr + length ts \<longrightarrow> ts ! (p - ptr) \<notin> set claimed \<and> i \<le> ts ! (p - ptr))"
  using assms
proof (induction ts arbitrary: ptr)
  case (Cons t ts)
  show ?case
  proof (cases "t \<in> set claimed \<or> t < i")
    case True
    then have "skip_tails claimed i (Suc ptr) ts = p" using Cons.prems by simp
    from Cons.IH [OF this] have ih: "Suc ptr \<le> p \<and> p \<le> Suc ptr + length ts
        \<and> (p < Suc ptr + length ts \<longrightarrow> ts ! (p - Suc ptr) \<notin> set claimed \<and> i \<le> ts ! (p - Suc ptr))" .
    moreover have "(t # ts) ! (p - ptr) = ts ! (p - Suc ptr)" using ih by (simp add: nth_Cons')
    ultimately show ?thesis by auto
  qed (use Cons.prems in auto)
qed simp

text \<open>After the first notes of the chart: the plan owes every tap and head among them and the tails the heads claimed.\<close>

definition plan_ok :: "note_chart \<Rightarrow> nat \<Rightarrow> plan_state \<Rightarrow> bool" where
  "plan_ok c k st \<longleftrightarrow>
     \<Sum>\<^sub># (mset (map (owed \<circ> snd) (ps_plan st))) = mset (filter (\<lambda>i. nc_types c ! i \<noteq> 3) [0..<k]) + mset (ps_claimed st)
     \<and> distinct (ps_claimed st) \<and> (\<forall>j \<in> set (ps_claimed st). j < length (nc_types c) \<and> nc_types c ! j = 3)
     \<and> (\<forall>p \<in> set (ps_plan st). note_ok (snd p))"

lemma plan_note_ok:
  assumes "plan_ok c k st" "plan_note c d k st = Inr st'" "tails_by_lane c = Inr d" "sorted (nc_times c)"
  shows "plan_ok c (Suc k) st'"
proof -
  consider (tap) "nc_types c ! k = 1" | (head) "nc_types c ! k = 2" | (tail) "nc_types c ! k = 3"
    using assms(2) by (auto simp: plan_note_def Let_def split: if_splits)
  then show ?thesis
  proof cases
    case tap
    then show ?thesis
      using assms(1,2)
      by (auto simp: plan_note_def plan_ok_def bind_res_eq_Inr item_def owed_def tap_note_def note_ok_def split: if_splits)
  next
    case tail
    then show ?thesis using assms(1,2) by (auto simp: plan_note_def plan_ok_def)
  next
    case head
    then obtain lane where lane: "item (nc_lanes c) k = Inr lane"
      using assms(2) by (auto simp: plan_note_def bind_res_eq_Inr)
    let ?tails = "get_or d lane []" and ?start = "get_or (ps_pointer st) lane 0"
    let ?ptr = "skip_tails (ps_claimed st) k ?start (drop ?start ?tails)"
    let ?tail = "?tails ! ?ptr"
    obtain t tail_t where step: "?ptr < length ?tails" "item (nc_times c) k = Inr t" "item (nc_times c) ?tail = Inr tail_t"
      "st' = st\<lparr>ps_pointer := AList.update lane (?ptr + 1) (ps_pointer st), ps_claimed := ?tail # ps_claimed st,
         ps_plan := ps_plan st @ [(sub64 t PREBUFFER_MS, hold_note k lane t ?tail tail_t)]\<rparr>"
      using assms(2) head lane by (auto simp: plan_note_def Let_def bind_res_eq_Inr split: if_splits)
    note skip = skip_tails_spec [of "ps_claimed st" k ?start "drop ?start ?tails", OF refl]
    have "drop ?start ?tails ! (?ptr - ?start) = ?tail" using skip step(1) by simp
    then have fresh: "?tail \<notin> set (ps_claimed st)" "k \<le> ?tail" using skip step(1) by auto
    have kind3: "?tail < length (nc_types c) \<and> nc_types c ! ?tail = 3"
      using tails_by_lane_types [OF assms(3)] step(1) nth_mem by blast
    have "t \<le> tail_t"
      using step(2,3) sorted_nth_mono [OF assms(4) fresh(2)] by (auto simp: item_def split: if_splits)
    then show ?thesis
      using assms(1) fresh kind3 head
      by (auto simp: step(4) plan_ok_def owed_def hold_note_def note_ok_def)
  qed
qed

lemma plan_fold_ok:
  assumes "fold_res (plan_note c d) [0..<k] st = Inr st'" "plan_ok c 0 st" "tails_by_lane c = Inr d" "sorted (nc_times c)"
  shows "plan_ok c k st'"
  using assms(1)
proof (induction k arbitrary: st')
  case 0
  then show ?case using assms(2) by simp
next
  case (Suc k)
  then obtain u where u: "fold_res (plan_note c d) [0..<k] st = Inr u" "plan_note c d k u = Inr st'"
    by (auto simp: fold_res_append bind_res_eq_Inr)
  show ?case by (rule plan_note_ok [OF Suc.IH [OF u(1)] u(2) assms(3,4)])
qed

lemma new_note_sim_owed:
  assumes "new_note_sim c edges = Inr st" "sorted (nc_times c)"
  obtains tails where "owed_all st = mset (filter (\<lambda>i. nc_types c ! i \<noteq> 3) [0..<length (nc_types c)]) + mset tails"
    "distinct tails" "\<forall>j \<in> set tails. j < length (nc_types c) \<and> nc_types c ! j = 3" "sim_ok st"
proof -
  obtain d p where d: "tails_by_lane c = Inr d"
    and p: "fold_res (plan_note c d) [0..<length (nc_types c)] \<lparr>ps_pointer = [], ps_claimed = [], ps_plan = []\<rparr> = Inr p"
    and st: "ns_waiting st = sort_key (\<lambda>p. (fst p, an_index (snd p))) (ps_plan p)" "ns_active st = []"
    using assms(1) by (auto simp: new_note_sim_def spawn_plan_def bind_res_eq_Inr)
  have ok: "plan_ok c (length (nc_types c)) p"
    by (rule plan_fold_ok [OF p _ d assms(2)]) (simp add: plan_ok_def)
  have "mset (map (owed \<circ> snd) (ns_waiting st)) = mset (map (owed \<circ> snd) (ps_plan p))"
    by (simp only: st(1) mset_map mset_sort)
  then have "owed_all st = mset (filter (\<lambda>i. nc_types c ! i \<noteq> 3) [0..<length (nc_types c)]) + mset (ps_claimed p)"
    using ok by (simp only: owed_all_def st(2) plan_ok_def list.map mset.simps sum_mset.empty add_0)
  moreover have "sim_ok st" using ok by (simp add: sim_ok_def st plan_ok_def)
  ultimately show thesis using that ok by (simp add: plan_ok_def)
qed

lemma judged_once:
  assumes "new_note_sim c edges = Inr st" "sorted (nc_times c)" "plays st hits st'"
  shows "count (judged hits) i \<le> 1
    \<and> (spawned_all st' \<and> active_count st' = 0 \<and> i < length (nc_types c) \<and> nc_types c ! i \<noteq> 3
       \<longrightarrow> count (judged hits) i = 1)"
proof -
  obtain tails where owed: "owed_all st = mset (filter (\<lambda>i. nc_types c ! i \<noteq> 3) [0..<length (nc_types c)]) + mset tails"
    "distinct tails" "\<forall>j \<in> set tails. j < length (nc_types c) \<and> nc_types c ! j = 3" "sim_ok st"
    by (rule new_note_sim_owed [OF assms(1,2)])
  have sum: "judged hits + owed_all st' = owed_all st" using plays_owed [OF assms(3) owed(4)] by simp
  have once: "count (owed_all st) i = (if i < length (nc_types c) \<and> nc_types c ! i \<noteq> 3 \<or> i \<in> set tails then 1 else 0)"
  proof -
    have "count (mset (filter (\<lambda>i. nc_types c ! i \<noteq> 3) [0..<length (nc_types c)])) i
        = (if i < length (nc_types c) \<and> nc_types c ! i \<noteq> 3 then 1 else 0)"
      using distinct_count_atmost_1 [of "filter (\<lambda>i. nc_types c ! i \<noteq> 3) [0..<length (nc_types c)]"] by auto
    moreover have "count (mset tails) i = (if i \<in> set tails then 1 else 0)"
      using owed(2) distinct_count_atmost_1 [of tails] by simp
    ultimately show ?thesis using owed(3) unfolding owed(1) by auto
  qed
  have le: "count (judged hits) i \<le> count (owed_all st) i" using sum by (metis count_union le_add1)
  moreover have "owed_all st' = {#}" if "spawned_all st'" "active_count st' = 0"
    using that by (simp add: spawned_all_def active_count_def owed_all_def)
  ultimately show ?thesis using once sum by (auto split: if_splits)
qed

text \<open>C32: In any play - any frames, presses and releases, in any order - of a chart in time order, no note is judged twice,
  and once every note has spawned and left, every tap and hold head has been judged exactly once. (An early release is
  not a judgment of the tail: it can still be hit.)\<close>

theorem notes_judged_once:
  assumes "new_note_sim c edges = Inr st" "sorted (nc_times c)" "plays st hits st'"
  shows "count (judged hits) i \<le> 1
    \<and> (spawned_all st' \<and> active_count st' = 0 \<and> i < length (nc_types c) \<and> nc_types c ! i \<noteq> 3
       \<longrightarrow> count (judged hits) i = 1)"
  using judged_once [OF assms] .

text \<open>A tap and a hold, the tail released late.\<close>

definition example_notes :: note_chart where
  "example_notes = \<lparr>nc_times = [0, 100, 400], nc_lanes = [1, 2, 2], nc_types = [1, 2, 3]\<rparr>"

definition example_spawned :: note_sim where
  "example_spawned = \<lparr>ns_tap_edges = JUDGE_EDGES_TAP, ns_tail_edges = map (\<lambda>e. mul64 e (of_int TAIL_WINDOW_SCALE)) JUDGE_EDGES_TAP,
     ns_waiting = [(- 1500, tap_note 0 1 0), (- 1400, hold_note 1 2 100 2 400)], ns_active = []\<rparr>"

lemma r64_numeral:
  "(numeral k :: int) \<le> 2 ^ 53 \<Longrightarrow> r64 (numeral k) = numeral k"
  "(numeral k :: int) \<le> 2 ^ 53 \<Longrightarrow> r64 (- numeral k) = - numeral k"
  using r64_of_int [of "numeral k"] by simp_all

lemma example_new: "new_note_sim example_notes JUDGE_EDGES_TAP = Inr example_spawned"
proof -
  have len: "length (nc_types example_notes) = 3" by (simp add: example_notes_def)
  have tails: "tails_by_lane example_notes = Inr [(2, [2])]"
    by (simp add: tails_by_lane_def example_notes_def upt_rec item_def get_or_def)
  have plan: "fold_res (plan_note example_notes [(2, [2])]) [0..<3] \<lparr>ps_pointer = [], ps_claimed = [], ps_plan = []\<rparr>
      = Inr \<lparr>ps_pointer = [(2, 1)], ps_claimed = [2],
             ps_plan = [(- 1500, tap_note 0 1 0), (- 1400, hold_note 1 2 100 2 400)]\<rparr>"
    by (simp add: upt_rec plan_note_def example_notes_def item_def get_or_def Let_def PREBUFFER_MS_def sub64_def r64_numeral)
  have "spawn_plan example_notes = Inr [(- 1500, tap_note 0 1 0), (- 1400, hold_note 1 2 100 2 400)]"
    unfolding spawn_plan_def len tails bind_res_simps plan by (simp add: tap_note_def hold_note_def)
  then show ?thesis by (simp add: new_note_sim_def example_spawned_def)
qed

lemma example_play:
  "\<exists>hits st. plays example_spawned hits st \<and> spawned_all st \<and> active_count st = 0"
proof -
  obtain st1 h1 where f: "update_notes 0 example_spawned = (st1, h1)" by fastforce
  then have st1: "st1 = example_spawned\<lparr>ns_waiting := [], ns_active := [tap_note 0 1 0, hold_note 1 2 100 2 400]\<rparr>"
    by (auto simp: update_notes_def spawn_def example_spawned_def age_note_def tap_note_def hold_note_def sub64_def
        r64_numeral NOTE_REMOVE_MS_def Let_def List.map_filter_simps)
  obtain st2 h2 where g: "update_notes 1000 st1 = (st2, h2)" by fastforce
  then have st2: "spawned_all st2" "active_count st2 = 0"
    by (auto simp: st1 update_notes_def spawn_def example_spawned_def age_note_def tap_note_def hold_note_def sub64_def
        r64_numeral NOTE_REMOVE_MS_def Let_def List.map_filter_simps spawned_all_def active_count_def)
  have "plays example_spawned (([] @ h1) @ h2) st2"
    by (rule plays.step [OF plays.step [OF plays.start sim_step.frame [OF f]] sim_step.frame [OF g]])
  with st2 show ?thesis by blast
qed

theorem notes_judged_once_witness:
  "\<exists>hits st. plays example_spawned hits st \<and> count (judged hits) 0 = 1 \<and> count (judged hits) 2 \<le> 1"
proof -
  obtain hits st where play: "plays example_spawned hits st" "spawned_all st" "active_count st = 0"
    using example_play by blast
  have sorted: "sorted (nc_times example_notes)" by (simp add: example_notes_def)
  show ?thesis
    using notes_judged_once [OF example_new sorted play(1), of 0] notes_judged_once [OF example_new sorted play(1), of 2] play
    by (auto simp: example_notes_def)
qed

end
