(* ===== verification/GameSim.thy ===== *)
theory GameSim
  imports NoteSim
begin

text \<open>
  tools/verify/game_sim.py, the frame driver: the engine and the notes stepped together through frames and inputs, and
  the inputs a trace of intended judgments becomes.
\<close>

section \<open>The driver's state\<close>

record press_edge =
  pe_lane :: int
  pe_time :: f64
  pe_release :: bool

record fever_section =
  fs_start :: f64
  fs_end :: "f64 option"
  fs_notes :: int
  fs_open :: "bool option"

record sim_state =
  g_engine :: game_engine
  g_notes :: note_sim
  g_presses :: "press_edge list"
  g_hits :: "registered_hit list"
  g_sections :: "fever_section list"
  g_section :: "fever_section option"
  g_was_fever :: bool
  g_clock :: f64

definition advance_fever_to :: "f64 \<Rightarrow> sim_state \<Rightarrow> sim_state res" where
  "advance_fever_to target st =
     (let dt = div64 (sub64 target (g_clock st)) 1000
      in if dt > 0 then bind_res (fever_tick dt False (g_engine st)) (\<lambda>e. Inr (st\<lparr>g_engine := e, g_clock := target\<rparr>))
         else Inr st)"

definition record_section_edge :: "f64 \<Rightarrow> sim_state \<Rightarrow> sim_state" where
  "record_section_edge now st =
     (let active = e_active (g_engine st);
          st = (if active \<and> \<not> g_was_fever st
                then st\<lparr>g_section := Some \<lparr>fs_start = now, fs_end = None, fs_notes = 0, fs_open = None\<rparr>\<rparr> else st);
          st = (if \<not> active \<and> g_was_fever st
                then (case g_section st of None \<Rightarrow> st
                      | Some sec \<Rightarrow> st\<lparr>g_sections := g_sections st @ [sec\<lparr>fs_end := Some now\<rparr>], g_section := None\<rparr>)
                else st)
      in st\<lparr>g_was_fever := active\<rparr>)"

definition count_fever_note :: "judgement \<Rightarrow> bool \<Rightarrow> sim_state \<Rightarrow> sim_state" where
  "count_fever_note result counted st =
     (if e_active (g_engine st) \<and> result \<noteq> Miss \<and> counted
      then st\<lparr>g_section := map_option (\<lambda>sec. sec\<lparr>fs_notes := fs_notes sec + 1\<rparr>) (g_section st)\<rparr>
      else st)"

text \<open>A resolved input: judged, registered with the fever state after the hit, its section edge and fever note counted.\<close>

definition land_hit :: "f64 \<Rightarrow> registered_hit \<Rightarrow> sim_state \<Rightarrow> sim_state res" where
  "land_hit now hit st =
     bind_res (register_hit (rh_result hit) (rh_kind hit) (g_engine st)) (\<lambda>(e, points, counted).
       let st = st\<lparr>g_engine := e, g_hits := g_hits st @ [hit\<lparr>rh_fever := e_active e\<rparr>]\<rparr>
       in Inr (count_fever_note (rh_result hit) counted (record_section_edge now st)))"

definition do_press :: "press_edge \<Rightarrow> sim_state \<Rightarrow> sim_state res" where
  "do_press p st =
     (let now = pe_time p
      in bind_res (advance_fever_to now st) (\<lambda>st.
         let st = record_section_edge now st
         in if \<not> pe_release p then
              (case press_lane (pe_lane p) now (g_notes st) of
                 (notes, Some hit) \<Rightarrow> land_hit now hit (st\<lparr>g_notes := notes\<rparr>)
               | (notes, None) \<Rightarrow>
                   if e_chain (g_engine st) > 0 then
                     bind_res (register_hit Miss Whiff (g_engine st)) (\<lambda>(e, points, counted).
                       Inr (record_section_edge now (st\<lparr>g_notes := notes, g_engine := e\<rparr>)))
                   else Inr (st\<lparr>g_notes := notes\<rparr>))
            else
              (case release_lane (pe_lane p) now (g_notes st) of
                 (notes, None) \<Rightarrow> Inr (st\<lparr>g_notes := notes\<rparr>)
               | (notes, Some tail) \<Rightarrow>
                   if rh_kind tail = EarlyRelease \<and> e_chain (g_engine st) \<le> 0 then Inr (st\<lparr>g_notes := notes\<rparr>)
                   else land_hit now tail (st\<lparr>g_notes := notes\<rparr>))))"

text \<open>A note that times out on a frame: registered with the fever state before its miss.\<close>

definition time_miss :: "registered_hit \<Rightarrow> sim_state \<Rightarrow> sim_state res" where
  "time_miss m st =
     bind_res (advance_fever_to (rh_press m) st) (\<lambda>st.
     bind_res (register_hit Miss Note (g_engine st)) (\<lambda>(e, points, counted).
       Inr (record_section_edge (rh_press m)
              (st\<lparr>g_engine := e, g_hits := g_hits st @ [m\<lparr>rh_fever := e_active (g_engine st)\<rparr>]\<rparr>))))"

definition sim_frame :: "f64 \<Rightarrow> sim_state \<Rightarrow> sim_state res" where
  "sim_frame now st =
     bind_res (advance_fever_to now st) (\<lambda>st.
     let st = record_section_edge now st;
         (notes, missed) = update_notes now (g_notes st);
         due = takeWhile (\<lambda>p. pe_time p \<le> now) (g_presses st);
         later = dropWhile (\<lambda>p. pe_time p \<le> now) (g_presses st)
     in bind_res (fold_res time_miss missed (st\<lparr>g_notes := notes\<rparr>)) (\<lambda>st.
        fold_res do_press due (st\<lparr>g_presses := later\<rparr>)))"

definition song_over :: "f64 \<Rightarrow> f64 \<Rightarrow> sim_state \<Rightarrow> bool" where
  "song_over last_ts now st \<longleftrightarrow> spawned_all (g_notes st) \<and> active_count (g_notes st) = 0 \<and> g_presses st = [] \<and> now > last_ts"

text \<open>The loop of \<open>simulate\<close>: whether it ends depends on the frame time and on rounding.\<close>

partial_function (option) sim_loop :: "f64 \<Rightarrow> f64 \<Rightarrow> f64 \<Rightarrow> f64 \<Rightarrow> sim_state \<Rightarrow> sim_state res option" where
  "sim_loop dt end_ms last_ts now st =
     (if now \<le> end_ms then
        case sim_frame now st of
          Inl err \<Rightarrow> Some (Inl err)
        | Inr st' \<Rightarrow> if song_over last_ts now st' then Some (Inr st')
                      else sim_loop dt end_ms last_ts (add64 now dt) st'
      else Some (Inr st))"

record sim_result =
  sr_score :: int
  sr_tally :: "int list"
  sr_max_combo :: int
  sr_fever_hits :: int
  sr_fever_percentage :: f64
  sr_fever_mult :: f64
  sr_fever_time :: f64
  sr_fill_denom :: f64
  sr_hits :: "registered_hit list"
  sr_sections :: "fever_section list"

definition last_time :: "f64 list \<Rightarrow> f64" where
  "last_time ts = (if ts = [] then 0 else fold max (tl ts) (hd ts))"

definition first_time :: "f64 list \<Rightarrow> f64" where
  "first_time ts = (if ts = [] then 0 else fold min (tl ts) (hd ts))"

definition order_presses :: "press_edge list \<Rightarrow> press_edge list" where
  "order_presses ps = sort_key (\<lambda>p. (pe_time p, pe_release p)) ps"

definition finish_sections :: "sim_state \<Rightarrow> fever_section list" where
  "finish_sections st = (case g_section st of None \<Rightarrow> g_sections st
     | Some sec \<Rightarrow> g_sections st @ [sec\<lparr>fs_end := Some (g_clock st), fs_open := Some (e_active (g_engine st))\<rparr>])"

definition sim_result_of :: "sim_state \<Rightarrow> sim_result" where
  "sim_result_of st =
     (let e = g_engine st
      in \<lparr>sr_score = e_score e, sr_tally = [e_perfects e, e_greats e, e_okays e, e_misses e], sr_max_combo = max_combo e,
          sr_fever_hits = e_fever_hits e, sr_fever_percentage = fever_percentage e, sr_fever_mult = e_fever_mult e,
          sr_fever_time = e_fever_time e, sr_fill_denom = e_fill_denom e, sr_hits = g_hits st,
          sr_sections = finish_sections st\<rparr>)"

text \<open>The state before the first frame, with the end of the loop, the last note and the first frame.\<close>

definition sim_start :: "note_chart \<Rightarrow> sim_stats \<Rightarrow> string list \<Rightarrow> press_edge list \<Rightarrow> game_config \<Rightarrow> f64 \<Rightarrow> bool \<Rightarrow> f64 \<Rightarrow>
    (sim_state \<times> f64 \<times> f64 \<times> f64) res" where
  "sim_start chart statsdict colors presses cfg dt manual phase =
     bind_res (statsdict_from statsdict) (\<lambda>s.
     bind_res (new_engine cfg s colors) (\<lambda>e.
     bind_res (note_times s) (\<lambda>edges.
     bind_res (new_note_sim chart edges) (\<lambda>notes.
       let ordered = order_presses presses;
           last_ts = last_time (nc_times chart);
           last_press = (if ordered = [] then 0 else pe_time (last ordered));
           end_ms = add64 (add64 (max last_ts last_press) NOTE_REMOVE_MS) (mul64 3 dt);
           start_ms = sub64 (first_time (map fst (ns_waiting notes))) phase
       in Inr (\<lparr>g_engine = e\<lparr>e_manual := manual\<rparr>, g_notes = notes, g_presses = ordered, g_hits = [], g_sections = [],
                g_section = None, g_was_fever = False, g_clock = start_ms\<rparr>, end_ms, last_ts, start_ms)))))"

definition simulate :: "note_chart \<Rightarrow> sim_stats \<Rightarrow> string list \<Rightarrow> press_edge list \<Rightarrow> game_config \<Rightarrow> f64 \<Rightarrow> bool \<Rightarrow> f64 \<Rightarrow>
    sim_result res option" where
  "simulate chart statsdict colors presses cfg dt manual phase =
     (case sim_start chart statsdict colors presses cfg dt manual phase of
        Inl err \<Rightarrow> Some (Inl err)
      | Inr (st, end_ms, last_ts, start_ms) \<Rightarrow>
          map_option (map_sum id sim_result_of) (sim_loop dt end_ms last_ts start_ms st))"

section \<open>Inputs from a trace\<close>

definition CANONICAL_GREAT_OFFSET_TAP_MS :: f64 where "CANONICAL_GREAT_OFFSET_TAP_MS = add64 (JUDGE_EDGES_TAP ! 2) 1"
definition CANONICAL_GREAT_OFFSET_TAIL_MS :: f64 where "CANONICAL_GREAT_OFFSET_TAIL_MS = add64 (JUDGE_EDGES_TAIL ! 2) 1"

record intended_note =
  in_index :: nat
  in_hit :: f64
  in_result :: judgement
  in_type :: int
  in_lane :: int
  in_delta :: "f64 option"

definition synth_offset :: "judgement \<Rightarrow> bool \<Rightarrow> f64 option \<Rightarrow> f64 res" where
  "synth_offset result is_tail delta =
     (case delta of
        Some d \<Rightarrow> Inr d
      | None \<Rightarrow> (case result of
          Perfect \<Rightarrow> Inr 0
        | Great \<Rightarrow> Inr (if is_tail then CANONICAL_GREAT_OFFSET_TAIL_MS else CANONICAL_GREAT_OFFSET_TAP_MS)
        | _ \<Rightarrow> Inl ValueError))"

definition presses_from_intended :: "intended_note list \<Rightarrow> press_edge list res" where
  "presses_from_intended intended =
     map_res (\<lambda>it. let is_tail = (in_type it = 3)
        in bind_res (synth_offset (in_result it) is_tail (in_delta it)) (\<lambda>off.
             Inr \<lparr>pe_lane = in_lane it, pe_time = add64 (in_hit it) off, pe_release = is_tail\<rparr>)) intended"

section \<open>A run is a play\<close>

text \<open>Both halves of the driver's state move by the steps of their own machines.\<close>

definition run_ok :: "game_engine \<Rightarrow> note_sim \<Rightarrow> sim_state \<Rightarrow> bool" where
  "run_ok e\<^sub>0 notes\<^sub>0 st \<longleftrightarrow> engine_step\<^sup>*\<^sup>* e\<^sub>0 (g_engine st)
     \<and> (\<exists>hits. plays notes\<^sub>0 hits (g_notes st) \<and> judged (g_hits st) = judged hits)"

lemma run_engine:
  assumes "engine_step\<^sup>*\<^sup>* e\<^sub>0 e" "register_hit j k e = Inr (e', points, counted)"
  shows "engine_step\<^sup>*\<^sup>* e\<^sub>0 e'"
  using assms engine_step.hit by (metis rtranclp.rtrancl_into_rtrancl)

lemma record_section_edge_same [simp]:
  "g_engine (record_section_edge now st) = g_engine st" "g_notes (record_section_edge now st) = g_notes st"
  "g_hits (record_section_edge now st) = g_hits st" "g_presses (record_section_edge now st) = g_presses st"
  by (simp_all add: record_section_edge_def Let_def split: option.splits)

lemma count_fever_note_same [simp]:
  "g_engine (count_fever_note j c st) = g_engine st" "g_notes (count_fever_note j c st) = g_notes st"
  "g_hits (count_fever_note j c st) = g_hits st"
  by (simp_all add: count_fever_note_def)

lemma advance_fever_same:
  assumes "advance_fever_to t st = Inr st'"
  shows "engine_step\<^sup>*\<^sup>* (g_engine st) (g_engine st')" "g_notes st' = g_notes st" "g_hits st' = g_hits st"
    "g_presses st' = g_presses st"
  using assms engine_step.tick [of _ False "g_engine st"]
  by (auto simp: advance_fever_to_def Let_def bind_res_eq_Inr split: if_splits)

lemma judged_fever [simp]: "judged [h\<lparr>rh_fever := f\<rparr>] = judged [h]"
  by simp

lemma land_hit_same:
  assumes "land_hit now hit st = Inr st'"
  shows "engine_step\<^sup>*\<^sup>* (g_engine st) (g_engine st')" "g_notes st' = g_notes st"
    "judged (g_hits st') = judged (g_hits st) + judged [hit]"
  using assms run_engine [of "g_engine st" "g_engine st"]
  by (auto simp: land_hit_def Let_def bind_res_eq_Inr)

lemma time_miss_same:
  assumes "time_miss m st = Inr st'"
  shows "engine_step\<^sup>*\<^sup>* (g_engine st) (g_engine st')" "g_notes st' = g_notes st" "g_presses st' = g_presses st"
    "judged (g_hits st') = judged (g_hits st) + judged [m]"
proof -
  obtain u e points counted where u: "advance_fever_to (rh_press m) st = Inr u"
    "register_hit Miss Note (g_engine u) = Inr (e, points, counted)"
    "st' = record_section_edge (rh_press m) (u\<lparr>g_engine := e, g_hits := g_hits u @ [m\<lparr>rh_fever := e_active (g_engine u)\<rparr>]\<rparr>)"
    using assms by (auto simp: time_miss_def bind_res_eq_Inr)
  note adv = advance_fever_same [OF u(1)]
  show "engine_step\<^sup>*\<^sup>* (g_engine st) (g_engine st')"
    using run_engine [OF adv(1) u(2)] by (simp add: u(3))
  show "g_notes st' = g_notes st" "g_presses st' = g_presses st" "judged (g_hits st') = judged (g_hits st) + judged [m]"
    using adv by (simp_all add: u(3))
qed

lemma time_miss_fold:
  assumes "fold_res time_miss ms st = Inr st'"
  shows "engine_step\<^sup>*\<^sup>* (g_engine st) (g_engine st') \<and> g_notes st' = g_notes st \<and> g_presses st' = g_presses st
    \<and> judged (g_hits st') = judged (g_hits st) + judged ms"
  using assms
proof (induction ms arbitrary: st)
  case (Cons m ms)
  then obtain u where u: "time_miss m st = Inr u" "fold_res time_miss ms u = Inr st'" by (auto simp: bind_res_eq_Inr)
  note one = time_miss_same [OF u(1)] and rest = Cons.IH [OF u(2)]
  have "judged (m # ms) = judged [m] + judged ms" by simp
  then show ?case using one rest by (metis (no_types, lifting) add.assoc rtranclp_trans)
qed simp

lemma run_ok_step:
  assumes "run_ok e\<^sub>0 n\<^sub>0 st" "engine_step\<^sup>*\<^sup>* (g_engine st) (g_engine st')"
    and "sim_step (g_notes st) hs (g_notes st')" "judged (g_hits st') = judged (g_hits st) + judged hs"
  shows "run_ok e\<^sub>0 n\<^sub>0 st'"
proof -
  obtain hits where "plays n\<^sub>0 hits (g_notes st)" "judged (g_hits st) = judged hits" "engine_step\<^sup>*\<^sup>* e\<^sub>0 (g_engine st)"
    using assms(1) by (auto simp: run_ok_def)
  then have "plays n\<^sub>0 (hits @ hs) (g_notes st')" "judged (g_hits st') = judged (hits @ hs)" "engine_step\<^sup>*\<^sup>* e\<^sub>0 (g_engine st')"
    using plays.step assms by auto
  then show ?thesis unfolding run_ok_def by blast
qed

lemma do_press_ok:
  assumes "run_ok e\<^sub>0 n\<^sub>0 st" "do_press p st = Inr st'"
  shows "run_ok e\<^sub>0 n\<^sub>0 st'"
proof -
  obtain u0 where u0: "advance_fever_to (pe_time p) st = Inr u0" using assms(2) by (auto simp: do_press_def Let_def bind_res_eq_Inr)
  define u where "u = record_section_edge (pe_time p) u0"
  note adv = advance_fever_same [OF u0]
  have u: "engine_step\<^sup>*\<^sup>* (g_engine st) (g_engine u)" "g_notes u = g_notes st" "g_hits u = g_hits st"
    using adv by (simp_all add: u_def)
  obtain ns hit where lane: "(if \<not> pe_release p then press_lane (pe_lane p) (pe_time p) (g_notes u)
      else release_lane (pe_lane p) (pe_time p) (g_notes u)) = (ns, hit)" by fastforce
  have sim: "sim_step (g_notes st) (case hit of None \<Rightarrow> [] | Some h \<Rightarrow> [h]) ns"
    using lane sim_step.press sim_step.release by (auto simp: u split: if_splits)
  show ?thesis
  proof (cases hit)
    case None
    have "g_notes st' = ns \<and> judged (g_hits st') = judged (g_hits st) \<and> engine_step\<^sup>*\<^sup>* (g_engine st) (g_engine st')"
      using assms(2) lane None u run_engine [OF u(1)]
      by (auto simp: do_press_def u0 u_def [symmetric] Let_def bind_res_eq_Inr split: if_splits)
    then show ?thesis using run_ok_step [OF assms(1), of st'] sim None by auto
  next
    case (Some h)
    consider (landed) "land_hit (pe_time p) h (u\<lparr>g_notes := ns\<rparr>) = Inr st'"
      | (idle) "rh_kind h = EarlyRelease" "st' = u\<lparr>g_notes := ns\<rparr>"
      using assms(2) lane Some
      by (auto simp: do_press_def u0 u_def [symmetric] Let_def split: if_splits)
    then show ?thesis
    proof cases
      case landed
      note same = land_hit_same [OF landed]
      have "engine_step\<^sup>*\<^sup>* (g_engine st) (g_engine st')" using rtranclp_trans [OF u(1)] same(1) by simp
      then show ?thesis
        by (rule run_ok_step [OF assms(1), where hs = "[h]"]) (use sim Some u same in simp_all)
    next
      case idle
      then have "judged [h] = {#}" by simp
      then show ?thesis using run_ok_step [OF assms(1), of st' "[h]"] sim Some u idle(2) by simp
    qed
  qed
qed

lemma sim_frame_ok:
  assumes "run_ok e\<^sub>0 n\<^sub>0 st" "sim_frame now st = Inr st'"
  shows "run_ok e\<^sub>0 n\<^sub>0 st'"
proof -
  obtain u0 where u0: "advance_fever_to now st = Inr u0" using assms(2) by (auto simp: sim_frame_def bind_res_eq_Inr)
  define u where "u = record_section_edge now u0"
  note adv = advance_fever_same [OF u0]
  have u: "engine_step\<^sup>*\<^sup>* (g_engine st) (g_engine u)" "g_notes u = g_notes st" "g_hits u = g_hits st"
    using adv by (simp_all add: u_def)
  obtain ns missed where upd: "update_notes now (g_notes u0) = (ns, missed)" by fastforce
  obtain v where v: "fold_res time_miss missed (u\<lparr>g_notes := ns\<rparr>) = Inr v"
    "fold_res do_press (takeWhile (\<lambda>p. pe_time p \<le> now) (g_presses u))
       (v\<lparr>g_presses := dropWhile (\<lambda>p. pe_time p \<le> now) (g_presses u)\<rparr>) = Inr st'"
    using assms(2) by (auto simp: sim_frame_def u0 u_def upd Let_def bind_res_eq_Inr)
  have "sim_step (g_notes st) missed (g_notes v)"
    using time_miss_fold [OF v(1)] sim_step.frame [OF upd] adv(2) by simp
  then have "run_ok e\<^sub>0 n\<^sub>0 v"
    by (rule run_ok_step [OF assms(1), rotated]) (use time_miss_fold [OF v(1)] u in auto)
  then have start: "run_ok e\<^sub>0 n\<^sub>0 (v\<lparr>g_presses := dropWhile (\<lambda>p. pe_time p \<le> now) (g_presses u)\<rparr>)"
    by (simp add: run_ok_def)
  show ?thesis by (rule fold_res_invariant [OF v(2)]) (use start do_press_ok in auto)
qed

lemma sim_loop_ok:
  assumes "sim_loop dt end_ms last_ts now st = Some (Inr st')" "run_ok e\<^sub>0 n\<^sub>0 st"
  shows "run_ok e\<^sub>0 n\<^sub>0 st'"
proof -
  have "case r of Inl err \<Rightarrow> True | Inr st' \<Rightarrow> run_ok e\<^sub>0 n\<^sub>0 st \<longrightarrow> run_ok e\<^sub>0 n\<^sub>0 st'"
    if "sim_loop dt end_ms last_ts now st = Some r" for now st r
    using that
  proof (induction rule: sim_loop.raw_induct [rotated, consumes 1, case_names loop])
    case (loop f dt end_ms last_ts now st r)
    show ?case
    proof (cases "sim_frame now st")
      case (Inr u)
      then have "run_ok e\<^sub>0 n\<^sub>0 st \<Longrightarrow> run_ok e\<^sub>0 n\<^sub>0 u" by (rule sim_frame_ok [rotated])
      then show ?thesis
        using loop.hyps loop.prems Inr loop(1) [of dt end_ms last_ts "add64 now dt" u r]
        by (auto split: if_splits sum.splits)
    next
      case (Inl err)
      then have "now \<le> end_ms \<Longrightarrow> r = Inl err" "\<not> now \<le> end_ms \<Longrightarrow> r = Inr st"
        using loop(2) by simp_all
      then show ?thesis by (cases "now \<le> end_ms") simp_all
    qed
  qed
  from this [OF assms(1)] show ?thesis using assms(2) by simp
qed

lemma manual_step_start: "engine_ok e \<Longrightarrow> \<not> e_active e \<Longrightarrow> e_bar e < 1 \<Longrightarrow> engine_ok (e\<lparr>e_manual := b\<rparr>)"
  by (simp add: engine_ok_def)

lemma engine_steps_ok: "engine_step\<^sup>*\<^sup>* e e' \<Longrightarrow> engine_ok e \<Longrightarrow> 0 < e_fever_time e \<Longrightarrow> engine_ok e'"
proof -
  assume "engine_step\<^sup>*\<^sup>* e e'" "engine_ok e" "0 < e_fever_time e"
  then have "engine_ok e' \<and> 0 < e_fever_time e'"
    by (induction rule: rtranclp_induct) (use engine_step_ok in blast)+
  then show "engine_ok e'" by simp
qed

text \<open>The state a run starts in.\<close>

lemma sim_start_fields:
  assumes "sim_start chart statsdict colors presses cfg dt manual phase = Inr (st, end_ms, last_ts, start_ms)"
  obtains edges e s where "new_note_sim chart edges = Inr (g_notes st)" "new_engine cfg s colors = Inr e"
    "g_engine st = e\<lparr>e_manual := manual\<rparr>" "g_hits st = []" "run_ok (g_engine st) (g_notes st) st"
proof -
  obtain s e edges ns where p: "statsdict_from statsdict = Inr s" "new_engine cfg s colors = Inr e"
    "note_times s = Inr edges" "new_note_sim chart edges = Inr ns" "g_engine st = e\<lparr>e_manual := manual\<rparr>" "g_notes st = ns"
    "g_hits st = []"
    using assms by (auto simp: sim_start_def bind_res_eq_Inr Let_def)
  have "run_ok (g_engine st) (g_notes st) st"
    unfolding run_ok_def p(7) using plays.start [of "g_notes st"] by force
  then show thesis using that p by simp
qed


lemma clock_moves:
  fixes now dt :: rat
  assumes "1 \<le> dt" "\<bar>now\<bar> \<le> 2 ^ 50"
  shows "now + 1 / 2 \<le> add64 now dt"
proof -
  have x: "\<bar>now + 1\<bar> \<le> 2 powi 51" using assms(2) by (simp add: power_int_def)
  have "\<bar>r64 (now + 1) - (now + 1)\<bar> \<le> 2 powi (51 - 53)" by (rule r64_error_abs [OF x]) simp
  also have "(2::rat) powi (51 - 53) = 1 / 4" by (simp add: power_int_def field_simps)
  finally have "now + 1 / 2 \<le> r64 (now + 1)" by linarith
  also have "\<dots> \<le> add64 now dt" unfolding add64_def by (rule r64_mono) (use assms(1) in simp)
  finally show ?thesis .
qed

lemma sim_loop_returns:
  assumes "1 \<le> dt" "- (2 ^ 50) \<le> now" "end_ms \<le> 2 ^ 50"
  shows "\<exists>r. sim_loop dt end_ms last_ts now st = Some r"
  using assms(2)
proof (induction "nat \<lceil>2 * (end_ms - now) + 1\<rceil>" arbitrary: now st rule: less_induct)
  case less
  show ?case
  proof (cases "now \<le> end_ms")
    case False
    then show ?thesis by (simp add: sim_loop.simps)
  next
    case True
    then have move: "now + 1 / 2 \<le> add64 now dt" using clock_moves [OF assms(1), of now] less.prems assms(3) by simp
    have "nat \<lceil>2 * (end_ms - add64 now dt) + 1\<rceil> < nat \<lceil>2 * (end_ms - now) + 1\<rceil>"
    proof -
      have "\<lceil>2 * (end_ms - add64 now dt) + 1\<rceil> \<le> \<lceil>2 * (end_ms - now) + 1 - 1\<rceil>" by (rule ceiling_mono) (use move in simp)
      moreover have "0 < \<lceil>2 * (end_ms - now) + 1\<rceil>" using True by simp
      ultimately show ?thesis by linarith
    qed
    moreover have "- (2 ^ 50) \<le> add64 now dt" using move less.prems by linarith
    ultimately have "\<exists>r. sim_loop dt end_ms last_ts (add64 now dt) u = Some r" for u using less.hyps by blast
    then show ?thesis using True by (subst sim_loop.simps) (auto split: sum.splits)
  qed
qed

text \<open>C34: The frame loop ends. With a frame time of a millisecond or more and times below \<open>2 ^ 50\<close>, every frame moves the
  clock by at least half a millisecond in spite of rounding, so the simulator returns a result or an error for every
  chart, stats and inputs.\<close>

theorem simulate_returns:
  assumes "sim_start chart statsdict colors presses cfg dt manual phase = Inr (st, end_ms, last_ts, start_ms)"
    and "1 \<le> dt" "- (2 ^ 50) \<le> start_ms" "end_ms \<le> 2 ^ 50"
  shows "\<exists>r. simulate chart statsdict colors presses cfg dt manual phase = Some r"
  using sim_loop_returns [OF assms(2-4), of last_ts st] assms(1) by (auto simp: simulate_def)

section \<open>A short run\<close>

text \<open>One tap nobody hits, two frames.\<close>

definition one_tap :: note_chart where
  "one_tap = \<lparr>nc_times = [0], nc_lanes = [1], nc_types = [1]\<rparr>"

definition one_tap_start :: sim_state where
  "one_tap_start = \<lparr>g_engine = zero_engine,
     g_notes = \<lparr>ns_tap_edges = [430, 190, 40, - 20, - 95, - 235], ns_tail_edges = map (\<lambda>e. mul64 e 2) [430, 190, 40, - 20, - 95, - 235],
                ns_waiting = [(- 1500, tap_note 0 1 0)], ns_active = []\<rparr>,
     g_presses = [], g_hits = [], g_sections = [], g_section = None, g_was_fever = False, g_clock = - 1500\<rparr>"

lemma one_tap_started:
  "sim_start one_tap [] [''ColorBlue'', ''ColorRed''] [] \<lparr>hit_objects_count = 0, last_note_time_sec = 100\<rparr> 2000 False 0
     = Inr (one_tap_start, 6200, 0, - 1500)"
proof -
  have s: "statsdict_from [] = Inr zero_sim" by (simp add: statsdict_from_def zero_sim_def)
  have edges: "note_times zero_sim = Inr [430, 190, 40, - 20, - 95, - 235]"
    by (simp add: note_times_def stat_f_def GEAR_STAT_TYPES_def add64_def r64_numeral Let_def)
  have plan: "new_note_sim one_tap [430, 190, 40, - 20, - 95, - 235] = Inr (g_notes one_tap_start)"
    by (simp add: new_note_sim_def spawn_plan_def tails_by_lane_def one_tap_def plan_note_def item_def Let_def
        PREBUFFER_MS_def sub64_def r64_numeral one_tap_start_def TAIL_WINDOW_SCALE_def)
  have manual: "zero_engine\<lparr>e_manual := False\<rparr> = zero_engine" by (simp add: zero_engine_def)
  show ?thesis
    unfolding sim_start_def s bind_res_simps zero_new_engine edges plan Let_def
    by (simp add: manual one_tap_start_def one_tap_def last_time_def first_time_def order_presses_def NOTE_REMOVE_MS_def
        add64_def sub64_def mul64_def r64_numeral)
qed

lemma zero_miss:
  "\<exists>e points. register_hit Miss Note (zero_engine\<lparr>e_powerbar_notes := 0\<rparr>) = Inr (e, points, True)"
proof -
  have "hit_fever Miss (zero_engine\<lparr>e_powerbar_notes := 0\<rparr>) = Inr (zero_engine\<lparr>e_powerbar_notes := 0, e_bar := 0\<rparr>)"
    by (simp add: hit_fever_def fever_fill_def add64_def sim_clamp_def Let_def FEVER_ACTIVATE_AT_def)
  moreover have "color_point_bonus zero_sim Miss [''ColorBlue'', ''ColorRed''] = Inr (0, 0)"
    by (simp add: color_point_bonus_def scaled_points_def GEAR_STAT_TYPES_def mul64_def)
  moreover have "\<exists>m. continuous_combo_multiplier zero_sim 0 = Inr m"
  proof -
    have "combo_thresholds zero_sim = Inr (25, 50, 100)"
      by (simp add: combo_thresholds_def stat_f_def GEAR_STAT_TYPES_def mul64_def r64_numeral)
    moreover have "\<exists>m. combo_multipliers zero_sim = Inr m" by (simp add: combo_multipliers_def stat_f_def GEAR_STAT_TYPES_def)
    ultimately show ?thesis
      by (auto simp: continuous_combo_multiplier_def Let_def y_for_2pt_line_def safe_div_def sub64_def [of 0 25] r64_numeral)
  qed
  ultimately show ?thesis by (auto simp: register_hit_def hit_chain_def Let_def)
qed

lemma one_tap_runs: "\<exists>st. sim_loop 2000 6200 0 (- 1500) one_tap_start = Some (Inr st)"
proof -
  let ?st1 = "one_tap_start\<lparr>g_notes := (g_notes one_tap_start)\<lparr>ns_waiting := [], ns_active := [tap_note 0 1 0]\<rparr>\<rparr>"
  have f1: "sim_frame (- 1500) one_tap_start = Inr ?st1"
    by (simp add: sim_frame_def advance_fever_to_def one_tap_start_def sub64_def div64_def record_section_edge_def update_notes_def
        spawn_def age_note_def tap_note_def NOTE_REMOVE_MS_def List.map_filter_simps r64_numeral Let_def)
  have "\<exists>st2. sim_frame 500 ?st1 = Inr st2 \<and> song_over 0 500 st2"
  proof -
    let ?e = "zero_engine\<lparr>e_powerbar_notes := 0\<rparr>"
    have adv: "advance_fever_to 500 ?st1 = Inr (?st1\<lparr>g_engine := ?e, g_clock := 500\<rparr>)"
      by (simp add: advance_fever_to_def one_tap_start_def sub64_def div64_def fever_tick_def r64_numeral Let_def FEVER_ACTIVATE_AT_def)
    have upd: "update_notes 500 (g_notes ?st1) = ((g_notes ?st1)\<lparr>ns_active := []\<rparr>, [registered 0 Miss 0 500 False Note])"
      by (simp add: update_notes_def spawn_def age_note_def tap_note_def one_tap_start_def NOTE_REMOVE_MS_def sub64_def
          List.map_filter_simps r64_numeral Let_def)
    obtain e points where miss: "register_hit Miss Note ?e = Inr (e, points, True)" using zero_miss by blast
    show ?thesis
      unfolding sim_frame_def adv bind_res_simps Let_def
      using upd miss
      by (simp add: time_miss_def advance_fever_to_def registered_def sub64_def div64_def one_tap_start_def record_section_edge_def
          song_over_def spawned_all_def active_count_def Let_def)
  qed
  then obtain st2 where f2: "sim_frame 500 ?st1 = Inr st2" "song_over 0 500 st2" by blast
  have next_frame: "add64 (- 1500) 2000 = 500" by (simp add: add64_def r64_numeral)
  have "sim_loop 2000 6200 0 500 ?st1 = Some (Inr st2)" using f2 by (subst sim_loop.simps) simp
  moreover have "\<not> song_over 0 (- 1500) ?st1" by (simp add: song_over_def)
  ultimately have "sim_loop 2000 6200 0 (- 1500) one_tap_start = Some (Inr st2)"
    using f1 next_frame by (subst sim_loop.simps) simp
  then show ?thesis by blast
qed


theorem simulate_returns_witness:
  "\<exists>r. simulate one_tap [] [''ColorBlue'', ''ColorRed''] [] \<lparr>hit_objects_count = 0, last_note_time_sec = 100\<rparr> 2000 False 0 = Some r"
  by (rule simulate_returns [OF one_tap_started]) simp_all

end
