(* ===== verification/Spec2Isabelle.thy ===== *)
theory Spec2Isabelle
  imports Materialize GemSearch BoardMerge GameSim
begin

text \<open>
  A verification library of the RoBeats gear optimizer (the Python package \<open>gear_optimizer\<close> and the
  game simulator \<open>tools/verify/game_sim.py\<close>).

  \<^bold>\<open>The program.\<close> RoBeats scores a play of a song note by note: a note's points are its base value
  (the stats of the player's gear, minis and gems) times the combo multiplier and, while fever runs,
  the fever multiplier. Perfects fill the fever bar by one unit and Greats by half a unit, so a play
  that hits some notes Great on purpose (Force Greats) moves its fever windows. The optimizer searches
  the loadout, the gems and the play with the highest score. A play is reduced to a \<^emph>\<open>surface\<close>: which of
  the first hundred notes are in fever and which are Great (bit masks), and how many of the later notes
  are. A surface is stored with a \<^emph>\<open>trace\<close>, its fever sections, from which every note's judgment, order
  and hit time can be planned again and replayed against the game's rules. Results are merged into a
  leaderboard per song.

  The theorems follow that chain. A surface's score is the score of the play it stands for
  (\<open>Score\<close>); a surface has a trace exactly when sections add up to it, and the trace found marks exactly
  its notes (\<open>TraceSearch\<close>); a trace that the validation accepts can be hit, in an order and at times the
  judge windows allow, and the game gives it the surface's score (\<open>PhysicalReplay\<close> over \<open>NoteGraph\<close>,
  \<open>HitSchedule\<close>, \<open>ReplayKernel\<close> and \<open>ActivationWitness\<close>); results offered to a board are kept unless
  the board is full of better ones (\<open>BoardMerge\<close>). Before any of that the gem search drops the splits of
  the gem budget that cannot win; what it drops is never better (\<open>GemSearch\<close>). \<open>Rescore\<close> and \<open>Materialize\<close>
  join the parts as the optimizer does: every payload it stores carries a trace that plays its surface. The simulator is the independent port of the game the
  optimizer is checked against, and its points and bar are related to the optimizer's (\<open>GameEngine\<close>,
  \<open>NoteSim\<close>, \<open>GameSim\<close>).

  \<^bold>\<open>The theories\<close>, in the order they build on one another (paths are under \<open>src/gear_optimizer\<close> unless
  they start with \<open>tools/\<close>):

  \<^item> \<open>Prelude\<close>: Python's errors, the result type \<open>'a res\<close> with its bind and folds, dictionaries as
    association lists, NumPy helpers (clip, argmax, searchsorted) and the named collections of facts.
    \<open>Sorting\<close>: \<open>argsort\<close> and the slices of arrays sorted by it. \<open>Floats\<close>: binary64 and binary32.
  \<^item> \<open>GameData\<close>: \<open>rules.py\<close> and \<open>gamedata.py\<close>; the stat curves, the combo ramp, Mini Ascension.
    \<open>Stats\<close>: \<open>stats.py\<close>, \<open>core/gem_defs.py\<close>, \<open>core/color_flags.py\<close>, \<open>core/team_buff.py\<close>,
    \<open>solver/base_stats.py\<close>, \<open>solver/song_config.py\<close>; stat rows, gems, buffs.
  \<^item> \<open>Score\<close>: \<open>score.py\<close> and \<open>_surface_score\<close> of \<open>solver/gem_search.py\<close>. The mask-and-count score equals
    the note-by-note score, the two copies agree, more fever and fewer Greats never score less.
  \<^item> \<open>FeverTimeline\<close>: \<open>solver/fever_timeline.py\<close>; the kernel that jumps from fever window to fever window
    equals the bar walked note by note, and it returns. \<open>FillCrossing\<close>: \<open>frontier/fill_crossing.py\<close>; the
    closed forms of the note that fills the bar equal the walk.
  \<^item> \<open>Chart\<close>: \<open>chart.py\<close>; text to header and sorted notes. \<open>Timing\<close>: \<open>solver/timing_envelope.py\<close>,
    \<open>core/time_quantize.py\<close>, \<open>core/timing_modes.py\<close>; judge windows, hit envelopes, fever axes.
  \<^item> \<open>Boards\<close>, \<open>BoardMerge\<close>: \<open>store/records.py\<close>, \<open>store/boards.py\<close>; records, their checks, the merge.
  \<^item> \<open>GameEngine\<close>, \<open>NoteSim\<close>, \<open>GameSim\<close>: \<open>tools/verify/game_sim.py\<close>; the score engine, the matching of
    presses and releases to notes, the frame driver.
  \<^item> \<open>ReplayKernel\<close>, \<open>PhysicalReplay\<close>: \<open>trace/physical_replay.py\<close>. \<open>ActivationWitness\<close>:
    \<open>trace/activation_witness.py\<close>. \<open>HitSchedule\<close>: \<open>trace/hit_schedule.py\<close>. \<open>NoteGraph\<close>:
    \<open>trace/note_graph.py\<close>.
  \<^item> \<open>SectionEdges\<close>, \<open>SectionKernels\<close>: the parts of \<open>frontier/producer_kernels.py\<close> that pack a section and
    list the candidate sections after a note, and \<open>trace/section_kernels.py\<close>. \<open>TraceSearch\<close>:
    \<open>trace/reconstruct.py\<close> (with \<open>song_arrays\<close> and \<open>action_table\<close> of \<open>frontier/producer_batch.py\<close>).
  \<^item> \<open>Rescore\<close>: \<open>solver/scoring/fg_policy.py\<close> and \<open>solver/scoring/exact_rescore.py\<close>; the exact scores of stat
    rows and the validated base trace with its memo. \<open>Materialize\<close>: \<open>trace/materialize.py\<close> and the loop of
    \<open>trace/fixed_timing.py\<close>; stored payloads and the cache of validated traces.
  \<^item> \<open>GemGroups\<close>, \<open>GemSearch\<close>: \<open>solver/gem_search.py\<close> with \<open>ftff_combo_arrays\<close> of \<open>solver/ftff_combos.py\<close>;
    the splits of the gem budget a batch of loadouts keeps, and that no allocation is lost by keeping only
    those.

  \<^bold>\<open>How state and operations correspond.\<close> A dataclass or named tuple is a record with the same fields, an
  operation a function of its name; a NumPy array is a list, read out of range only where the source
  would raise too (\<open>IndexError\<close>). State that methods change (the score engine, the simulated notes, the
  simulator, a chart parser, the merge's counters) is a record passed through and returned. A raised
  exception is the left of \<open>'a res\<close>; messages are left out. Machine words are \<open>64 word\<close> and \<open>32 word\<close>
  where the source packs bits; other integers are \<open>int\<close>, with the source's casts written out where a
  value could leave its width. A float is the rational it stands for, and every operation is the exact
  one followed by the rounding of its format (\<open>r64\<close>, \<open>r32\<close>), so the theorems about scores, windows and
  bars hold for the rounded arithmetic the program performs; infinities are absent values (\<open>None\<close>).

  \<^bold>\<open>Loops.\<close> No definition uses fuel. A loop over a list is structural or has a measure; a loop whose end
  depends on the data is a \<open>partial_function (option)\<close>, and that it returns is a theorem of its own
  (\<open>fever_timeline_is_walk\<close>, \<open>simulate_returns\<close>, \<open>section_rows_keep_first\<close>; for the relaxation of
  \<open>HitSchedule\<close> and the fill loop of \<open>Timing\<close> the theorems state what a returned value satisfies and the
  witnesses evaluate a run). The frame loop of the simulator advances a rounded clock and is shown to end
  in spite of the rounding; the open-addressed row table is shown never to be searched in a circle.

  \<^bold>\<open>Interfaces.\<close> Where one part relies on another through a contract the contract is a locale,
  interpreted on the program's own definitions. \<open>fever_bar\<close> (\<open>FillCrossing\<close>): a bar that Perfects and
  Greats fill monotonically, interpreted on the planner's half units and, in \<open>ReplayKernel\<close>, on the game's
  binary64 bar. \<open>board\<close> (\<open>Boards\<close>): who is ranked and how, interpreted on the meta and the Force Greats
  board. \<open>trace_tables\<close> (\<open>TraceSearch\<close>): what the memoised search needs of its section tables,
  interpreted on the song's. \<open>dominance\<close> (\<open>GemGroups\<close>): what a pruning that keeps the unbeaten needs,
  interpreted on the splits of every song.

  \<^bold>\<open>Not modelled.\<close> Floats' overflow, infinities and NaNs (a score stays below \<open>2 ^ 53\<close>); files, JSON, zlib,
  SQL and the caches around the pure functions (a memo of a pure function changes no result); digests;
  thread and process pools; the Taichi GPU kernels and the genetic search, whose results are not exact
  by design; the web service, the command line and the console. The frontier producer's search kernels
  (the reduction of all reachable sections to a frontier of surfaces) are modelled only as far as trace
  reconstruction shares them, and the gem search as far as the groups it searches; the theorems therefore say that what the optimizer stores is legal and
  scored exactly, not that no better surface exists.
\<close>

end
